(* ===== verification/Prelude.thy ===== *)
theory Prelude
  imports Main "HOL-Library.Word" "HOL-Library.Multiset" "HOL-Library.AList"
begin

unbundle bit_operations_syntax

text \<open>
  What the components share: the Go integer types, the run-time panics a Go
  function can raise (as values of a sum type), and generic lemmas about lists
  and words that the component proofs use.

  Go's unsigned and signed 64-bit integers are \<open>64 word\<close> (\<open>+\<close>, \<open>*\<close> and
  shifts wrap; \<open>sint\<close> reads the signed value).  Shard numbers, slice indexes and
  counts, which the code never brings near the width of \<open>int\<close>, are HOL \<open>int\<close> or
  \<open>nat\<close>.
\<close>

section \<open>Go values\<close>

type_synonym u64 = "64 word"
type_synonym i64 = "64 word"

text \<open>A run-time panic of the Go program: the call does not return.\<close>

datatype panic =
    DivideByZero
  | IndexOutOfRange
  | MakeSliceOutOfRange
  | SliceBoundsOutOfRange
  | NilDereference

type_synonym 'a go = "panic + 'a"

definition bind_go :: "'a go \<Rightarrow> ('a \<Rightarrow> 'b go) \<Rightarrow> 'b go" where
  "bind_go m f = (case m of Inl p \<Rightarrow> Inl p | Inr x \<Rightarrow> f x)"

lemma bind_go_simps [simp]:
  "bind_go (Inl p) f = Inl p"
  "bind_go (Inr x) f = f x"
  by (simp_all add: bind_go_def)

lemma bind_go_Inr_iff:
  "bind_go m f = Inr y \<longleftrightarrow> (\<exists>x. m = Inr x \<and> f x = Inr y)"
  by (cases m) auto

text \<open>Go's integer division truncates towards zero.\<close>

definition go_div :: "int \<Rightarrow> int \<Rightarrow> int" where
  "go_div a b = sgn a * sgn b * (\<bar>a\<bar> div \<bar>b\<bar>)"

lemma go_div_nonneg: "0 \<le> a \<Longrightarrow> 0 < b \<Longrightarrow> go_div a b = a div b"
  by (cases "a = 0") (simp_all add: go_div_def)

section \<open>Collections of facts\<close>

named_theorems wf_intros \<open>rules that establish a component's well-formedness invariant\<close>
named_theorems spec_simps \<open>equations that give an operation's effect\<close>

section \<open>Lists\<close>

lemma sorted_wrt_takeD:
  assumes "sorted_wrt P xs" and "x \<in> set (take n xs)" and "y \<in> set (drop n xs)"
  shows "P x y"
  using assms by (metis append_take_drop_id sorted_wrt_append)

lemma filter_all_take: "(\<And>x. x \<in> set xs \<Longrightarrow> P x) \<Longrightarrow> filter P (take n xs) = take n xs"
  by (auto simp: filter_id_conv dest: in_set_takeD)

section \<open>Words\<close>

lemma or_eq_plus_disjoint: "a AND b = 0 \<Longrightarrow> a OR b = a + (b :: 'a::len word)"
  using word_plus_and_or [of a b] by simp

lemma xor_left_cancel_word [simp]: "(h XOR a = h XOR b) \<longleftrightarrow> a = (b :: 'a::len word)"
proof
  assume "h XOR a = h XOR b"
  then have "h XOR (h XOR a) = h XOR (h XOR b)" by simp
  then show "a = b" by (simp flip: xor.assoc)
qed simp

lemma xor_right_cancel_word [simp]: "(a XOR h = b XOR h) \<longleftrightarrow> a = (b :: 'a::len word)"
  by (simp only: xor.commute [of _ h] xor_left_cancel_word)

lemma take_bit_mult_word:
  "take_bit k (take_bit k a * b) = take_bit k (a * b :: 'a::len word)"
  by transfer (simp add: take_bit_take_bit min_def mod_mult_left_eq take_bit_eq_mod)

lemma uint_64_bounds: "0 \<le> uint (w :: 64 word)" "uint (w :: 64 word) < 18446744073709551616"
  using uint_range_size [of w] by (simp_all add: word_size)

lemma mod_neg_small: "- m \<le> d \<Longrightarrow> d < 0 \<Longrightarrow> d mod m = d + (m :: int)"
  using mod_add_self2 [of d m] mod_pos_pos_trivial [of "d + m" m] by simp

lemma sint_nonneg_uint: "0 \<le> sint (w :: i64) \<Longrightarrow> uint w = sint w"
  using sint_lt [of w] by (simp add: uint_sint take_bit_int_eq_self)

lemma uint_small_sint: "uint (w :: i64) < 2 ^ 63 \<Longrightarrow> sint w = uint w"
  using signed_take_bit_int_eq_self [of 63 "uint w"] uint_ge_0 [of w] by (simp add: sint_uint)

lemma sint_word_of_int_64: "- (2 ^ 63) \<le> k \<Longrightarrow> k < 2 ^ 63 \<Longrightarrow> sint (word_of_int k :: i64) = k"
  using signed_take_bit_int_eq_self [of 63 k] by (simp add: signed_of_int)

lemma small_int_bits: "0 \<le> k \<Longrightarrow> k < 2 ^ m \<Longrightarrow> bit (k :: int) n \<Longrightarrow> n < m"
  by (metis bit_take_bit_iff take_bit_int_eq_self)

lemma uint_small_bits:
  assumes "uint (w :: 'a::len word) < 2 ^ k"
  shows "bit w n \<Longrightarrow> n < k"
proof -
  have "take_bit k w = w"
    by (rule word_uint_eqI) (use assms in \<open>simp add: unsigned_take_bit_eq take_bit_int_eq_self\<close>)
  then show "bit w n \<Longrightarrow> n < k" by (metis bit_take_bit_iff)
qed

section \<open>Go maps and slices\<close>

text \<open>
  A Go map is an association list with distinct keys, in the order a \<open>range\<close> loop
  happens to visit it; a map that may be nil is an \<open>option\<close> of one.  Reading a nil
  map finds nothing.
\<close>

type_synonym ('k, 'v) gomap = "('k \<times> 'v) list"

definition gomap_of :: "('k, 'v) gomap option \<Rightarrow> ('k, 'v) gomap" where
  "gomap_of m = (case m of None \<Rightarrow> [] | Some l \<Rightarrow> l)"

lemma gomap_of_simps [simp]: "gomap_of None = []" "gomap_of (Some l) = l"
  by (simp_all add: gomap_of_def)

definition go_map_ok :: "('k, 'v) gomap \<Rightarrow> bool" where
  "go_map_ok m \<longleftrightarrow> distinct (map fst m)"

lemma go_map_ok_Nil [simp]: "go_map_ok []"
  by (simp add: go_map_ok_def)

lemma go_map_ok_update [simp]: "go_map_ok m \<Longrightarrow> go_map_ok (AList.update k v m)"
  by (simp add: go_map_ok_def distinct_update)

lemma go_map_ok_delete [simp]: "go_map_ok m \<Longrightarrow> go_map_ok (AList.delete k m)"
  by (simp add: go_map_ok_def distinct_delete)

lemma map_of_alist_delete: "map_of (AList.delete k m) k' = (if k' = k then None else map_of m k')"
  by (simp add: delete_conv)

lemma map_of_alist_update: "map_of (AList.update k v m) k' = (if k' = k then Some v else map_of m k')"
  by (simp add: update_conv)

text \<open>Indexing a slice panics out of range, and so does assigning to an element.\<close>

definition go_index :: "'a list \<Rightarrow> int \<Rightarrow> 'a go" where
  "go_index xs i = (if 0 \<le> i \<and> i < int (length xs) then Inr (xs ! nat i) else Inl IndexOutOfRange)"

definition go_assign :: "'a list \<Rightarrow> int \<Rightarrow> 'a \<Rightarrow> 'a list go" where
  "go_assign xs i v =
     (if 0 \<le> i \<and> i < int (length xs) then Inr (xs[nat i := v]) else Inl IndexOutOfRange)"

lemma go_index_in: "0 \<le> i \<Longrightarrow> i < int (length xs) \<Longrightarrow> go_index xs i = Inr (xs ! nat i)"
  by (simp add: go_index_def)

text \<open>A loop that collects one value per element and stops at a panic.\<close>

fun mapM_go :: "('a \<Rightarrow> 'b go) \<Rightarrow> 'a list \<Rightarrow> 'b list go" where
  "mapM_go f [] = Inr []"
| "mapM_go f (x # xs) = bind_go (f x) (\<lambda>y. bind_go (mapM_go f xs) (\<lambda>ys. Inr (y # ys)))"

lemma mapM_go_Inr: "(\<And>x. x \<in> set xs \<Longrightarrow> f x = Inr (g x)) \<Longrightarrow> mapM_go f xs = Inr (map g xs)"
  by (induction xs) auto

lemma mapM_go_Inl: "x \<in> set xs \<Longrightarrow> f x = Inl p \<Longrightarrow> \<exists>q. mapM_go f xs = Inl q"
proof (induction xs)
  case (Cons y ys)
  then show ?case by (cases "f y"; cases "mapM_go f ys") auto
qed simp

end
