(* ===== verification/Ids.thy ===== *)
theory Ids
  imports Prelude
begin

text \<open>
  Snowflake ids, \<open>src/internal/shard/id.go\<close>: 41 bits of millisecond time, 10 bits
  of shard, 12 bits of sequence in an \<open>int64\<close>.  The wall clock is an argument: a
  list of the \<open>time.Now().UnixMilli()\<close> readings the generator will see, one per
  call of \<open>time.Now\<close>.  \<open>Next\<close> is \<open>None\<close> where the readings run out while
  the generator still waits for the clock.  The mutex makes each \<open>Next\<close> one step.
\<close>

section \<open>The code\<close>

definition idEpochMs :: i64 where "idEpochMs = 1704067200000"
definition shardBits :: nat where "shardBits = 10"
definition seqBits :: nat where "seqBits = 12"
definition maxShardID :: int where "maxShardID = 2 ^ shardBits - 1"
definition maxSeq :: i64 where "maxSeq = 4095"
definition shardShift :: nat where "shardShift = seqBits"
definition timeShift :: nat where "timeShift = seqBits + shardBits"

lemmas id_consts = shardBits_def seqBits_def maxShardID_def maxSeq_def shardShift_def timeShift_def

record idgen =
  g_shard :: int
  g_lastMs :: i64
  g_seq :: i64

datatype id_error = ShardOutOfRange int

definition NewIDGen :: "int \<Rightarrow> id_error + idgen" where
  "NewIDGen shard =
     (if shard < 0 \<or> shard > maxShardID then Inl (ShardOutOfRange shard)
      else Inr \<lparr>g_shard = shard, g_lastMs = 0, g_seq = 0\<rparr>)"

text \<open>\<open>for ms <= g.lastMs { time.Sleep(...); ms = time.Now().UnixMilli() - idEpochMs }\<close>\<close>

fun wait_clock :: "i64 \<Rightarrow> i64 \<Rightarrow> i64 list \<Rightarrow> (i64 \<times> i64 list) option" where
  "wait_clock lastMs ms clock =
     (if sint ms \<le> sint lastMs
      then (case clock of [] \<Rightarrow> None | now # rest \<Rightarrow> wait_clock lastMs (now - idEpochMs) rest)
      else Some (ms, clock))"

declare wait_clock.simps [simp del]

definition make_id :: "i64 \<Rightarrow> int \<Rightarrow> i64 \<Rightarrow> i64" where
  "make_id ms shard seq = push_bit timeShift ms OR push_bit shardShift (word_of_int shard) OR seq"

definition Next :: "idgen \<Rightarrow> i64 list \<Rightarrow> (i64 \<times> idgen \<times> i64 list) option" where
  "Next g clock =
     (case clock of [] \<Rightarrow> None
      | now # rest \<Rightarrow>
        let ms = now - idEpochMs in
        map_option (\<lambda>(ms, seq, rest).
            (make_id ms (g_shard g) seq, g\<lparr>g_lastMs := ms, g_seq := seq\<rparr>, rest))
          (if ms = g_lastMs g then
             let seq = g_seq g + 1 in
             if sint seq > sint maxSeq
             then map_option (\<lambda>(ms', rest'). (ms', 0, rest')) (wait_clock (g_lastMs g) ms rest)
             else Some (ms, seq, rest)
           else if sint ms > sint (g_lastMs g) then Some (ms, 0, rest)
           else Some (g_lastMs g, g_seq g + 1, rest)))"

text \<open>
  \<open>DecodeID\<close>: the creation time in Unix milliseconds, the shard and the sequence.
  \<open>>>\<close> on \<open>int64\<close> is the arithmetic shift.
\<close>

definition DecodeID :: "i64 \<Rightarrow> i64 \<times> int \<times> int" where
  "DecodeID i =
     (signed_drop_bit timeShift i + idEpochMs,
      sint (signed_drop_bit shardShift i AND word_of_int maxShardID),
      sint (i AND maxSeq))"

text \<open>Calling \<open>Next\<close> \<open>n\<close> times in a row.\<close>

fun Next_n :: "nat \<Rightarrow> idgen \<Rightarrow> i64 list \<Rightarrow> (i64 list \<times> idgen \<times> i64 list) option" where
  "Next_n 0 g clock = Some ([], g, clock)"
| "Next_n (Suc n) g clock =
     (case Next g clock of None \<Rightarrow> None
      | Some (i, g', clock') \<Rightarrow>
        (case Next_n n g' clock' of None \<Rightarrow> None
         | Some (ids, g'', clock'') \<Rightarrow> Some (i # ids, g'', clock'')))"

section \<open>The layout of an id\<close>

definition id_fields_ok :: "i64 \<Rightarrow> int \<Rightarrow> i64 \<Rightarrow> bool" where
  "id_fields_ok ms shard seq \<longleftrightarrow>
     0 \<le> sint ms \<and> sint ms < 2 ^ 41 \<and> 0 \<le> shard \<and> shard \<le> maxShardID \<and>
     0 \<le> sint seq \<and> sint seq \<le> sint maxSeq"


lemma id_fields_bits:
  assumes "id_fields_ok ms shard seq"
  shows "bit ms n \<Longrightarrow> n < 41" "bit shard n \<Longrightarrow> n < 10" "bit seq n \<Longrightarrow> n < 12"
proof -
  have "uint ms < 2 ^ 41" "uint seq < 2 ^ 12" "0 \<le> shard" "shard < 2 ^ 10"
    using assms by (simp_all add: id_fields_ok_def sint_nonneg_uint id_consts)
  then show "bit ms n \<Longrightarrow> n < 41" "bit shard n \<Longrightarrow> n < 10" "bit seq n \<Longrightarrow> n < 12"
    using uint_small_bits [of ms 41 n] uint_small_bits [of seq 12 n] small_int_bits [of shard 10 n]
    by simp_all
qed

lemma make_id_plus:
  assumes "id_fields_ok ms shard seq"
  shows "make_id ms shard seq = push_bit 22 ms + push_bit 12 (word_of_int shard) + seq"
proof -
  note bits = id_fields_bits [OF assms]
  have 1: "push_bit 22 ms AND push_bit 12 (word_of_int shard) = 0"
    by (rule bit_word_eqI) (auto simp: bit_simps dest: bits)
  have 2: "(push_bit 22 ms OR push_bit 12 (word_of_int shard)) AND seq = 0"
    by (rule bit_word_eqI) (auto simp: bit_simps dest: bits)
  show ?thesis
    using or_eq_plus_disjoint [OF 2]
    by (simp add: make_id_def id_consts or.assoc flip: or_eq_plus_disjoint [OF 1])
qed

lemma sint_make_id:
  assumes "id_fields_ok ms shard seq"
  shows "sint (make_id ms shard seq) = sint ms * 2 ^ 22 + shard * 2 ^ 12 + sint seq"
proof -
  let ?v = "sint ms * 2 ^ 22 + shard * 2 ^ 12 + sint seq"
  have b: "0 \<le> ?v" "?v < 2 ^ 63"
    using assms by (auto simp: id_fields_ok_def id_consts)
  have "make_id ms shard seq = word_of_int ?v"
    by (simp add: make_id_plus [OF assms] push_bit_eq_mult)
  with b show ?thesis by (simp only: sint_word_of_int_64)
qed

lemma DecodeID_make_id:
  assumes "id_fields_ok ms shard seq"
  shows "DecodeID (make_id ms shard seq) = (ms + idEpochMs, shard, sint seq)"
proof -
  note bits = id_fields_bits [OF assms]
  have 1: "signed_drop_bit 22 (make_id ms shard seq) = ms"
    by (rule bit_word_eqI) (auto simp: make_id_def id_consts bit_simps dest: bits)
  have 2: "signed_drop_bit 12 (make_id ms shard seq) AND mask 10 = word_of_int shard"
    by (rule bit_word_eqI) (auto simp: make_id_def id_consts bit_simps dest: bits)
  have 3: "make_id ms shard seq AND mask 12 = seq"
    by (rule bit_word_eqI) (auto simp: make_id_def id_consts bit_simps dest: bits)
  have "sint (word_of_int shard :: i64) = shard"
    using assms by (intro sint_word_of_int_64) (simp_all add: id_fields_ok_def id_consts)
  with 1 2 3 show ?thesis by (simp add: DecodeID_def id_consts mask_eq_exp_minus_1)
qed

section \<open>One call of Next\<close>

text \<open>The id that the generator's state stands for: the last one it issued.\<close>

definition last_id :: "idgen \<Rightarrow> i64" where
  "last_id g = make_id (g_lastMs g) (g_shard g) (g_seq g)"

definition wf_idgen :: "idgen \<Rightarrow> bool" where
  "wf_idgen g \<longleftrightarrow> id_fields_ok (g_lastMs g) (g_shard g) (g_seq g)"

text \<open>A clock reading inside the 41 bits of the layout.\<close>

definition reading_ok :: "i64 \<Rightarrow> bool" where
  "reading_ok now \<longleftrightarrow> 0 \<le> sint (now - idEpochMs) \<and> sint (now - idEpochMs) < 2 ^ 41"

text \<open>The generator can absorb the next reading: it is not behind, or sequence numbers are left.\<close>

definition absorbs :: "idgen \<Rightarrow> i64 \<Rightarrow> bool" where
  "absorbs g now \<longleftrightarrow> sint (g_lastMs g) \<le> sint (now - idEpochMs) \<or> sint (g_seq g) < sint maxSeq"

lemma wf_NewIDGen: "NewIDGen shard = Inr g \<Longrightarrow> wf_idgen g \<and> g_shard g = shard"
  by (auto simp: NewIDGen_def wf_idgen_def id_fields_ok_def id_consts split: if_splits)

lemma sint_Suc_seq:
  "0 \<le> sint (s :: i64) \<Longrightarrow> sint s < 2 ^ 62 \<Longrightarrow> sint (s + 1) = sint s + 1"
proof -
  assume a: "0 \<le> sint s" "sint s < 2 ^ 62"
  have "s + 1 = word_of_int (sint s + 1)" by simp
  moreover have "sint (word_of_int (sint s + 1) :: i64) = sint s + 1"
    using a by (intro sint_word_of_int_64) simp_all
  ultimately show ?thesis by simp
qed

lemma wait_clock_Some:
  "wait_clock lastMs ms clock = Some (ms', rest) \<Longrightarrow> \<forall>r\<in>set clock. reading_ok r \<Longrightarrow>
   0 \<le> sint ms \<Longrightarrow> sint ms < 2 ^ 41 \<Longrightarrow>
   sint lastMs < sint ms' \<and> 0 \<le> sint ms' \<and> sint ms' < 2 ^ 41 \<and> set rest \<subseteq> set clock"
proof (induction lastMs ms clock rule: wait_clock.induct)
  case (1 lastMs ms clock)
  from "1.prems" show ?case
    by (subst (asm) wait_clock.simps)
       (auto split: if_splits list.splits simp: reading_ok_def dest!: "1.IH")
qed

lemma make_id_mono:
  assumes "id_fields_ok ms shard seq" "id_fields_ok ms' shard seq'"
    and "sint ms < sint ms' \<or> ms = ms' \<and> sint seq < sint seq'"
  shows "sint (make_id ms shard seq) < sint (make_id ms' shard seq')"
  using assms by (auto simp: sint_make_id id_fields_ok_def id_consts)

text \<open>
  One call: the new state is well formed, its last id is the one returned, and it
  is greater than the one before.
\<close>

lemma Next_step:
  assumes "wf_idgen g" and "Next g (now # clock) = Some (i, g', rest)"
    and "\<forall>r\<in>set (now # clock). reading_ok r" and "absorbs g now"
  shows "wf_idgen g' \<and> g_shard g' = g_shard g \<and> i = last_id g' \<and> sint (last_id g) < sint i
    \<and> set rest \<subseteq> set clock \<and> sint (g_lastMs g) \<le> sint (g_lastMs g')"
proof -
  let ?ms = "now - idEpochMs"
  have g: "id_fields_ok (g_lastMs g) (g_shard g) (g_seq g)" using assms(1) by (simp add: wf_idgen_def)
  then have seq1: "sint (g_seq g + 1) = sint (g_seq g) + 1"
    by (intro sint_Suc_seq) (auto simp: id_fields_ok_def id_consts)
  have g': "g_shard g' = g_shard g" "i = last_id g'" "set rest \<subseteq> set clock"
    and new: "(sint (g_lastMs g) < sint (g_lastMs g') \<and> sint (g_lastMs g') < 2 ^ 41 \<and> g_seq g' = 0)
       \<or> (g_lastMs g' = g_lastMs g \<and> g_seq g' = g_seq g + 1 \<and> sint (g_seq g) < sint maxSeq)"
    using assms(2,3,4) g seq1
    by (auto simp: Next_def Let_def absorbs_def reading_ok_def id_fields_ok_def last_id_def
        split: if_splits dest: wait_clock_Some signed_word_eqI)
  have g'_ok: "id_fields_ok (g_lastMs g') (g_shard g') (g_seq g')"
    using new g seq1 g'(1) by (auto simp: id_fields_ok_def id_consts)
  moreover have "sint (last_id g) < sint i"
    unfolding last_id_def g'(1,2)
    by (rule make_id_mono [OF g]) (use new seq1 g'_ok g'(1) in auto)
  ultimately show ?thesis using g' new by (auto simp: wf_idgen_def)
qed

text \<open>Every branch of \<open>Next\<close> returns once the clock shows a later millisecond.\<close>

lemma wait_clock_returns:
  "r \<in> set clock \<Longrightarrow> sint lastMs < sint (r - idEpochMs) \<Longrightarrow> \<exists>ms' rest. wait_clock lastMs ms clock = Some (ms', rest)"
proof (induction lastMs ms clock rule: wait_clock.induct)
  case (1 lastMs ms clock)
  show ?case
  proof (cases "sint ms \<le> sint lastMs")
    case True
    then obtain now rest where clock: "clock = now # rest" using "1.prems" by (cases clock) auto
    show ?thesis
    proof (cases "r \<in> set rest")
      case True
      with "1.IH" [OF \<open>sint ms \<le> sint lastMs\<close> clock] "1.prems"(2) clock \<open>sint ms \<le> sint lastMs\<close>
      show ?thesis by (subst wait_clock.simps) auto
    next
      case False
      then have "r = now" using "1.prems"(1) clock by simp
      with "1.prems"(2) clock show ?thesis
        by (subst wait_clock.simps, simp, subst wait_clock.simps) auto
    qed
  qed (subst wait_clock.simps, simp)
qed

section \<open>A run of calls\<close>

text \<open>A clock that never steps backwards, and is not behind the generator.\<close>

definition clock_forward :: "idgen \<Rightarrow> i64 list \<Rightarrow> bool" where
  "clock_forward g clock \<longleftrightarrow>
     sorted (map (\<lambda>r. sint (r - idEpochMs)) clock) \<and>
     (\<forall>r\<in>set clock. sint (g_lastMs g) \<le> sint (r - idEpochMs))"

lemma wait_clock_forward:
  "wait_clock lastMs ms clock = Some (ms', rest) \<Longrightarrow>
   sorted (map (\<lambda>r. sint (r - idEpochMs)) clock) \<Longrightarrow> \<forall>r\<in>set clock. sint ms \<le> sint (r - idEpochMs) \<Longrightarrow>
   sorted (map (\<lambda>r. sint (r - idEpochMs)) rest) \<and> (\<forall>r\<in>set rest. sint ms' \<le> sint (r - idEpochMs))"
proof (induction lastMs ms clock rule: wait_clock.induct)
  case (1 lastMs ms clock)
  from "1.prems" show ?case
    by (subst (asm) wait_clock.simps) (auto split: if_splits list.splits dest!: "1.IH")
qed

lemma Next_clock_forward:
  assumes "clock_forward g (now # clock)" and "Next g (now # clock) = Some (i, g', rest)"
  shows "clock_forward g' rest"
proof -
  have "sorted (map (\<lambda>r. sint (r - idEpochMs)) clock)"
    and "\<forall>r\<in>set clock. sint (now - idEpochMs) \<le> sint (r - idEpochMs)"
    using assms(1) by (auto simp: clock_forward_def)
  with assms show ?thesis
    by (auto simp: clock_forward_def Next_def Let_def split: if_splits dest: wait_clock_forward)
qed

lemma Next_seq:
  assumes "wf_idgen g" and "Next g (now # clock) = Some (i, g', rest)"
  shows "sint (g_seq g') \<le> sint (g_seq g) + 1"
proof -
  have "sint (g_seq g + 1) = sint (g_seq g) + 1"
    using assms(1) by (intro sint_Suc_seq) (auto simp: wf_idgen_def id_fields_ok_def id_consts)
  with assms show ?thesis
    by (auto simp: Next_def Let_def wf_idgen_def id_fields_ok_def split: if_splits)
qed

text \<open>When a run of \<open>n\<close> calls can never push the sequence past its 12 bits.\<close>

definition run_safe :: "nat \<Rightarrow> idgen \<Rightarrow> i64 list \<Rightarrow> bool" where
  "run_safe n g clock \<longleftrightarrow> clock_forward g clock \<or> sint (g_seq g) + int n \<le> sint maxSeq"

lemma Next_n_run:
  assumes "wf_idgen g" and "\<forall>r\<in>set clock. reading_ok r" and "run_safe n g clock"
    and "Next_n n g clock = Some (is, g', rest)"
  shows "length is = n \<and> sorted_wrt (<) (map sint (last_id g # is))
    \<and> (\<forall>i\<in>set is. fst (snd (DecodeID i)) = g_shard g)"
  using assms
proof (induction n arbitrary: g clock "is")
  case (Suc n)
  then obtain i g1 rest1 is1 where nx: "Next g clock = Some (i, g1, rest1)"
    and run: "Next_n n g1 rest1 = Some (is1, g', rest)" and "is": "is = i # is1"
    by (auto split: option.splits)
  then obtain now clock1 where clock: "clock = now # clock1" by (cases clock) (auto simp: Next_def)
  have abs: "absorbs g now"
    using Suc.prems(3) by (auto simp: run_safe_def absorbs_def clock_forward_def clock)
  have step: "wf_idgen g1 \<and> g_shard g1 = g_shard g \<and> i = last_id g1 \<and> sint (last_id g) < sint i
      \<and> set rest1 \<subseteq> set clock1"
    using Next_step [of g now clock1 i g1 rest1] Suc.prems(1,2) nx abs clock by blast
  have "run_safe n g1 rest1"
    using Suc.prems(3) Next_clock_forward [of g now clock1 i g1 rest1]
      Next_seq [OF Suc.prems(1), of now clock1 i g1 rest1] nx clock
    by (auto simp: run_safe_def)
  then have IH: "length is1 = n \<and> sorted_wrt (<) (map sint (last_id g1 # is1))
      \<and> (\<forall>i\<in>set is1. fst (snd (DecodeID i)) = g_shard g1)"
    using Suc.IH [of g1 rest1 is1] step Suc.prems(2) run clock by auto
  have "fst (snd (DecodeID i)) = g_shard g"
    using step DecodeID_make_id by (auto simp: wf_idgen_def last_id_def)
  with IH step show ?case by (auto simp: "is")
qed simp

section \<open>Past the ceiling: a clock that stepped back\<close>

text \<open>
  In the branch for a clock that went backwards the sequence has no ceiling.  Past
  4095 it reaches bit 12, the lowest bit of the shard field.
\<close>

lemma make_id_overflow:
  assumes "0 \<le> shard"
  shows "make_id ms shard 4096 = (if even shard then make_id ms (shard + 1) 0 else make_id ms shard 0)"
proof -
  have "(4096 :: i64) = push_bit 12 (word_of_int 1)" by simp
  then have "push_bit 12 (word_of_int shard) OR (4096 :: i64)
      = push_bit 12 (word_of_int (shard OR 1))"
    by (simp only: flip: push_bit_or of_int_or_eq)
  then show ?thesis
    by (simp add: make_id_def id_consts or.assoc or_one_eq)
qed

lemma Next_behind:
  assumes "sint (now - idEpochMs) < sint (g_lastMs g)"
  shows "Next g (now # clock) =
    Some (make_id (g_lastMs g) (g_shard g) (g_seq g + 1), g\<lparr>g_seq := g_seq g + 1\<rparr>, clock)"
  using assms by (auto simp: Next_def Let_def)

section \<open>Properties\<close>

text \<open>C19: Ids issued by one generator are strictly increasing, greater than every id issued
  before, and all decode to the generator's shard, for any number of calls, as long as the
  clock stays inside 41 bits and either never steps back or fewer calls are made than
  sequence numbers are left.\<close>

theorem ids_increasing:
  assumes "wf_idgen g" and "\<forall>r\<in>set clock. reading_ok r" and "run_safe n g clock"
    and "Next_n n g clock = Some (is, g', rest)"
  shows "length is = n \<and> sorted_wrt (<) (map sint (last_id g # is)) \<and> distinct is
    \<and> (\<forall>i\<in>set is. fst (snd (DecodeID i)) = g_shard g)"
proof -
  note run = Next_n_run [OF assms]
  then have "distinct (map sint is)" by (simp add: strict_sorted_iff)
  with run show ?thesis by (simp add: distinct_map)
qed

lemma ids_increasing_witness:
  "let g = \<lparr>g_shard = 3, g_lastMs = 0, g_seq = 4094\<rparr>;
       clock = [1704067200000, 1704067200000, 1704067200001, 1704067200001];
       is = [16383, 4206592, 4206593]
   in Next_n 3 g clock = Some (is, \<lparr>g_shard = 3, g_lastMs = 1, g_seq = 1\<rparr>, [])
      \<and> distinct is \<and> (\<forall>i\<in>set is. fst (snd (DecodeID i)) = 3)"
proof -
  let ?g = "\<lparr>g_shard = 3, g_lastMs = 0, g_seq = 4094\<rparr>"
  let ?c = "[1704067200000, 1704067200000, 1704067200001, 1704067200001] :: i64 list"
  let ?is = "[16383, 4206592, 4206593] :: i64 list"
  have run: "Next_n 3 ?g ?c = Some (?is, \<lparr>g_shard = 3, g_lastMs = 1, g_seq = 1\<rparr>, [])"
    by code_simp
  have "wf_idgen ?g" and "\<forall>r\<in>set ?c. reading_ok r" and "run_safe 3 ?g ?c"
    by (simp_all add: wf_idgen_def id_fields_ok_def id_consts reading_ok_def run_safe_def
        clock_forward_def idEpochMs_def)
  from ids_increasing [OF this run] run show ?thesis by simp
qed



text \<open>Generators of different shards never issue the same id, whatever their clocks do
  within the same bounds.\<close>

theorem ids_of_shards_disjoint:
  assumes "wf_idgen g" "\<forall>r\<in>set clock. reading_ok r" "run_safe n g clock"
    and "Next_n n g clock = Some (is, g', rest)"
    and "wf_idgen h" "\<forall>r\<in>set clock2. reading_ok r" "run_safe m h clock2"
    and "Next_n m h clock2 = Some (js, h', rest2)"
    and "g_shard g \<noteq> g_shard h"
  shows "set is \<inter> set js = {}"
  using Next_n_run [OF assms(1-4)] Next_n_run [OF assms(5-8)] assms(9) by fastforce

lemma ids_of_shards_disjoint_witness:
  "set [4194304 :: i64, 4194305] \<inter> set [4198400, 4198401] = {}
   \<and> Next_n 2 \<lparr>g_shard = 0, g_lastMs = 0, g_seq = 0\<rparr> [1704067200001, 1704067200001]
     = Some ([4194304, 4194305], \<lparr>g_shard = 0, g_lastMs = 1, g_seq = 1\<rparr>, [])"
proof -
  let ?c = "[1704067200001, 1704067200001] :: i64 list"
  have run: "Next_n 2 \<lparr>g_shard = 0, g_lastMs = 0, g_seq = 0\<rparr> ?c
      = Some ([4194304, 4194305], \<lparr>g_shard = 0, g_lastMs = 1, g_seq = 1\<rparr>, [])"
    "Next_n 2 \<lparr>g_shard = 1, g_lastMs = 0, g_seq = 0\<rparr> ?c
      = Some ([4198400, 4198401], \<lparr>g_shard = 1, g_lastMs = 1, g_seq = 1\<rparr>, [])"
    by code_simp+
  have g: "wf_idgen \<lparr>g_shard = s, g_lastMs = 0, g_seq = 0\<rparr>"
      "run_safe 2 \<lparr>g_shard = s, g_lastMs = 0, g_seq = 0\<rparr> ?c" if "s \<in> {0, 1}" for s
    using that by (auto simp: wf_idgen_def id_fields_ok_def id_consts run_safe_def)
  have c: "\<forall>r\<in>set ?c. reading_ok r" by (simp add: reading_ok_def idEpochMs_def)
  show ?thesis
    using ids_of_shards_disjoint [OF g(1) c g(2) run(1) g(1) c g(2) run(2)] run(1) by simp
qed

text \<open>C21: The generator never gives up: \<open>NewIDGen\<close> accepts exactly the shards that fit
  in 10 bits, and a call of \<open>Next\<close> returns an id as soon as the clock shows a
  millisecond later than the last one used.\<close>

theorem Next_returns:
  "(case NewIDGen shard of Inl e \<Rightarrow> e = ShardOutOfRange shard \<and> (shard < 0 \<or> 1023 < shard)
      | Inr g \<Rightarrow> wf_idgen g \<and> g_shard g = shard \<and> 0 \<le> shard \<and> shard \<le> 1023)
   \<and> (r \<in> set clock \<longrightarrow> sint (g_lastMs g) < sint (r - idEpochMs)
      \<longrightarrow> (\<exists>i g' rest. Next g clock = Some (i, g', rest)))"
proof (intro conjI impI)
  show "case NewIDGen shard of Inl e \<Rightarrow> e = ShardOutOfRange shard \<and> (shard < 0 \<or> 1023 < shard)
      | Inr g \<Rightarrow> wf_idgen g \<and> g_shard g = shard \<and> 0 \<le> shard \<and> shard \<le> 1023"
    by (auto simp: NewIDGen_def wf_idgen_def id_fields_ok_def id_consts)
next
  assume r: "r \<in> set clock" "sint (g_lastMs g) < sint (r - idEpochMs)"
  then obtain now rest where clock: "clock = now # rest" by (cases clock) auto
  show "\<exists>i g' rest. Next g clock = Some (i, g', rest)"
  proof (cases "now - idEpochMs = g_lastMs g")
    case True
    with r clock have "r \<in> set rest" by auto
    from wait_clock_returns [OF this r(2), of "now - idEpochMs"] clock show ?thesis
      by (auto simp: Next_def Let_def)
  qed (auto simp: clock Next_def Let_def)
qed

lemma Next_returns_witness:
  "\<exists>i g' rest. Next \<lparr>g_shard = 1, g_lastMs = 0, g_seq = 4095\<rparr> [1704067200000, 1704067200000, 1704067200002]
     = Some (i, g', rest)"
  using Next_returns [of 0 1704067200002 "[1704067200000, 1704067200000, 1704067200002]"
      "\<lparr>g_shard = 1, g_lastMs = 0, g_seq = 4095\<rparr>"]
  by (simp add: idEpochMs_def)

text \<open>C22: A known limit of the generator: once a backward clock step has used up the 4096
  sequence numbers of the pinned millisecond, the next id is not new.  For an even shard it
  is the first id of shard \<open>shard + 1\<close> in that millisecond; for an odd shard it is the
  generator's own first id of that millisecond, issued again.\<close>

theorem skewed_id_collides:
  assumes "0 \<le> g_shard g" and "g_seq g = maxSeq"
    and "sint (now - idEpochMs) < sint (g_lastMs g)"
  shows "Next g (now # clock) =
    Some (if even (g_shard g) then make_id (g_lastMs g) (g_shard g + 1) 0
          else make_id (g_lastMs g) (g_shard g) 0, g\<lparr>g_seq := 4096\<rparr>, clock)"
  using assms by (simp add: Next_behind make_id_overflow maxSeq_def)

lemma skewed_id_collides_witness:
  "Next \<lparr>g_shard = 7, g_lastMs = 5, g_seq = maxSeq\<rparr> [1704067200000]
   = Some (make_id 5 7 0, \<lparr>g_shard = 7, g_lastMs = 5, g_seq = 4096\<rparr>, [])"
  using skewed_id_collides [of "\<lparr>g_shard = 7, g_lastMs = 5, g_seq = maxSeq\<rparr>" 1704067200000 "[]"]
  by (simp add: idEpochMs_def)

end
