(* ===== verification/Strconv.thy ===== *)
theory Strconv
  imports Prelude
begin

text \<open>
  What the code uses of Go's \<open>fmt\<close>, \<open>strconv\<close>, \<open>strings\<close> and
  \<open>encoding/base64\<close>: \<open>%d\<close> formatting, \<open>ParseInt(s, 10, 64)\<close>,
  \<open>SplitN(s, sep, 2)\<close> for a one-byte separator, and the raw URL-safe base64 coding.  A
  Go string is a list of bytes, here of \<open>char\<close>.
\<close>

section \<open>Decimal formatting\<close>

definition digit_char :: "nat \<Rightarrow> char" where
  "digit_char d = char_of (48 + d)"

fun fmt_nat :: "nat \<Rightarrow> string" where
  "fmt_nat n = (if n < 10 then [digit_char n] else fmt_nat (n div 10) @ [digit_char (n mod 10)])"

declare fmt_nat.simps [simp del]

definition fmt_d :: "int \<Rightarrow> string" where
  "fmt_d i = (if i < 0 then CHR ''-'' # fmt_nat (nat (- i)) else fmt_nat (nat i))"

section \<open>ParseInt\<close>

datatype num_error = ErrSyntax | ErrRange

definition digit_val :: "char \<Rightarrow> nat option" where
  "digit_val c = (let n = of_char c in if 48 \<le> n \<and> n \<le> 57 then Some (n - 48) else None)"

definition max_uint64 :: nat where "max_uint64 = 18446744073709551615"
definition uint_cutoff :: nat where "uint_cutoff = max_uint64 div 10 + 1"

fun parse_uint_loop :: "nat \<Rightarrow> string \<Rightarrow> num_error + nat" where
  "parse_uint_loop n [] = Inr n"
| "parse_uint_loop n (c # cs) =
     (case digit_val c of
        None \<Rightarrow> Inl ErrSyntax
      | Some d \<Rightarrow>
          if n \<ge> uint_cutoff then Inl ErrRange
          else let n1 = n * 10 + d in
            if n1 > max_uint64 then Inl ErrRange else parse_uint_loop n1 cs)"

definition ParseUint :: "string \<Rightarrow> num_error + nat" where
  "ParseUint s = (if s = [] then Inl ErrSyntax else parse_uint_loop 0 s)"

definition ParseInt :: "string \<Rightarrow> num_error + int" where
  "ParseInt s =
     (if s = [] then Inl ErrSyntax
      else let neg = (hd s = CHR ''-'');
               s' = (if hd s = CHR ''+'' \<or> hd s = CHR ''-'' then tl s else s)
        in case ParseUint s' of
             Inl e \<Rightarrow> Inl e
           | Inr un \<Rightarrow>
               if \<not> neg \<and> un \<ge> 2 ^ 63 then Inl ErrRange
               else if neg \<and> un > 2 ^ 63 then Inl ErrRange
               else Inr (if neg then - int un else int un))"

lemma digit_val_digit_char [simp]: "d < 10 \<Longrightarrow> digit_val (digit_char d) = Some d"
  by (simp add: digit_val_def digit_char_def Let_def)

lemma fmt_nat_not_Nil [simp]: "fmt_nat n \<noteq> []"
  by (subst fmt_nat.simps) simp

lemma fmt_nat_digits: "c \<in> set (fmt_nat n) \<Longrightarrow> \<exists>d<10. c = digit_char d"
proof (induction n rule: fmt_nat.induct)
  case (1 n)
  then show ?case
    by (subst (asm) (2) fmt_nat.simps) (auto split: if_splits intro: exI [of _ "n mod 10"])
qed

lemma digit_char_noteq [simp]: "d < 10 \<Longrightarrow> digit_char d \<noteq> CHR ''-''" "d < 10 \<Longrightarrow> digit_char d \<noteq> CHR ''+''"
    "d < 10 \<Longrightarrow> digit_char d \<noteq> CHR '':''"
  using digit_val_digit_char [of d] by (auto simp: digit_val_def Let_def split: if_splits)

text \<open>Reading back a printed number continues the accumulator.\<close>

lemma parse_uint_loop_append:
  "parse_uint_loop n (xs @ ys) =
     (case parse_uint_loop n xs of Inl e \<Rightarrow> Inl e | Inr m \<Rightarrow> parse_uint_loop m ys)"
  by (induction n xs rule: parse_uint_loop.induct) (auto simp: Let_def split: option.splits)

lemma parse_uint_loop_fmt_nat:
  "n \<le> max_uint64 \<Longrightarrow> parse_uint_loop 0 (fmt_nat n) = Inr n"
proof (induction n rule: fmt_nat.induct)
  case (1 n)
  show ?case
  proof (cases "n < 10")
    case True
    then show ?thesis
      by (subst fmt_nat.simps) (simp add: uint_cutoff_def max_uint64_def)
  next
    case False
    have "n div 10 \<le> max_uint64" using "1.prems" by simp
    then have IH: "parse_uint_loop 0 (fmt_nat (n div 10)) = Inr (n div 10)" using "1.IH" False by blast
    have "n div 10 < uint_cutoff" using "1.prems" by (simp add: uint_cutoff_def div_le_mono le_imp_less_Suc)
    moreover have "n div 10 * 10 + n mod 10 = n" by simp
    ultimately show ?thesis
      using "1.prems" False IH
      by (subst fmt_nat.simps) (simp add: parse_uint_loop_append Let_def)
  qed
qed

lemma ParseInt_fmt_d:
  assumes "- (2 ^ 63) \<le> i" and "i < 2 ^ 63"
  shows "ParseInt (fmt_d i) = Inr i"
proof -
  have parse: "ParseUint (fmt_nat n) = Inr n" if "n \<le> 2 ^ 63" for n
    using that parse_uint_loop_fmt_nat [of n] by (simp add: ParseUint_def max_uint64_def)
  have hd: "\<exists>d<10. hd (fmt_nat n) = digit_char d" for n
    by (rule fmt_nat_digits, rule hd_in_set) simp
  show ?thesis
  proof (cases "i < 0")
    case True
    with assms parse [of "nat (- i)"] show ?thesis
      by (auto simp: ParseInt_def fmt_d_def Let_def)
  next
    case False
    obtain d where d: "d < 10" "hd (fmt_nat (nat i)) = digit_char d" using hd by blast
    with digit_char_noteq [of d] have "hd (fmt_nat (nat i)) \<noteq> CHR ''-''" "hd (fmt_nat (nat i)) \<noteq> CHR ''+''"
      by simp_all
    with False assms parse [of "nat i"] show ?thesis
      by (simp add: ParseInt_def fmt_d_def nat_less_iff)
  qed
qed

lemma fmt_nat_no_colon: "CHR '':'' \<notin> set (fmt_nat n)"
proof
  assume "CHR '':'' \<in> set (fmt_nat n)"
  then obtain d where "d < 10" "CHR '':'' = digit_char d" by (blast dest: fmt_nat_digits)
  then show False using digit_char_noteq(3) [of d] by simp
qed

lemma fmt_d_no_colon: "CHR '':'' \<notin> set (fmt_d i)"
  by (simp add: fmt_d_def fmt_nat_no_colon)

lemma fmt_d_not_Nil [simp]: "fmt_d i \<noteq> []"
  by (simp add: fmt_d_def)

section \<open>SplitN\<close>

text \<open>\<open>strings.SplitN(s, sep, 2)\<close>: cut at the first separator.\<close>

definition SplitN2 :: "string \<Rightarrow> char \<Rightarrow> string list" where
  "SplitN2 s c =
     (if c \<in> set s then [takeWhile (\<lambda>x. x \<noteq> c) s, tl (dropWhile (\<lambda>x. x \<noteq> c) s)] else [s])"

lemma SplitN2_append: "c \<notin> set xs \<Longrightarrow> SplitN2 (xs @ c # ys) c = [xs, ys]"
  by (induction xs) (auto simp: SplitN2_def)

section \<open>Raw URL base64\<close>

definition b64_alphabet :: string where
  "b64_alphabet = ''ABCDEFGHIJKLMNOPQRSTUVWXYZabcdefghijklmnopqrstuvwxyz0123456789-_''"

definition b64_char :: "nat \<Rightarrow> char" where
  "b64_char n = b64_alphabet ! n"

definition b64_val :: "char \<Rightarrow> nat option" where
  "b64_val c = map_of (zip b64_alphabet [0..<64]) c"

fun b64_sextets :: "nat list \<Rightarrow> nat list" where
  "b64_sextets [] = []"
| "b64_sextets [a] = [a div 4, a mod 4 * 16]"
| "b64_sextets [a, b] = [a div 4, a mod 4 * 16 + b div 16, b mod 16 * 4]"
| "b64_sextets (a # b # c # bs) =
     [a div 4, a mod 4 * 16 + b div 16, b mod 16 * 4 + c div 64, c mod 64] @ b64_sextets bs"

definition b64_EncodeToString :: "string \<Rightarrow> string" where
  "b64_EncodeToString s = map b64_char (b64_sextets (map of_char s))"

text \<open>
  Decoding skips carriage returns and newlines, rejects every other byte outside the alphabet
  and a last group of one character, and ignores the unused low bits of the last group.
\<close>

fun b64_octets :: "nat list \<Rightarrow> nat list option" where
  "b64_octets [] = Some []"
| "b64_octets [a] = None"
| "b64_octets [a, b] = Some [a * 4 + b div 16]"
| "b64_octets [a, b, c] = Some [a * 4 + b div 16, b mod 16 * 16 + c div 4]"
| "b64_octets (a # b # c # d # ss) =
     map_option (\<lambda>os. [a * 4 + b div 16, b mod 16 * 16 + c div 4, c mod 4 * 64 + d] @ os) (b64_octets ss)"

definition b64_DecodeString :: "string \<Rightarrow> string option" where
  "b64_DecodeString s =
     (let vals = map b64_val (filter (\<lambda>c. of_char c \<noteq> (10 :: nat) \<and> of_char c \<noteq> (13 :: nat)) s) in
      if None \<in> set vals then None
      else map_option (map char_of) (b64_octets (map the vals)))"

lemma b64_char_table:
  "list_all (\<lambda>n. b64_val (b64_char n) = Some n \<and> of_char (b64_char n) \<noteq> (10 :: nat)
     \<and> of_char (b64_char n) \<noteq> (13 :: nat)) [0..<64]"
  by code_simp

lemma b64_val_char: "n < 64 \<Longrightarrow> b64_val (b64_char n) = Some n"
  and b64_char_visible: "n < 64 \<Longrightarrow> of_char (b64_char n) \<noteq> (10 :: nat) \<and> of_char (b64_char n) \<noteq> (13 :: nat)"
  using b64_char_table by (simp_all add: list_all_iff)

lemma sextet_bounds:
  fixes a b c :: nat
  shows "a < 256 \<Longrightarrow> a div 4 < 64"
    and "a mod 4 * 16 < 64" and "b mod 16 * 4 < 64" and "c mod 64 < 64"
    and "b < 256 \<Longrightarrow> a mod 4 * 16 + b div 16 < 64"
    and "c < 256 \<Longrightarrow> b mod 16 * 4 + c div 64 < 64"
proof -
  have "a mod 4 < 4" "b mod 16 < 16" by simp_all
  then show "a mod 4 * 16 < 64" "b mod 16 * 4 < 64" by linarith+
  show "a < 256 \<Longrightarrow> a div 4 < 64" "c mod 64 < 64" by simp_all
  assume "b < 256"
  then have "b div 16 < 16" by simp
  then show "a mod 4 * 16 + b div 16 < 64" using \<open>a mod 4 < 4\<close> by linarith
next
  have "b mod 16 < 16" by simp
  assume "c < 256"
  then have "c div 64 < 4" by simp
  then show "b mod 16 * 4 + c div 64 < 64" using \<open>b mod 16 < 16\<close> by linarith
qed

lemma b64_sextets_small: "\<forall>b\<in>set bs. b < 256 \<Longrightarrow> \<forall>s\<in>set (b64_sextets bs). s < 64"
  by (induction bs rule: b64_sextets.induct) (simp_all add: sextet_bounds)

lemma octets_of_sextets:
  fixes a b c :: nat
  shows "b < 256 \<Longrightarrow> (a mod 4 * 16 + b div 16) div 16 = a mod 4"
    and "b < 256 \<Longrightarrow> (a mod 4 * 16 + b div 16) mod 16 = b div 16"
    and "c < 256 \<Longrightarrow> (b mod 16 * 4 + c div 64) div 4 = b mod 16"
    and "c < 256 \<Longrightarrow> (b mod 16 * 4 + c div 64) mod 4 = c div 64"
    and "(a mod 4 * 16) div 16 = a mod 4" and "(b mod 16 * 4) div 4 = b mod 16"
  by simp_all

lemma b64_octets_sextets: "\<forall>b\<in>set bs. b < 256 \<Longrightarrow> b64_octets (b64_sextets bs) = Some bs"
proof (induction bs rule: b64_sextets.induct)
  case (1)
  show ?case by simp
next
  case (2 a)
  show ?case by (simp add: octets_of_sextets del: mod_mult_self4)
next
  case (3 a b)
  then have "b < 256" by simp
  then show ?case
    by (simp only: b64_sextets.simps b64_octets.simps octets_of_sextets div_mult_mod_eq option.inject list.inject simp_thms)
next
  case (4 a b c bs)
  then have "b64_octets (b64_sextets bs) = Some bs" and "b < 256" "c < 256" by simp_all
  then show ?case by (simp add: octets_of_sextets)
qed

lemma b64_roundtrip: "b64_DecodeString (b64_EncodeToString s) = Some s"
proof -
  let ?bs = "map of_char s :: nat list" and ?ss = "b64_sextets (map of_char s)"
  have bs: "\<forall>b\<in>set ?bs. b < 256" by simp
  note small = b64_sextets_small [OF bs]
  have "filter (\<lambda>c. of_char c \<noteq> (10 :: nat) \<and> of_char c \<noteq> (13 :: nat)) (map b64_char ?ss) = map b64_char ?ss"
    using small b64_char_visible by (auto simp: filter_id_conv)
  moreover have "map b64_val (map b64_char ?ss) = map Some ?ss"
    using small by (simp add: b64_val_char)
  moreover have "None \<notin> set (map Some ?ss)" "map the (map Some ?ss) = ?ss"
    by (auto simp: comp_def)
  ultimately show ?thesis
    using b64_octets_sextets [OF bs]
    by (simp only: b64_DecodeString_def b64_EncodeToString_def Let_def if_False map_map
        option.map comp_def char_of_char list.map_ident)
qed

end
