(* ===== verification/Flags.thy ===== *)
theory Flags
  imports Strconv "HOL-Library.AList"
begin

text \<open>
  The flags of the commands in \<open>src/cmd/shardctl/main.go\<close>, with what they use of Go's \<open>flag\<close> and
  \<open>strconv\<close>: a \<open>FlagSet\<close> with \<open>flag.ExitOnError\<close>, whose \<open>Parse\<close> ends the process with status 2 at
  a bad argument and with status 0 at a call for help.
\<close>

section \<open>Integers in any base\<close>

text \<open>\<open>ParseUint(s, 0, 64)\<close>: the base comes from a prefix, and underscores may separate digits.\<close>

definition lower_case :: "char \<Rightarrow> nat" where
  "lower_case c = (let n = of_char c in if 65 \<le> n \<and> n \<le> 90 then n + 32 else n)"

definition digit36 :: "char \<Rightarrow> nat option" where
  "digit36 c =
     (case digit_val c of
        Some d \<Rightarrow> Some d
      | None \<Rightarrow> if 97 \<le> lower_case c \<and> lower_case c \<le> 122 then Some (lower_case c - 97 + 10) else None)"

definition base_prefix :: "string \<Rightarrow> nat \<times> string" where
  "base_prefix s =
     (if hd s \<noteq> CHR ''0'' then (10, s)
      else if length s \<ge> 3 \<and> lower_case (s ! 1) = 98 then (2, drop 2 s)
      else if length s \<ge> 3 \<and> lower_case (s ! 1) = 111 then (8, drop 2 s)
      else if length s \<ge> 3 \<and> lower_case (s ! 1) = 120 then (16, drop 2 s)
      else (8, tl s))"

fun digits_loop :: "nat \<Rightarrow> nat \<Rightarrow> string \<Rightarrow> num_error + nat" where
  "digits_loop base n [] = Inr n"
| "digits_loop base n (c # cs) =
     (if c = CHR ''_'' then digits_loop base n cs
      else case digit36 c of
        None \<Rightarrow> Inl ErrSyntax
      | Some d \<Rightarrow>
          if d \<ge> base then Inl ErrSyntax
          else if n \<ge> max_uint64 div base + 1 then Inl ErrRange
          else let n1 = n * base + d in
            if n1 > max_uint64 then Inl ErrRange else digits_loop base n1 cs)"

fun underscore_loop :: "bool \<Rightarrow> char \<Rightarrow> string \<Rightarrow> bool" where
  "underscore_loop hex i [] = (i \<noteq> CHR ''_'')"
| "underscore_loop hex i (c # cs) =
     (if digit_val c \<noteq> None \<or> (hex \<and> 97 \<le> lower_case c \<and> lower_case c \<le> 102) then underscore_loop hex (CHR ''0'') cs
      else if c = CHR ''_'' then i = CHR ''0'' \<and> underscore_loop hex (CHR ''_'') cs
      else i \<noteq> CHR ''_'' \<and> underscore_loop hex (CHR ''!'') cs)"

definition underscoreOK :: "string \<Rightarrow> bool" where
  "underscoreOK s =
     (let s1 = (if s \<noteq> [] \<and> (hd s = CHR ''-'' \<or> hd s = CHR ''+'') then tl s else s) in
      if length s1 \<ge> 2 \<and> hd s1 = CHR ''0'' \<and> lower_case (s1 ! 1) \<in> {98, 111, 120}
      then underscore_loop (lower_case (s1 ! 1) = 120) (CHR ''0'') (drop 2 s1)
      else underscore_loop False (CHR ''^'') s1)"

definition ParseUint0 :: "string \<Rightarrow> num_error + nat" where
  "ParseUint0 s =
     (if s = [] then Inl ErrSyntax
      else case base_prefix s of (base, ds) \<Rightarrow>
        (case digits_loop base 0 ds of
           Inl e \<Rightarrow> Inl e
         | Inr n \<Rightarrow> if CHR ''_'' \<in> set ds \<and> \<not> underscoreOK s then Inl ErrSyntax else Inr n))"

definition ParseInt0 :: "string \<Rightarrow> num_error + int" where
  "ParseInt0 s =
     (if s = [] then Inl ErrSyntax
      else let neg = (hd s = CHR ''-'');
               s' = (if hd s = CHR ''+'' \<or> hd s = CHR ''-'' then tl s else s)
        in case ParseUint0 s' of
             Inl e \<Rightarrow> Inl e
           | Inr un \<Rightarrow>
               if \<not> neg \<and> un \<ge> 2 ^ 63 then Inl ErrRange
               else if neg \<and> un > 2 ^ 63 then Inl ErrRange
               else Inr (if neg then - int un else int un))"

definition ParseBool :: "string \<Rightarrow> bool option" where
  "ParseBool s =
     (if s \<in> {''1'', ''t'', ''T'', ''true'', ''TRUE'', ''True''} then Some True
      else if s \<in> {''0'', ''f'', ''F'', ''false'', ''FALSE'', ''False''} then Some False
      else None)"

section \<open>Flag sets\<close>

datatype flag_value = FInt int | FInt64 int | FUint64 nat | FBool bool

text \<open>The flags that are defined, with their values: at first the defaults.\<close>

type_synonym flag_set = "(string \<times> flag_value) list"

definition IsBoolFlag :: "flag_value \<Rightarrow> bool" where
  "IsBoolFlag v = (case v of FBool b \<Rightarrow> True | _ \<Rightarrow> False)"

definition Set_flag :: "flag_value \<Rightarrow> string \<Rightarrow> flag_value option" where
  "Set_flag v s =
     (case v of
        FInt _ \<Rightarrow> (case ParseInt0 s of Inr n \<Rightarrow> Some (FInt n) | Inl _ \<Rightarrow> None)
      | FInt64 _ \<Rightarrow> (case ParseInt0 s of Inr n \<Rightarrow> Some (FInt64 n) | Inl _ \<Rightarrow> None)
      | FUint64 _ \<Rightarrow> (case ParseUint0 s of Inr n \<Rightarrow> Some (FUint64 n) | Inl _ \<Rightarrow> None)
      | FBool _ \<Rightarrow> map_option FBool (ParseBool s))"

text \<open>\<open>parseOne\<close>: it stops, ends the process, or has set one flag.\<close>

datatype parse_step = Stop | ExitWith int | Seen flag_set "string list"

definition put_flag :: "flag_set \<Rightarrow> string \<Rightarrow> flag_value \<Rightarrow> string \<Rightarrow> string list \<Rightarrow> parse_step" where
  "put_flag fs name v given rest =
     (case Set_flag v given of None \<Rightarrow> ExitWith 2 | Some v' \<Rightarrow> Seen (AList.update name v' fs) rest)"

definition parseOne :: "flag_set \<Rightarrow> string list \<Rightarrow> parse_step" where
  "parseOne fs args =
     (case args of
        [] \<Rightarrow> Stop
      | s # rest \<Rightarrow>
          if length s < 2 \<or> hd s \<noteq> CHR ''-'' then Stop
          else if s = ''--'' then Stop
          else let body = drop (if s ! 1 = CHR ''-'' then 2 else 1) s in
            if body = [] \<or> hd body = CHR ''-'' \<or> hd body = CHR ''='' then ExitWith 2
            else let name = takeWhile (\<lambda>c. c \<noteq> CHR ''='') body; has_arg = (CHR ''='' \<in> set body);
                     given = tl (dropWhile (\<lambda>c. c \<noteq> CHR ''='') body) in
              (case map_of fs name of
                 None \<Rightarrow> ExitWith (if name = ''help'' \<or> name = ''h'' then 0 else 2)
               | Some v \<Rightarrow>
                   if IsBoolFlag v then put_flag fs name v (if has_arg then given else ''true'') rest
                   else if has_arg then put_flag fs name v given rest
                   else (case rest of [] \<Rightarrow> ExitWith 2 | x # rest' \<Rightarrow> put_flag fs name v x rest')))"

lemma parseOne_shorter: "parseOne fs args = Seen fs' rest \<Longrightarrow> length rest < length args"
  by (auto simp: parseOne_def put_flag_def Let_def split: list.splits if_splits option.splits)

text \<open>\<open>fs.Parse(args)\<close>: the status it exits with, or the values it leaves.\<close>

function Parse :: "flag_set \<Rightarrow> string list \<Rightarrow> int + flag_set" where
  "Parse fs args =
     (case parseOne fs args of
        Stop \<Rightarrow> Inr fs
      | ExitWith code \<Rightarrow> Inl code
      | Seen fs' rest \<Rightarrow> Parse fs' rest)"
  by auto
termination by (relation "measure (\<lambda>(fs, args). length args)") (auto dest: parseOne_shorter)

declare Parse.simps [simp del]

definition int_flag :: "flag_set \<Rightarrow> string \<Rightarrow> int" where
  "int_flag fs name = (case map_of fs name of Some (FInt n) \<Rightarrow> n | Some (FInt64 n) \<Rightarrow> n | _ \<Rightarrow> 0)"

definition uint_flag :: "flag_set \<Rightarrow> string \<Rightarrow> nat" where
  "uint_flag fs name = (case map_of fs name of Some (FUint64 n) \<Rightarrow> n | _ \<Rightarrow> 0)"

definition bool_flag :: "flag_set \<Rightarrow> string \<Rightarrow> bool" where
  "bool_flag fs name = (case map_of fs name of Some (FBool b) \<Rightarrow> b | _ \<Rightarrow> False)"

section \<open>The flags of the commands\<close>

text \<open>For each command the flags it defines, and the values its code reads through the pointers.\<close>

definition exit_or :: "(flag_set \<Rightarrow> 'f) \<Rightarrow> int + flag_set \<Rightarrow> int + 'f" where
  "exit_or values r = (case r of Inl code \<Rightarrow> Inl code | Inr fs \<Rightarrow> Inr (values fs))"

definition topology_defaults :: flag_set where
  "topology_defaults = [(''sample'', FInt 100000)]"

definition topology_values :: "flag_set \<Rightarrow> int" where
  "topology_values fs = int_flag fs ''sample''"

definition topology_flags :: "string list \<Rightarrow> int + int" where
  "topology_flags args = exit_or topology_values (Parse topology_defaults args)"

definition seed_defaults :: flag_set where
  "seed_defaults = [(''tenants'', FInt 500), (''per-tenant'', FInt 40)]"

definition seed_values :: "flag_set \<Rightarrow> int \<times> int" where
  "seed_values fs = (int_flag fs ''tenants'', int_flag fs ''per-tenant'')"

definition seed_flags :: "string list \<Rightarrow> int + int \<times> int" where
  "seed_flags args = exit_or seed_values (Parse seed_defaults args)"

definition count_defaults :: flag_set where
  "count_defaults = [(''partial'', FBool False)]"

definition count_values :: "flag_set \<Rightarrow> bool" where
  "count_values fs = bool_flag fs ''partial''"

definition count_flags :: "string list \<Rightarrow> int + bool" where
  "count_flags args = exit_or count_values (Parse count_defaults args)"

definition page_defaults :: flag_set where
  "page_defaults = [(''pages'', FInt 3), (''limit'', FInt 10)]"

definition page_values :: "flag_set \<Rightarrow> int \<times> int" where
  "page_values fs = (int_flag fs ''pages'', int_flag fs ''limit'')"

definition page_flags :: "string list \<Rightarrow> int + int \<times> int" where
  "page_flags args = exit_or page_values (Parse page_defaults args)"

definition ids_defaults :: flag_set where
  "ids_defaults = [(''n'', FInt 5), (''shard'', FInt 3)]"

definition ids_values :: "flag_set \<Rightarrow> int \<times> int" where
  "ids_values fs = (int_flag fs ''n'', int_flag fs ''shard'')"

definition ids_flags :: "string list \<Rightarrow> int + int \<times> int" where
  "ids_flags args = exit_or ids_values (Parse ids_defaults args)"

record TransferFlags =
  fl_from :: u64
  fl_to :: u64
  fl_cents :: int
  fl_crash :: bool

definition transfer_defaults :: flag_set where
  "transfer_defaults = [(''from'', FUint64 1), (''to'', FUint64 2), (''cents'', FInt64 500), (''crash'', FBool False)]"

definition transfer_values :: "flag_set \<Rightarrow> TransferFlags" where
  "transfer_values fs = \<lparr>fl_from = of_nat (uint_flag fs ''from''), fl_to = of_nat (uint_flag fs ''to''),
     fl_cents = int_flag fs ''cents'', fl_crash = bool_flag fs ''crash''\<rparr>"

definition transfer_flags :: "string list \<Rightarrow> int + TransferFlags" where
  "transfer_flags args = exit_or transfer_values (Parse transfer_defaults args)"

definition orphans_defaults :: flag_set where
  "orphans_defaults = [(''resolve'', FBool False)]"

definition orphans_values :: "flag_set \<Rightarrow> bool" where
  "orphans_values fs = bool_flag fs ''resolve''"

definition orphans_flags :: "string list \<Rightarrow> int + bool" where
  "orphans_flags args = exit_or orphans_values (Parse orphans_defaults args)"

section \<open>Reading back printed numbers\<close>

lemma digits_loop_decimal:
  "\<forall>c\<in>set s. digit_val c \<noteq> None \<Longrightarrow> digits_loop 10 n s = parse_uint_loop n s"
proof (induction n s rule: parse_uint_loop.induct)
  case (2 n c cs)
  then obtain d where d: "digit_val c = Some d" by auto
  then have "d < 10" "c \<noteq> CHR ''_''" by (auto simp: digit_val_def Let_def split: if_splits)
  then show ?case using 2 d by (simp add: digit36_def uint_cutoff_def Let_def)
qed simp

lemma fmt_nat_digit_val: "\<forall>c\<in>set (fmt_nat n). digit_val c \<noteq> None"
  using fmt_nat_digits [of _ n] by fastforce

lemma zero_char: "char_of (48 :: nat) = CHR ''0''"
  by code_simp

lemma digit_char_zero: "d < 10 \<Longrightarrow> digit_char d = CHR ''0'' \<longleftrightarrow> d = 0"
proof
  assume d: "d < 10" "digit_char d = CHR ''0''"
  have "digit_val (CHR ''0'') = Some 0" by (simp add: digit_val_def)
  then show "d = 0" using digit_val_digit_char [OF d(1)] unfolding d(2) by simp
qed (simp add: digit_char_def zero_char)

lemma hd_fmt_nat_zero: "hd (fmt_nat n) = CHR ''0'' \<longleftrightarrow> n = 0"
proof (induction n rule: fmt_nat.induct)
  case (1 n)
  show ?case
  proof (cases "n < 10")
    case True
    then show ?thesis by (subst fmt_nat.simps) (simp add: digit_char_zero)
  next
    case False
    then show ?thesis using "1.IH" by (subst fmt_nat.simps) (simp add: div_eq_0_iff)
  qed
qed

lemma ParseUint0_fmt_nat:
  assumes "n \<le> max_uint64"
  shows "ParseUint0 (fmt_nat n) = Inr n"
proof (cases "n = 0")
  case True
  then show ?thesis by (simp add: ParseUint0_def fmt_nat.simps [of 0] base_prefix_def digit_char_def zero_char)
next
  case False
  then have "base_prefix (fmt_nat n) = (10, fmt_nat n)" by (simp add: base_prefix_def hd_fmt_nat_zero)
  moreover have "digits_loop 10 0 (fmt_nat n) = Inr n"
    using digits_loop_decimal [OF fmt_nat_digit_val] parse_uint_loop_fmt_nat [OF assms] by simp
  moreover have "CHR ''_'' \<notin> set (fmt_nat n)"
    using fmt_nat_digit_val [of n] by (auto simp: digit_val_def Let_def)
  ultimately show ?thesis by (simp add: ParseUint0_def)
qed

lemma ParseInt0_fmt_d:
  assumes "- (2 ^ 63) \<le> i" and "i < 2 ^ 63"
  shows "ParseInt0 (fmt_d i) = Inr i"
proof -
  have parse: "ParseUint0 (fmt_nat n) = Inr n" if "n \<le> 2 ^ 63" for n
    using that ParseUint0_fmt_nat [of n] by (simp add: max_uint64_def)
  show ?thesis
  proof (cases "i < 0")
    case True
    with assms parse [of "nat (- i)"] show ?thesis by (auto simp: ParseInt0_def fmt_d_def Let_def)
  next
    case False
    have "digit_val (hd (fmt_nat (nat i))) \<noteq> None" using fmt_nat_digit_val [of "nat i"] by simp
    then have "hd (fmt_nat (nat i)) \<noteq> CHR ''-''" "hd (fmt_nat (nat i)) \<noteq> CHR ''+''"
      by (auto simp: digit_val_def Let_def)
    with False assms parse [of "nat i"] show ?thesis by (simp add: ParseInt0_def fmt_d_def nat_less_iff)
  qed
qed

section \<open>Reading back flags\<close>

text \<open>The ways to write a flag with its value, and what a value has to be for its flag.\<close>

fun flag_text :: "flag_value \<Rightarrow> string" where
  "flag_text (FInt n) = fmt_d n"
| "flag_text (FInt64 n) = fmt_d n"
| "flag_text (FUint64 n) = fmt_nat n"
| "flag_text (FBool b) = (if b then ''true'' else ''false'')"

fun fits_flag :: "flag_value \<Rightarrow> flag_value \<Rightarrow> bool" where
  "fits_flag (FInt n) v = (\<exists>m. v = FInt m \<and> - (2 ^ 63) \<le> m \<and> m < 2 ^ 63)"
| "fits_flag (FInt64 n) v = (\<exists>m. v = FInt64 m \<and> - (2 ^ 63) \<le> m \<and> m < 2 ^ 63)"
| "fits_flag (FUint64 n) v = (\<exists>m. v = FUint64 m \<and> m < 2 ^ 64)"
| "fits_flag (FBool b) v = IsBoolFlag v"

definition written :: "string \<Rightarrow> flag_value \<Rightarrow> string list \<Rightarrow> bool" where
  "written name v args \<longleftrightarrow> (\<exists>dash\<in>{''-'', ''--''}.
     args = [dash @ name @ ''='' @ flag_text v]
     \<or> args = (if IsBoolFlag v then [dash @ name] else [dash @ name, flag_text v]) \<and> v \<noteq> FBool False)"

definition flag_name :: "string \<Rightarrow> bool" where
  "flag_name name \<longleftrightarrow> name \<noteq> [] \<and> hd name \<noteq> CHR ''-'' \<and> CHR ''='' \<notin> set name"

lemma ParseBool_text: "ParseBool (flag_text (FBool b)) = Some b"
  by (cases b) (simp_all add: ParseBool_def)

lemma Set_flag_text: "fits_flag v0 v \<Longrightarrow> Set_flag v0 (flag_text v) = Some v"
proof (cases v0)
  case (FUint64 n)
  moreover assume "fits_flag v0 v"
  ultimately obtain m where "v = FUint64 m" "m \<le> max_uint64" by (auto simp: max_uint64_def)
  then show ?thesis using FUint64 by (simp add: Set_flag_def ParseUint0_fmt_nat)
next
  case (FBool b)
  moreover assume "fits_flag v0 v"
  ultimately show ?thesis by (cases v) (simp_all add: Set_flag_def ParseBool_text IsBoolFlag_def del: flag_text.simps)
qed (auto simp: Set_flag_def ParseInt0_fmt_d)

lemma fits_IsBool: "fits_flag v0 v \<Longrightarrow> IsBoolFlag v0 = IsBoolFlag v"
  by (cases v0) (auto simp: IsBoolFlag_def)

lemma cut_name: "c \<notin> set xs \<Longrightarrow> takeWhile (\<lambda>x. x \<noteq> c) (xs @ c # ys) = xs \<and> dropWhile (\<lambda>x. x \<noteq> c) (xs @ c # ys) = c # ys"
  by (induction xs) auto

lemma cut_none: "c \<notin> set xs \<Longrightarrow> takeWhile (\<lambda>x. x \<noteq> c) xs = xs"
  by (induction xs) auto

text \<open>One argument that starts a flag: what is left after its dashes.\<close>

lemma parseOne_eq:
  assumes "flag_name name" and "map_of fs name = Some v0" and "dash = ''-'' \<or> dash = ''--''"
  shows "parseOne fs ((dash @ name @ CHR ''='' # given) # rest) = put_flag fs name v0 given rest"
    and "IsBoolFlag v0 \<Longrightarrow> parseOne fs ((dash @ name) # rest) = put_flag fs name v0 ''true'' rest"
    and "\<not> IsBoolFlag v0 \<Longrightarrow> parseOne fs ((dash @ name) # x # rest) = put_flag fs name v0 x rest"
proof -
  obtain c cs where name: "name = c # cs" using assms(1) by (cases name) (auto simp: flag_name_def)
  have c: "(c = CHR ''-'') = False" "(c = CHR ''='') = False" "(CHR ''='' = c) = False" "CHR ''='' \<notin> set (c # cs)"
    using assms(1) by (auto simp: flag_name_def name)
  note cut = cut_name [OF c(4), of given, unfolded append_Cons] cut_none [OF c(4)]
  have m: "map_of fs (c # cs) = Some v0" using assms(2) name by simp
  show "parseOne fs ((dash @ name @ CHR ''='' # given) # rest) = put_flag fs name v0 given rest"
    unfolding name parseOne_def using assms(3) c m by (elim disjE) (simp_all del: takeWhile.simps dropWhile.simps add: Let_def cut)
  show "IsBoolFlag v0 \<Longrightarrow> parseOne fs ((dash @ name) # rest) = put_flag fs name v0 ''true'' rest"
    unfolding name parseOne_def using assms(3) c m by (elim disjE) (simp_all del: takeWhile.simps dropWhile.simps add: Let_def cut)
  show "\<not> IsBoolFlag v0 \<Longrightarrow> parseOne fs ((dash @ name) # x # rest) = put_flag fs name v0 x rest"
    unfolding name parseOne_def using assms(3) c m by (elim disjE) (simp_all del: takeWhile.simps dropWhile.simps add: Let_def cut)
qed

lemma parseOne_written:
  assumes "flag_name name" and "map_of fs name = Some v0" and "fits_flag v0 v" and "written name v ws"
  shows "parseOne fs (ws @ rest) = Seen (AList.update name v fs) rest"
proof -
  have put: "put_flag fs name v0 (flag_text v) rest = Seen (AList.update name v fs) rest"
    by (simp add: put_flag_def Set_flag_text [OF assms(3)])
  have true: "flag_text v = ''true''" if "IsBoolFlag v" "v \<noteq> FBool False"
    using that by (cases v) (auto simp: IsBoolFlag_def)
  obtain dash where dash: "dash = ''-'' \<or> dash = ''--''"
      "ws = [dash @ name @ ''='' @ flag_text v]
       \<or> ws = (if IsBoolFlag v then [dash @ name] else [dash @ name, flag_text v]) \<and> v \<noteq> FBool False"
    using assms(4) unfolding written_def by blast
  note rules = parseOne_eq [OF assms(1,2) dash(1)]
  show ?thesis
    using dash(2)
  proof (elim disjE conjE)
    assume "ws = [dash @ name @ ''='' @ flag_text v]"
    then show ?thesis using rules(1) [of "flag_text v" rest] put by simp
  next
    assume ws: "ws = (if IsBoolFlag v then [dash @ name] else [dash @ name, flag_text v])" "v \<noteq> FBool False"
    then show ?thesis
      using rules(2) [of rest] rules(3) [of "flag_text v" rest] put true fits_IsBool [OF assms(3)] by (cases "IsBoolFlag v") simp_all
  qed
qed

type_synonym setting = "string \<times> flag_value \<times> string list"

definition settings :: "flag_set \<Rightarrow> setting list \<Rightarrow> bool" where
  "settings fs st \<longleftrightarrow> list_all (\<lambda>(name, v, ws).
     case map_of fs name of Some v0 \<Rightarrow> fits_flag v0 v \<and> written name v ws | None \<Rightarrow> False) st"

definition arguments :: "setting list \<Rightarrow> string list" where
  "arguments st = concat (map (\<lambda>(name, v, ws). ws) st)"

text \<open>The values after them: the last setting of a flag counts, then its default.\<close>

definition latest :: "setting list \<Rightarrow> flag_set \<Rightarrow> flag_set" where
  "latest st fs = rev (map (\<lambda>(name, v, ws). (name, v)) st) @ fs"

lemma Parse_settings:
  assumes "settings fs st" and "\<forall>name\<in>fst ` set fs. flag_name name"
  shows "\<exists>fs'. Parse fs (arguments st) = Inr fs' \<and> map_of fs' = map_of (latest st fs)"
  using assms
proof (induction st arbitrary: fs)
  case Nil
  then show ?case by (simp add: arguments_def latest_def Parse.simps parseOne_def)
next
  case (Cons a st)
  obtain name v ws where a: "a = (name, v, ws)" by (cases a)
  then obtain v0 where v0: "map_of fs name = Some v0" "fits_flag v0 v" "written name v ws" and st: "settings fs st"
    using Cons.prems(1) by (auto simp: settings_def split: option.splits)
  have name: "flag_name name" using Cons.prems(2) map_of_SomeD [OF v0(1)] by force
  let ?fs = "AList.update name v fs"
  have kind: "fits_flag v x = fits_flag v0 x" for x using v0(2) by (cases v0; cases v) (auto simp: IsBoolFlag_def)
  have "settings ?fs st"
    unfolding settings_def
    by (rule list.pred_mono_strong [OF st [unfolded settings_def]])
      (use v0(1) kind in \<open>auto simp: update_conv' split: option.splits if_split_asm\<close>)
  moreover have "\<forall>n\<in>fst ` set ?fs. flag_name n"
    using Cons.prems(2) name unfolding dom_update by blast
  ultimately obtain fs' where fs': "Parse ?fs (arguments st) = Inr fs'" "map_of fs' = map_of (latest st ?fs)"
    using Cons.IH by blast
  have "Parse fs (arguments (a # st)) = Inr fs'"
    using fs'(1) parseOne_written [OF name v0, of "arguments st"] by (simp add: Parse.simps [of fs] arguments_def a)
  moreover have "map_of (latest st ?fs) = map_of (latest (a # st) fs)"
    by (simp add: latest_def a update_conv' map_add_upd)
  ultimately show ?case using fs'(2) by simp
qed

lemma defaults_named:
  "\<forall>name\<in>fst ` set topology_defaults. flag_name name" "\<forall>name\<in>fst ` set seed_defaults. flag_name name"
  "\<forall>name\<in>fst ` set count_defaults. flag_name name" "\<forall>name\<in>fst ` set page_defaults. flag_name name"
  "\<forall>name\<in>fst ` set ids_defaults. flag_name name" "\<forall>name\<in>fst ` set transfer_defaults. flag_name name"
  "\<forall>name\<in>fst ` set orphans_defaults. flag_name name"
  by (simp_all add: topology_defaults_def seed_defaults_def count_defaults_def page_defaults_def ids_defaults_def
      transfer_defaults_def orphans_defaults_def flag_name_def)

text \<open>What the commands read depends on the values under the flags' names only.\<close>

lemma values_of_map:
  assumes "map_of fs = map_of fs'"
  shows "topology_values fs = topology_values fs'" "seed_values fs = seed_values fs'" "count_values fs = count_values fs'"
    "page_values fs = page_values fs'" "ids_values fs = ids_values fs'" "transfer_values fs = transfer_values fs'"
    "orphans_values fs = orphans_values fs'"
  by (simp_all add: topology_values_def seed_values_def count_values_def page_values_def ids_values_def transfer_values_def
      orphans_values_def int_flag_def uint_flag_def bool_flag_def assms)

lemma exit_or_settings:
  assumes "settings fs st" and "\<forall>name\<in>fst ` set fs. flag_name name"
    and "\<And>fs1 fs2. map_of fs1 = map_of fs2 \<Longrightarrow> vals fs1 = vals fs2"
  shows "exit_or vals (Parse fs (arguments st)) = Inr (vals (latest st fs))"
proof -
  obtain fs' where "Parse fs (arguments st) = Inr fs'" "map_of fs' = map_of (latest st fs)"
    using Parse_settings [OF assms(1,2)] by blast
  then show ?thesis using assms(3) [of fs' "latest st fs"] by (simp add: exit_or_def)
qed

section \<open>Leaving with a status\<close>

lemma Parse_exit: "Parse fs args = Inl code \<Longrightarrow> code = 0 \<or> code = 2"
proof (induction fs args rule: Parse.induct)
  case (1 fs args)
  show ?case
  proof (cases "parseOne fs args")
    case (ExitWith k)
    then have "k = 0 \<or> k = 2"
      by (auto simp: parseOne_def put_flag_def Let_def split: list.splits if_splits option.splits)
    then show ?thesis using "1.prems" ExitWith by (simp add: Parse.simps [of fs])
  qed (use "1" in \<open>simp_all add: Parse.simps [of fs]\<close>)
qed

lemma flags_exit:
  "exit_or vals (Parse fs args) = Inl code \<Longrightarrow> code = 0 \<or> code = 2"
  by (auto simp: exit_or_def dest: Parse_exit split: sum.splits)

section \<open>Properties\<close>


section \<open>Examples\<close>


end
