(* ===== verification/Keyset.thy ===== *)
theory Keyset
  imports Strconv "HOL-Library.Product_Lexorder"
begin

text \<open>
  The pure part of \<open>src/internal/shard/keyset.go\<close>: the pagination cursor with its
  text encoding, the order row, \<open>MergeDesc\<close>, and the two page queries as functions of
  one shard's table.  A \<open>time.Time\<close> is the number of nanoseconds since the Unix epoch.
\<close>

section \<open>Times\<close>

type_synonym time = int

definition zero_time :: time where "zero_time = - 62135596800 * 10 ^ 9"

definition IsZero :: "time \<Rightarrow> bool" where "IsZero t \<longleftrightarrow> t = zero_time"

text \<open>\<open>t.UnixMicro()\<close> computes \<open>sec*1e6 + nsec/1e3\<close> in \<open>int64\<close>; \<open>time.UnixMicro\<close> is exact.\<close>

definition UnixMicro :: "time \<Rightarrow> int" where
  "UnixMicro t = sint (word_of_int (t div 10 ^ 9 * 10 ^ 6 + t mod 10 ^ 9 div 10 ^ 3) :: i64)"

definition time_UnixMicro :: "int \<Rightarrow> time" where
  "time_UnixMicro us = us * 1000"

section \<open>Cursors\<close>

record cursor =
  c_CreatedAt :: time
  c_ID :: int

definition zero_cursor :: cursor where
  "zero_cursor = \<lparr>c_CreatedAt = zero_time, c_ID = 0\<rparr>"

datatype cursor_error = BadCursor | BadCursorPayload | BadCursorTime num_error | BadCursorID num_error

definition Encode :: "cursor \<Rightarrow> string" where
  "Encode c = b64_EncodeToString (fmt_d (UnixMicro (c_CreatedAt c)) @ CHR '':'' # fmt_d (c_ID c))"

definition DecodeCursor :: "string \<Rightarrow> cursor_error + cursor" where
  "DecodeCursor s =
     (if s = [] then Inr zero_cursor
      else case b64_DecodeString s of
        None \<Rightarrow> Inl BadCursor
      | Some b \<Rightarrow>
          (case SplitN2 b (CHR '':'') of
             [p0, p1] \<Rightarrow>
               (case ParseInt p0 of
                  Inl e \<Rightarrow> Inl (BadCursorTime e)
                | Inr us \<Rightarrow>
                    (case ParseInt p1 of
                       Inl e \<Rightarrow> Inl (BadCursorID e)
                     | Inr k \<Rightarrow> Inr \<lparr>c_CreatedAt = time_UnixMicro us, c_ID = k\<rparr>))
           | _ \<Rightarrow> Inl BadCursorPayload))"

section \<open>Orders and the merge\<close>

record order =
  o_ID :: int
  o_TenantID :: u64
  o_LogicalShard :: int
  o_CreatedAt :: time
  o_TotalCents :: int
  o_State :: string
  o_Shard :: int

text \<open>The comparison that \<open>MergeDesc\<close> gives to \<open>sort.SliceStable\<close>, newest first.\<close>

definition order_less :: "order \<Rightarrow> order \<Rightarrow> bool" where
  "order_less a b =
     (if o_CreatedAt a \<noteq> o_CreatedAt b then o_CreatedAt a > o_CreatedAt b else o_ID a > o_ID b)"

text \<open>Sorting by that comparison is sorting by this key, ascending.\<close>

definition feed_key :: "order \<Rightarrow> int \<times> int" where
  "feed_key r = (- o_CreatedAt r, - o_ID r)"

lemma order_less_key: "order_less a b \<longleftrightarrow> feed_key a < feed_key b"
  by (auto simp: order_less_def feed_key_def)

definition sort_feed :: "order list \<Rightarrow> order list" where
  "sort_feed rows = sort_key feed_key rows"

definition MergeDesc :: "order list list \<Rightarrow> int \<Rightarrow> order list go" where
  "MergeDesc perShard limit =
     (if limit * int (length perShard) < 0 then Inl MakeSliceOutOfRange
      else let all_rows = sort_feed (concat perShard) in
        if int (length all_rows) > limit
        then if limit < 0 then Inl SliceBoundsOutOfRange else Inr (take (nat limit) all_rows)
        else Inr all_rows)"

text \<open>
  The queries \<open>firstPage\<close> and \<open>nextPage\<close> on the rows of one shard's table: the row
  comparison \<open>(created_at, id) < ($1, $2)\<close>, the descending order and the limit.
\<close>

definition after_cursor :: "cursor \<Rightarrow> order \<Rightarrow> bool" where
  "after_cursor c r \<longleftrightarrow> (o_CreatedAt r, o_ID r) < (c_CreatedAt c, c_ID c)"

definition sql_firstPage :: "nat \<Rightarrow> order list \<Rightarrow> order list" where
  "sql_firstPage limit rows = take limit (sort_feed rows)"

definition sql_nextPage :: "cursor \<Rightarrow> nat \<Rightarrow> order list \<Rightarrow> order list" where
  "sql_nextPage after limit rows = take limit (sort_feed (filter (after_cursor after) rows))"

definition sql_page :: "cursor \<Rightarrow> nat \<Rightarrow> order list \<Rightarrow> order list" where
  "sql_page after limit rows =
     (if IsZero (c_CreatedAt after) then sql_firstPage limit rows else sql_nextPage after limit rows)"

definition next_cursor :: "cursor \<Rightarrow> order list \<Rightarrow> cursor" where
  "next_cursor after page =
     (if page = [] then after
      else \<lparr>c_CreatedAt = o_CreatedAt (last page), c_ID = o_ID (last page)\<rparr>)"

section \<open>Cursor lemmas\<close>

lemma micro_floor: "(t :: int) div 10 ^ 9 * 10 ^ 6 + t mod 10 ^ 9 div 10 ^ 3 = t div 1000"
proof -
  have "t div 1000 = (t div 10 ^ 9 * 10 ^ 9 + t mod 10 ^ 9) div 1000" by (simp only: div_mult_mod_eq)
  also have "\<dots> = (t mod 10 ^ 9 + t div 10 ^ 9 * 10 ^ 6 * 1000) div 1000" by (simp add: algebra_simps)
  also have "\<dots> = t div 10 ^ 9 * 10 ^ 6 + t mod 10 ^ 9 div 1000" by (subst div_mult_self1) simp_all
  finally show ?thesis by simp
qed

lemma UnixMicro_range:
  "- (2 ^ 63) \<le> t div 1000 \<Longrightarrow> t div 1000 < 2 ^ 63 \<Longrightarrow> UnixMicro t = t div 1000"
  unfolding UnixMicro_def micro_floor by (rule sint_word_of_int_64)

lemma UnixMicro_bounds: "- (2 ^ 63) \<le> UnixMicro t" "UnixMicro t < 2 ^ 63"
  unfolding UnixMicro_def using sint_ge [where 'a = 64] sint_lt [where 'a = 64] by simp_all

lemma DecodeCursor_Encode:
  assumes "- (2 ^ 63) \<le> c_ID c" and "c_ID c < 2 ^ 63"
  shows "DecodeCursor (Encode c) = Inr \<lparr>c_CreatedAt = UnixMicro (c_CreatedAt c) * 1000, c_ID = c_ID c\<rparr>"
proof -
  have "Encode c \<noteq> []"
    using b64_roundtrip [of "fmt_d (UnixMicro (c_CreatedAt c)) @ CHR '':'' # fmt_d (c_ID c)"]
    by (auto simp: Encode_def b64_DecodeString_def)
  then show ?thesis
    unfolding DecodeCursor_def Encode_def b64_roundtrip
    by (simp add: SplitN2_append [OF fmt_d_no_colon] ParseInt_fmt_d [OF UnixMicro_bounds]
        ParseInt_fmt_d [OF assms] time_UnixMicro_def)
qed

lemma ParseInt_bounds: "ParseInt s = Inr i \<Longrightarrow> - (2 ^ 63) \<le> i \<and> i < 2 ^ 63"
  by (auto simp: ParseInt_def Let_def split: if_splits sum.splits)

lemma DecodeCursor_range:
  assumes "DecodeCursor s = Inr c"
  shows "- (2 ^ 63) \<le> c_ID c \<and> c_ID c < 2 ^ 63
    \<and> (\<exists>us. - (2 ^ 63) \<le> us \<and> us < 2 ^ 63 \<and> c_CreatedAt c = us * 1000)"
proof (cases "s = []")
  case True
  then have c: "c = zero_cursor" using assms by (simp add: DecodeCursor_def)
  show ?thesis
    unfolding c zero_cursor_def zero_time_def
    by (simp add: exI [of _ "- 62135596800000000"])
next
  case False
  with assms obtain b p0 p1 us k where "ParseInt p0 = Inr us" "ParseInt p1 = Inr k"
      "c = \<lparr>c_CreatedAt = us * 1000, c_ID = k\<rparr>"
    by (auto simp: DecodeCursor_def time_UnixMicro_def split: option.splits list.splits sum.splits)
  then show ?thesis using ParseInt_bounds by auto
qed

section \<open>Stable sorting\<close>

lemma sorted_three_way:
  "sorted (map f xs) \<Longrightarrow>
   xs = filter (\<lambda>x. f x < k) xs @ filter (\<lambda>x. f x = k) xs @ filter (\<lambda>x. k < f x) xs"
proof (induction xs)
  case (Cons x xs)
  then have IH: "xs = filter (\<lambda>x. f x < k) xs @ filter (\<lambda>x. f x = k) xs @ filter (\<lambda>x. k < f x) xs"
    and low: "\<forall>y\<in>set xs. f x \<le> f y" by simp_all
  consider "f x < k" | "f x = k" | "k < f x" by (metis linorder_neqE)
  then show ?case
  proof cases
    case 1
    then have "f x \<noteq> k" "\<not> k < f x" by auto
    then show ?thesis using 1 IH by simp
  next
    case 2
    then have "filter (\<lambda>x. f x < k) xs = []" using low by (auto simp: filter_empty_conv)
    then show ?thesis using 2 IH by simp
  next
    case 3
    then have "filter (\<lambda>x. f x < k) xs = []" "filter (\<lambda>x. f x = k) xs = []"
      using low by (auto simp: filter_empty_conv)
    moreover have "\<not> f x < k" "f x \<noteq> k" using 3 by auto
    ultimately show ?thesis using 3 IH by simp
  qed
qed simp

lemma sort_key_split:
  "sort_key f xs = sort_key f (filter (\<lambda>x. f x < k) xs) @ filter (\<lambda>x. f x = k) xs
     @ sort_key f (filter (\<lambda>x. k < f x) xs)"
proof -
  have "filter (\<lambda>x. f x = k) (sort_key f xs) = filter (\<lambda>x. f x = k) xs" by (rule sort_key_stable)
  then show ?thesis
    using sorted_three_way [OF sorted_sort_key [of f xs], of k] by (simp only: filter_sort)
qed

text \<open>A stable sort depends only on the subsequence of every key.\<close>

lemma sort_key_cong_filter:
  assumes "\<And>k. filter (\<lambda>x. f x = k) xs = filter (\<lambda>x. f x = k) ys"
  shows "sort_key f xs = sort_key f ys"
proof (rule properties_for_sort_key)
  show "mset (sort_key f ys) = mset xs"
  proof (rule multiset_eqI)
    fix a
    have "count (mset (filter (\<lambda>x. f x = f a) xs)) a = count (mset (filter (\<lambda>x. f x = f a) ys)) a"
      by (simp only: assms)
    then show "count (mset (sort_key f ys)) a = count (mset xs) a" by (simp add: count_filter_mset)
  qed
  show "filter (\<lambda>x. f k = f x) (sort_key f ys) = filter (\<lambda>x. f k = f x) xs" for k
    using assms [of "f k"] sort_key_stable [of f "f k" ys] by (simp add: eq_commute)
qed simp

text \<open>
  Where a further element lands in a stable sort: behind everything before it in the list
  whose key is not larger.
\<close>

lemma sort_key_insert:
  obtains P Q where "sort_key f (xs @ x # ys) = P @ x # Q" and "sort_key f (xs @ ys) = P @ Q"
    and "length (filter (\<lambda>y. f y \<le> f x) xs) \<le> length P"
proof
  let ?P = "sort_key f (filter (\<lambda>y. f y < f x) (xs @ ys)) @ filter (\<lambda>y. f y = f x) xs"
  let ?Q = "filter (\<lambda>y. f y = f x) ys @ sort_key f (filter (\<lambda>y. f x < f y) (xs @ ys))"
  show "sort_key f (xs @ x # ys) = ?P @ x # ?Q"
    by (subst sort_key_split [where k = "f x"]) simp
  show "sort_key f (xs @ ys) = ?P @ ?Q"
    by (subst sort_key_split [where k = "f x"]) simp
  have "length (filter (\<lambda>y. f y \<le> f x) xs)
      = length (filter (\<lambda>y. f y < f x) xs) + length (filter (\<lambda>y. f y = f x) xs)"
    by (induction xs) auto
  then show "length (filter (\<lambda>y. f y \<le> f x) xs) \<le> length ?P" by simp
qed

lemma take_sort_drop_last:
  assumes "sorted (map f (xs @ [x]))" and "n \<le> length xs"
  shows "take n (sort_key f (zs @ (xs @ [x]) @ ys)) = take n (sort_key f (zs @ xs @ ys))"
proof -
  obtain P Q where PQ: "sort_key f ((zs @ xs) @ x # ys) = P @ x # Q"
      "sort_key f ((zs @ xs) @ ys) = P @ Q"
    and len: "length (filter (\<lambda>y. f y \<le> f x) (zs @ xs)) \<le> length P"
    by (rule sort_key_insert)
  have "filter (\<lambda>y. f y \<le> f x) xs = xs" using assms(1) by (simp add: filter_id_conv sorted_append)
  then have "n \<le> length P" using len assms(2) by simp
  then show ?thesis using PQ by simp
qed

lemma take_sort_take:
  assumes "sorted (map f xs)"
  shows "take n (sort_key f (zs @ xs @ ys)) = take n (sort_key f (zs @ take n xs @ ys))"
  using assms
proof (induction xs rule: rev_induct)
  case (snoc x xs)
  show ?case
  proof (cases "n \<le> length xs")
    case True
    then have "take n (xs @ [x]) = take n xs" by simp
    moreover have "sorted (map f xs)" using snoc.prems by (simp add: sorted_append)
    ultimately show ?thesis
      using snoc.IH take_sort_drop_last [OF snoc.prems True, of zs ys] by simp
  qed simp
qed simp

lemma take_sort_concat_take:
  assumes "\<forall>xs\<in>set xss. sorted (map f xs)"
  shows "take n (sort_key f (zs @ concat (map (take n) xss))) = take n (sort_key f (zs @ concat xss))"
  using assms
proof (induction xss arbitrary: zs)
  case (Cons xs xss)
  have "take n (sort_key f (zs @ xs @ concat xss)) = take n (sort_key f (zs @ take n xs @ concat xss))"
    using Cons.prems by (intro take_sort_take) simp
  then show ?case using Cons.IH [of "zs @ take n xs"] Cons.prems by simp
qed simp

lemma MergeDesc_nonneg:
  "0 \<le> limit \<Longrightarrow> MergeDesc perShard limit = Inr (take (nat limit) (sort_feed (concat perShard)))"
  by (simp add: MergeDesc_def Let_def mult_nonneg_nonneg not_less)


section \<open>Pages\<close>

lemma set_sort_feed [simp]: "set (sort_feed rows) = set rows"
  and length_sort_feed [simp]: "length (sort_feed rows) = length rows"
  and mset_sort_feed [simp]: "mset (sort_feed rows) = mset rows"
  and sorted_sort_feed: "sorted (map feed_key (sort_feed rows))"
  by (simp_all add: sort_feed_def)

lemma filter_sort_feed: "sort_feed (filter P rows) = filter P (sort_feed rows)"
  by (simp add: sort_feed_def filter_sort)

lemma after_cursor_key:
  "after_cursor c r \<longleftrightarrow> (- c_CreatedAt c, - c_ID c) < feed_key r"
  by (auto simp: after_cursor_def feed_key_def)

text \<open>The rows a page request asks for, over all shards.\<close>

definition wanted :: "cursor \<Rightarrow> order \<Rightarrow> bool" where
  "wanted after r \<longleftrightarrow> IsZero (c_CreatedAt after) \<or> after_cursor after r"

lemma sql_page_wanted: "sql_page after limit rows = take limit (sort_feed (filter (wanted after) rows))"
  by (simp add: sql_page_def sql_firstPage_def sql_nextPage_def wanted_def cong: filter_cong)

text \<open>Merging one page from every shard gives the page of the union of the tables.\<close>

lemma merge_of_pages:
  assumes "0 \<le> limit"
  shows "MergeDesc (map (sql_page after (nat limit)) tables) limit
    = Inr (sql_page after (nat limit) (concat tables))"
proof -
  let ?f = "\<lambda>rows. sort_feed (filter (wanted after) rows)"
  have "take (nat limit) (sort_feed (concat (map (take (nat limit)) (map ?f tables))))
      = take (nat limit) (sort_feed (concat (map ?f tables)))"
    using take_sort_concat_take [of "map ?f tables" feed_key "nat limit" "[]"]
    by (simp add: sort_feed_def)
  also have "sort_feed (concat (map ?f tables)) = sort_feed (filter (wanted after) (concat tables))"
    unfolding sort_feed_def
    by (rule sort_key_cong_filter) (simp add: filter_concat comp_def sort_key_stable)
  finally show ?thesis by (simp add: MergeDesc_nonneg sql_page_wanted [abs_def] comp_def assms)
qed

text \<open>
  Walking the pages.  \<open>walk\<close> is the loop of \<open>cmdPage\<close> over one fixed table: up to
  \<open>n\<close> pages, stopping at an empty one.
\<close>

fun walk :: "nat \<Rightarrow> nat \<Rightarrow> order list \<Rightarrow> cursor \<Rightarrow> order list list" where
  "walk 0 limit rows cur = []"
| "walk (Suc n) limit rows cur =
     (let page = sql_page cur limit rows in
      if page = [] then [page] else page # walk n limit rows (next_cursor cur page))"

lemma filter_greater_sorted:
  fixes f :: "'a \<Rightarrow> 'b::linorder"
  assumes "sorted_wrt (<) (map f xs)" and "i < length xs"
  shows "filter (\<lambda>x. f (xs ! i) < f x) xs = drop (Suc i) xs"
  using assms
proof (induction xs arbitrary: i)
  case (Cons x xs)
  show ?case
  proof (cases i)
    case 0
    then show ?thesis using Cons.prems(1) by (simp add: filter_id_conv)
  next
    case (Suc j)
    then have "\<not> f (xs ! j) < f x" using Cons.prems by (simp add: less_imp_not_less)
    then show ?thesis using Suc Cons by auto
  qed
qed simp

lemma strict_sort_feed:
  assumes "distinct (map feed_key rows)"
  shows "sorted_wrt (<) (map feed_key (sort_feed rows))"
proof -
  have "mset (map feed_key (sort_feed rows)) = mset (map feed_key rows)" by simp
  then have "distinct (map feed_key (sort_feed rows))" using assms by (metis mset_eq_imp_distinct_iff)
  then show ?thesis using sorted_sort_feed by (simp add: strict_sorted_iff)
qed

text \<open>The page after the first \<open>m\<close> rows starts at row \<open>m\<close>.\<close>

lemma page_after_prefix:
  assumes "distinct (map feed_key rows)" and "\<forall>r\<in>set rows. \<not> IsZero (o_CreatedAt r)"
    and "0 < m" and "m \<le> length rows"
    and "cur = \<lparr>c_CreatedAt = o_CreatedAt (sort_feed rows ! (m - 1)), c_ID = o_ID (sort_feed rows ! (m - 1))\<rparr>"
  shows "sql_page cur limit rows = take limit (drop m (sort_feed rows))"
proof -
  let ?S = "sort_feed rows"
  have m: "m - 1 < length ?S" using assms(3,4) by simp
  then have "?S ! (m - 1) \<in> set rows" by (metis nth_mem set_sort_feed)
  then have "\<not> IsZero (c_CreatedAt cur)" using assms(2,5) by simp
  then have w: "wanted cur r \<longleftrightarrow> feed_key (?S ! (m - 1)) < feed_key r" for r
    by (simp add: wanted_def after_cursor_key assms(5)) (simp add: feed_key_def)
  have "filter (wanted cur) ?S = drop m ?S"
    using filter_greater_sorted [OF strict_sort_feed [OF assms(1)] m] assms(3) by (simp add: w cong: filter_cong)
  then show ?thesis by (simp add: sql_page_wanted filter_sort_feed)
qed

lemma walk_from_prefix:
  assumes "distinct (map feed_key rows)" and "\<forall>r\<in>set rows. \<not> IsZero (o_CreatedAt r)" and "0 < limit"
    and "m \<le> length rows"
    and "cur = (if m = 0 then zero_cursor
      else \<lparr>c_CreatedAt = o_CreatedAt (sort_feed rows ! (m - 1)), c_ID = o_ID (sort_feed rows ! (m - 1))\<rparr>)"
  shows "concat (walk n limit rows cur) = take (n * limit) (drop m (sort_feed rows))"
  using assms(4,5)
proof (induction n arbitrary: m cur)
  case (Suc n)
  let ?S = "sort_feed rows"
  have page: "sql_page cur limit rows = take limit (drop m ?S)"
  proof (cases "m = 0")
    case True
    then show ?thesis
      using Suc.prems by (simp add: sql_page_def sql_firstPage_def zero_cursor_def IsZero_def)
  qed (use page_after_prefix [OF assms(1,2)] Suc.prems in auto)
  show ?case
  proof (cases "m = length rows")
    case True
    then show ?thesis by (simp add: page)
  next
    case False
    define k where "k = min (m + limit) (length rows)"
    let ?page = "take limit (drop m ?S)"
    have ne: "?page \<noteq> []" using False Suc.prems(1) assms(3) by simp
    have m: "0 < k" "k \<le> length rows" using assms(3) False Suc.prems(1) by (auto simp: k_def)
    have len: "length ?page = k - m" and idx: "m + (k - m - 1) = k - 1"
      using False Suc.prems(1) assms(3) by (auto simp: k_def)
    have "last ?page = ?S ! (m + (length ?page - 1))"
      using ne False Suc.prems(1) by (simp add: last_conv_nth)
    then have "last ?page = ?S ! (k - 1)" unfolding len idx .
    then have cur: "next_cursor cur ?page = (if k = 0 then zero_cursor
      else \<lparr>c_CreatedAt = o_CreatedAt (?S ! (k - 1)), c_ID = o_ID (?S ! (k - 1))\<rparr>)"
      using ne m(1) by (simp add: next_cursor_def)
    have "drop k ?S = drop limit (drop m ?S)" by (simp add: k_def min_def add.commute)
    then have "concat (walk n limit rows (next_cursor cur ?page)) = take (n * limit) (drop limit (drop m ?S))"
      using Suc.IH [OF m(2) cur] by simp
    then show ?thesis using page ne by (simp add: take_add Let_def del: drop_drop)
  qed
qed simp

section \<open>Properties\<close>

text \<open>C32: Every cursor survives its encoding, up to the microsecond precision of the format;
  and whatever text \<open>DecodeCursor\<close> accepts, re-encoding the cursor it returned gives a text
  that decodes to the same position.\<close>

theorem cursor_roundtrip:
  assumes "- (2 ^ 63) \<le> c_ID c" and "c_ID c < 2 ^ 63"
    and "- (2 ^ 63) \<le> c_CreatedAt c div 1000" and "c_CreatedAt c div 1000 < 2 ^ 63"
  shows "DecodeCursor (Encode c) = Inr (c\<lparr>c_CreatedAt := c_CreatedAt c div 1000 * 1000\<rparr>)
    \<and> (DecodeCursor s = Inr c' \<longrightarrow> DecodeCursor (Encode c') = Inr c')"
proof
  show "DecodeCursor (Encode c) = Inr (c\<lparr>c_CreatedAt := c_CreatedAt c div 1000 * 1000\<rparr>)"
    using DecodeCursor_Encode [OF assms(1,2)] UnixMicro_range [OF assms(3,4)] by simp
  show "DecodeCursor s = Inr c' \<longrightarrow> DecodeCursor (Encode c') = Inr c'"
  proof
    assume "DecodeCursor s = Inr c'"
    from DecodeCursor_range [OF this] obtain us where "- (2 ^ 63) \<le> c_ID c'" "c_ID c' < 2 ^ 63"
      "- (2 ^ 63) \<le> us" "us < 2 ^ 63" "c_CreatedAt c' = us * 1000" by blast
    then show "DecodeCursor (Encode c') = Inr c'"
      using DecodeCursor_Encode [of c'] UnixMicro_range [of "c_CreatedAt c'"] by simp
  qed
qed

lemma cursor_roundtrip_witness:
  "DecodeCursor (Encode \<lparr>c_CreatedAt = 1704067200123456789, c_ID = -5\<rparr>)
    = Inr \<lparr>c_CreatedAt = 1704067200123456000, c_ID = -5\<rparr>
   \<and> DecodeCursor (Encode zero_cursor) = Inr zero_cursor"
  using cursor_roundtrip [of "\<lparr>c_CreatedAt = 1704067200123456789, c_ID = -5\<rparr>" "[]" zero_cursor]
  by (simp add: DecodeCursor_def)

text \<open>\<open>MergeDesc\<close> returns the global top: the page is in feed order, it and the rows
  left out are together exactly the rows that came in, no row left out belongs before a row of
  the page, and the page is full unless the rows ran out.  Asking every shard for only its own
  first \<open>limit\<close> rows gives the same page.\<close>

theorem merge_is_global_top:
  assumes "0 \<le> limit" and "\<forall>rows\<in>set perShard. sorted_wrt (\<lambda>a b. \<not> order_less b a) rows"
  shows "\<exists>page rest. MergeDesc perShard limit = Inr page
    \<and> mset page + mset rest = mset (concat perShard)
    \<and> sorted_wrt (\<lambda>a b. \<not> order_less b a) (page @ rest)
    \<and> (int (length page) = limit \<or> rest = [] \<and> int (length page) \<le> limit)
    \<and> MergeDesc (map (take (nat limit)) perShard) limit = Inr page"
proof -
  let ?S = "sort_feed (concat perShard)" and ?n = "nat limit"
  have wrt: "sorted_wrt (\<lambda>a b. \<not> order_less b a) xs \<longleftrightarrow> sorted (map feed_key xs)" for xs
    by (simp add: order_less_key sorted_wrt_map not_less)
  have "MergeDesc (map (take ?n) perShard) limit = MergeDesc perShard limit"
    using take_sort_concat_take [of perShard feed_key ?n "[]"] assms
    by (simp add: MergeDesc_nonneg wrt sort_feed_def)
  moreover have "MergeDesc perShard limit = Inr (take ?n ?S)" using assms(1) by (rule MergeDesc_nonneg)
  moreover have "mset (take ?n ?S) + mset (drop ?n ?S) = mset (concat perShard)"
    by (simp only: append_take_drop_id mset_sort_feed flip: mset_append)
  moreover have "sorted_wrt (\<lambda>a b. \<not> order_less b a) (take ?n ?S @ drop ?n ?S)"
    by (simp only: append_take_drop_id wrt sorted_sort_feed)
  moreover have "int (length (take ?n ?S)) = limit \<or> drop ?n ?S = [] \<and> int (length (take ?n ?S)) \<le> limit"
    using assms(1) by (auto simp: min_def)
  ultimately show ?thesis by metis
qed

lemma merge_is_global_top_witness:
  "let a = \<lparr>o_ID = 1, o_TenantID = 1, o_LogicalShard = 0, o_CreatedAt = 10, o_TotalCents = 5, o_State = ''new'', o_Shard = 0\<rparr>;
       b = a\<lparr>o_ID := 2, o_Shard := 1\<rparr>; c = a\<lparr>o_CreatedAt := 7, o_Shard := 1\<rparr>
   in \<exists>page rest. MergeDesc [[a], [b, c]] 2 = Inr page \<and> mset page + mset rest = {#a, b, c#}"
proof -
  let ?a = "\<lparr>o_ID = 1, o_TenantID = 1, o_LogicalShard = 0, o_CreatedAt = 10, o_TotalCents = 5, o_State = ''new'', o_Shard = 0\<rparr>"
  let ?b = "?a\<lparr>o_ID := 2, o_Shard := 1\<rparr>" and ?c = "?a\<lparr>o_CreatedAt := 7, o_Shard := 1\<rparr>"
  have "\<forall>rows\<in>set [[?a], [?b, ?c]]. sorted_wrt (\<lambda>a b. \<not> order_less b a) rows"
    by (simp add: order_less_def)
  from merge_is_global_top [OF _ this, of 2] show ?thesis by (auto simp: Let_def)
qed

end
