(* ===== verification/World.thy ===== *)
theory World
  imports Keyset
begin

text \<open>
  The databases behind the router and the programs that talk to them.

  A shard is a Postgres node with the tables of \<open>src/labs/04-app-sharding-go/schema.sql\<close>
  and its list of prepared transactions.  A Go function that talks to the nodes is a value
  of type \<open>io\<close>: it maps a world to its outcome and the world it leaves.  What the network,
  the server and the other clients do is not the program's choice: it is read from the
  world's script, one event per round trip.  An event says what other clients did to the
  nodes before the round trip, whether the request is carried out and acknowledged, lost on
  the way, carried out with its acknowledgement lost, or answered with a result stream that
  breaks off, and what time the server's clock shows.  Where the script ends the process
  is killed.  Theorems quantify over all scripts, so they cover every such schedule.
\<close>

section \<open>Tables\<close>

record payload =
  pl_tenant_id :: u64
  pl_cents :: int
  pl_from :: u64

record outbox_row =
  ob_id :: int
  ob_target_shard :: int
  ob_kind :: string
  ob_payload :: payload
  ob_delivered :: bool

record tables =
  orders :: "order list"
  ledger :: "(u64, int) gomap"
  outbox :: "outbox_row list"
  applied :: "int list"

text \<open>
  A prepared transaction is its name, its time and its effect on the tables; it holds its
  row locks, so running the effect at \<open>COMMIT PREPARED\<close> is running it at \<open>PREPARE\<close>.
\<close>

record prepared_xact =
  px_gid :: string
  px_prepared :: time
  px_effect :: "tables \<Rightarrow> tables"

record node =
  tabs :: tables
  prepared :: "prepared_xact list"

section \<open>Errors\<close>

datatype sql_error = UniqueViolation | NumericOutOfRange | NegativeLimit | DuplicateGid | UndefinedGid

text \<open>
  A Go \<open>error\<close>: \<open>EWrap\<close> is \<open>fmt.Errorf\<close> with \<open>%w\<close>, \<open>EAt\<close> the same naming a shard.
\<close>

datatype file_error = NotExist | IOFailure | BadJSON

datatype gerr =
    EDriver
  | EFile file_error
  | EWrap string gerr
  | ESql sql_error
  | ENoRows
  | ENoPool int
  | EConfig string
  | EShardRange int
  | EAt string int gerr
  | EJoin "gerr list"
  | EMsg string

section \<open>The world\<close>

record pool =
  p_handle :: nat
  p_dsn :: string

type_synonym db = "string \<Rightarrow> node"

datatype reply = Ack | Nack | AckLost | Broken nat

record event =
  ev_move :: "db \<Rightarrow> db"
  ev_reply :: reply
  ev_now :: time

text \<open>The world also keeps which connection pools the process holds open.\<close>

record world =
  nodes :: db
  script :: "event list"
  open_pools :: "nat list"
  next_pool :: nat

datatype 'a outcome = Done 'a | Panicked panic | Killed

text \<open>A program that works on a state and may panic or be killed; \<open>'a io\<close> works on the world.\<close>

type_synonym ('w, 'a) prog = "'w \<Rightarrow> 'a outcome \<times> 'w"
type_synonym 'a io = "(world, 'a) prog"

definition ret :: "'a \<Rightarrow> ('w, 'a) prog" where
  "ret x = (\<lambda>w. (Done x, w))"

definition bind_io :: "('w, 'a) prog \<Rightarrow> ('a \<Rightarrow> ('w, 'b) prog) \<Rightarrow> ('w, 'b) prog" where
  "bind_io m f = (\<lambda>w. case m w of
     (Done x, w') \<Rightarrow> f x w' | (Panicked p, w') \<Rightarrow> (Panicked p, w') | (Killed, w') \<Rightarrow> (Killed, w'))"

definition lift_go :: "'a go \<Rightarrow> ('w, 'a) prog" where
  "lift_go m = (\<lambda>w. case m of Inl p \<Rightarrow> (Panicked p, w) | Inr x \<Rightarrow> (Done x, w))"

text \<open>\<open>if err != nil { return ..., err }\<close>: continue on a value, return on an error.\<close>

definition try_io :: "('w, 'e + 'a) prog \<Rightarrow> ('e \<Rightarrow> ('w, 'b) prog) \<Rightarrow> ('a \<Rightarrow> ('w, 'b) prog) \<Rightarrow> ('w, 'b) prog" where
  "try_io m h f = bind_io m (\<lambda>r. case r of Inl e \<Rightarrow> h e | Inr x \<Rightarrow> f x)"

text \<open>A loop with an accumulator that an error leaves early.\<close>

fun for_io :: "('a \<Rightarrow> 's \<Rightarrow> ('w, 'e + 's) prog) \<Rightarrow> 'a list \<Rightarrow> 's \<Rightarrow> ('w, 'e + 's) prog" where
  "for_io body [] s = ret (Inr s)"
| "for_io body (x # xs) s = try_io (body x s) (\<lambda>e. ret (Inl e)) (\<lambda>s'. for_io body xs s')"

section \<open>Round trips\<close>

text \<open>
  One statement outside an explicit transaction: it is atomic on its node.  A server-side
  error changes nothing.
\<close>

definition round_trip :: "pool \<Rightarrow> (time \<Rightarrow> node \<Rightarrow> sql_error + 'a \<times> node) \<Rightarrow> (gerr + 'a) io" where
  "round_trip p stmt = (\<lambda>w. case script w of
     [] \<Rightarrow> (Killed, w)
   | e # es \<Rightarrow>
       let d = ev_move e (nodes w) in
       if ev_reply e = Nack then (Done (Inl EDriver), w\<lparr>nodes := d, script := es\<rparr>)
       else case stmt (ev_now e) (d (p_dsn p)) of
           Inl se \<Rightarrow> (Done (Inl (if ev_reply e = Ack then ESql se else EDriver)), w\<lparr>nodes := d, script := es\<rparr>)
         | Inr (x, n) \<Rightarrow>
             (Done (if ev_reply e = Ack then Inr x else Inl EDriver),
              w\<lparr>nodes := d(p_dsn p := n), script := es\<rparr>))"

text \<open>
  A query: the rows that arrived and the error \<open>rows.Err()\<close> reports after them.
\<close>

definition query_rows_at :: "pool \<Rightarrow> (time \<Rightarrow> node \<Rightarrow> sql_error + 'r list) \<Rightarrow> (gerr + 'r list \<times> gerr option) io" where
  "query_rows_at p q = (\<lambda>w. case script w of
     [] \<Rightarrow> (Killed, w)
   | e # es \<Rightarrow>
       let d = ev_move e (nodes w); w' = w\<lparr>nodes := d, script := es\<rparr> in
       (case q (ev_now e) (d (p_dsn p)) of
          Inl se \<Rightarrow> (Done (Inl (if ev_reply e = Ack then ESql se else EDriver)), w')
        | Inr rows \<Rightarrow>
            (case ev_reply e of
               Ack \<Rightarrow> (Done (Inr (rows, None)), w')
             | Broken k \<Rightarrow> (Done (Inr (take k rows, Some EDriver)), w')
             | _ \<Rightarrow> (Done (Inl EDriver), w'))))"

definition query_rows :: "pool \<Rightarrow> (node \<Rightarrow> sql_error + 'r list) \<Rightarrow> (gerr + 'r list \<times> gerr option) io" where
  "query_rows p q = query_rows_at p (\<lambda>now. q)"

text \<open>\<open>QueryRow\<close> of a query that always has exactly one row.\<close>

definition query_row :: "pool \<Rightarrow> (node \<Rightarrow> 'r) \<Rightarrow> (gerr + 'r) io" where
  "query_row p q = round_trip p (\<lambda>t n. Inr (q n, n))"

section \<open>Transactions\<close>

text \<open>
  A transaction works on its node's tables as it found them, its row locks keeping other
  clients off the rows it uses: to them it happens at one moment, which the model puts at
  \<open>BEGIN\<close> (the moves of later events of the transaction are skipped).
\<close>

type_synonym 'a tx = "tables \<times> event list \<Rightarrow> 'a outcome \<times> tables \<times> event list"

definition tx_ret :: "'a \<Rightarrow> 'a tx" where
  "tx_ret x = (\<lambda>(T, es). (Done x, T, es))"

definition tx_bind :: "'a tx \<Rightarrow> ('a \<Rightarrow> 'b tx) \<Rightarrow> 'b tx" where
  "tx_bind m f = (\<lambda>s. case m s of
     (Done x, s') \<Rightarrow> f x s' | (Panicked p, s') \<Rightarrow> (Panicked p, s') | (Killed, s') \<Rightarrow> (Killed, s'))"

definition tx_stmt :: "(tables \<Rightarrow> sql_error + 'a \<times> tables) \<Rightarrow> (gerr + 'a) tx" where
  "tx_stmt stmt = (\<lambda>(T, es). case es of
     [] \<Rightarrow> (Killed, T, es)
   | e # es' \<Rightarrow>
       if ev_reply e \<noteq> Ack then (Done (Inl EDriver), T, es')
       else case stmt T of
           Inl se \<Rightarrow> (Done (Inl (ESql se)), T, es')
         | Inr (x, T') \<Rightarrow> (Done (Inr x), T', es'))"

definition tx_try :: "('e + 'a) tx \<Rightarrow> ('e \<Rightarrow> 'b tx) \<Rightarrow> ('a \<Rightarrow> 'b tx) \<Rightarrow> 'b tx" where
  "tx_try m h f = tx_bind m (\<lambda>r. case r of Inl e \<Rightarrow> h e | Inr x \<Rightarrow> f x)"

text \<open>
  \<open>pgx.BeginFunc\<close>: begin, run the body, commit if it returned nil and roll back if not.
  A failed begin or a failed commit is the result; a commit whose acknowledgement is lost
  has happened all the same.
\<close>

definition begin_func :: "pool \<Rightarrow> (gerr + 'a) tx \<Rightarrow> (gerr + 'a) io" where
  "begin_func p body = (\<lambda>w. case script w of
     [] \<Rightarrow> (Killed, w)
   | e # es \<Rightarrow>
       let d = ev_move e (nodes w); n = d (p_dsn p); w1 = w\<lparr>nodes := d, script := es\<rparr> in
       if ev_reply e \<noteq> Ack then (Done (Inl EDriver), w1)
       else case body (tabs n, es) of
           (Killed, T, es1) \<Rightarrow> (Killed, w1\<lparr>script := es1\<rparr>)
         | (Panicked q, T, es1) \<Rightarrow> (Panicked q, w1\<lparr>script := es1\<rparr>)
         | (Done r, T, es1) \<Rightarrow>
             (case es1 of
                [] \<Rightarrow> (Killed, w1\<lparr>script := []\<rparr>)
              | c # es2 \<Rightarrow>
                  (case r of
                     Inl err \<Rightarrow> (Done (Inl err), w1\<lparr>script := es2\<rparr>)
                   | Inr x \<Rightarrow>
                       if ev_reply c = Nack then (Done (Inl EDriver), w1\<lparr>script := es2\<rparr>)
                       else (Done (if ev_reply c = Ack then Inr x else Inl EDriver),
                             w1\<lparr>nodes := d(p_dsn p := n\<lparr>tabs := T\<rparr>), script := es2\<rparr>))))"

section \<open>Basic lemmas\<close>

lemma ret_simp [simp]: "ret x w = (Done x, w)"
  by (simp add: ret_def)

lemma bind_io_ret [simp]: "bind_io (ret x) f = f x" "bind_io (Pair (Done x)) f = f x"
  by (simp_all add: bind_io_def ret_def)

lemma bind_io_assoc: "bind_io (bind_io m f) g = bind_io m (\<lambda>x. bind_io (f x) g)"
  by (rule ext) (simp add: bind_io_def split: prod.split outcome.split)

lemma lift_go_simps [simp]: "lift_go (Inr x) = ret x" "lift_go (Inl p) w = (Panicked p, w)"
  by (simp_all add: lift_go_def ret_def)

lemma try_io_ret [simp]: "try_io (ret (Inl e)) h f = h e" "try_io (ret (Inr x)) h f = f x"
    "try_io (Pair (Done (Inl e))) h f = h e" "try_io (Pair (Done (Inr x))) h f = f x"
  by (simp_all add: try_io_def)

text \<open>The events of a fair weather script: no interference, every reply arrives.\<close>

definition calm :: "time \<Rightarrow> event" where
  "calm t = \<lparr>ev_move = (\<lambda>d. d), ev_reply = Ack, ev_now = t\<rparr>"

lemma calm_simps [simp]: "ev_move (calm t) d = d" "ev_reply (calm t) = Ack" "ev_now (calm t) = t"
  by (simp_all add: calm_def)

section \<open>Rely and guarantee\<close>

text \<open>
  What a program can do to the nodes, whatever the script holds: if the other clients keep
  to a relation \<open>R\<close> and every statement of the program does, then so does the program,
  whether it returns, panics or is killed half way.
\<close>

definition moves_in :: "(db \<Rightarrow> db \<Rightarrow> bool) \<Rightarrow> event list \<Rightarrow> bool" where
  "moves_in R es \<longleftrightarrow> (\<forall>e\<in>set es. \<forall>d. R d (ev_move e d))"

lemma moves_in_simps [simp]:
  "moves_in R []" "moves_in R (e # es) \<longleftrightarrow> (\<forall>d. R d (ev_move e d)) \<and> moves_in R es"
  by (auto simp: moves_in_def)

definition guar :: "(db \<Rightarrow> db \<Rightarrow> bool) \<Rightarrow> 'a io \<Rightarrow> bool" where
  "guar R m \<longleftrightarrow> (\<forall>w. moves_in R (script w) \<longrightarrow>
     R (nodes w) (nodes (snd (m w))) \<and> moves_in R (script (snd (m w))))"

text \<open>
  The same with a precondition and a postcondition on the nodes: other clients may move them
  by \<open>R\<close> at any round trip, so a precondition has to be stable under \<open>R\<close> to be of use.
\<close>

definition triple :: "(db \<Rightarrow> db \<Rightarrow> bool) \<Rightarrow> (db \<Rightarrow> bool) \<Rightarrow> 'a io \<Rightarrow> ('a \<Rightarrow> db \<Rightarrow> bool) \<Rightarrow> bool" where
  "triple R P m Q \<longleftrightarrow> (\<forall>w. moves_in R (script w) \<longrightarrow> P (nodes w) \<longrightarrow>
     R (nodes w) (nodes (snd (m w))) \<and> moves_in R (script (snd (m w)))
     \<and> (\<forall>x. fst (m w) = Done x \<longrightarrow> Q x (nodes (snd (m w)))))"

definition stable :: "(db \<Rightarrow> db \<Rightarrow> bool) \<Rightarrow> (db \<Rightarrow> bool) \<Rightarrow> bool" where
  "stable R P \<longleftrightarrow> (\<forall>d d'. R d d' \<longrightarrow> P d \<longrightarrow> P d')"

lemma tripleD:
  assumes "triple R P m Q" and "moves_in R (script w)" and "P (nodes w)" and "m w = (r, w')"
  shows "R (nodes w) (nodes w')" and "moves_in R (script w')" and "r = Done x \<Longrightarrow> Q x (nodes w')"
  using assms unfolding triple_def by (metis fst_conv snd_conv)+

lemma triple_weaken:
  "triple R P m Q \<Longrightarrow> (\<And>d. P' d \<Longrightarrow> P d) \<Longrightarrow> (\<And>x d. Q x d \<Longrightarrow> Q' x d) \<Longrightarrow> triple R P' m Q'"
  unfolding triple_def by blast

text \<open>A transaction body consumes events from the front of the script.\<close>

definition tx_frame :: "'a tx \<Rightarrow> bool" where
  "tx_frame m \<longleftrightarrow> (\<forall>T es. \<exists>k. snd (snd (m (T, es))) = drop k es)"

lemma tx_frameI [intro?]: "(\<And>T es. \<exists>k. snd (snd (m (T, es))) = drop k es) \<Longrightarrow> tx_frame m"
  by (simp add: tx_frame_def)

lemma tx_frame_ret [wf_intros]: "tx_frame (tx_ret x)"
  by (auto simp: tx_frame_def tx_ret_def intro: exI [of _ 0])

lemma tx_frame_stmt [wf_intros]: "tx_frame (tx_stmt s)"
proof
  fix T and es :: "event list"
  show "\<exists>k. snd (snd (tx_stmt s (T, es))) = drop k es"
    by (cases es) (auto simp: tx_stmt_def split: sum.splits intro: exI [of _ 0] exI [of _ 1])
qed

lemma tx_frame_bind [wf_intros]:
  assumes "tx_frame m" and "\<And>x. tx_frame (f x)"
  shows "tx_frame (tx_bind m f)"
proof
  fix T es
  obtain r T' es' where m: "m (T, es) = (r, T', es')" by (metis prod_cases3)
  then obtain k where k: "es' = drop k es" using assms(1) unfolding tx_frame_def by (metis snd_conv)
  show "\<exists>k. snd (snd (tx_bind m f (T, es))) = drop k es"
  proof (cases r)
    case (Done x)
    obtain k' where "snd (snd (f x (T', es'))) = drop k' es'" using assms(2) unfolding tx_frame_def by blast
    then show ?thesis using m k Done by (auto simp: tx_bind_def)
  qed (use m k in \<open>auto simp: tx_bind_def\<close>)
qed

lemma tx_frame_try [wf_intros]:
  "tx_frame m \<Longrightarrow> (\<And>e. tx_frame (h e)) \<Longrightarrow> (\<And>x. tx_frame (f x)) \<Longrightarrow> tx_frame (tx_try m h f)"
  unfolding tx_try_def by (rule tx_frame_bind) (auto split: sum.splits)

locale rely =
  fixes R :: "db \<Rightarrow> db \<Rightarrow> bool"
  assumes R_refl: "R d d"
    and R_trans: "R d d1 \<Longrightarrow> R d1 d2 \<Longrightarrow> R d d2"
begin

lemma guar_ret: "guar R (ret x)"
  by (simp add: guar_def R_refl)

lemma guar_panic: "guar R (Pair (Panicked q))"
  by (simp add: guar_def R_refl)

lemma guar_lift: "guar R (lift_go m)"
  by (cases m) (simp_all add: guar_def lift_go_def R_refl)

lemma guar_bind:
  assumes "guar R m" and "\<And>x. guar R (f x)"
  shows "guar R (bind_io m f)"
proof (unfold guar_def, intro allI impI)
  fix w :: world assume w: "moves_in R (script w)"
  obtain r w' where m: "m w = (r, w')" by (metis surj_pair)
  then have 1: "R (nodes w) (nodes w')" "moves_in R (script w')"
    using assms(1) w unfolding guar_def by (metis snd_conv)+
  show "R (nodes w) (nodes (snd (bind_io m f w))) \<and> moves_in R (script (snd (bind_io m f w)))"
  proof (cases r)
    case (Done x)
    then have "R (nodes w') (nodes (snd (bind_io m f w)))" "moves_in R (script (snd (bind_io m f w)))"
      using assms(2) [of x] 1(2) m by (simp_all add: guar_def bind_io_def)
    then show ?thesis using 1(1) R_trans by blast
  qed (use m 1 in \<open>simp_all add: bind_io_def\<close>)
qed

lemma guar_try:
  "guar R m \<Longrightarrow> (\<And>e. guar R (h e)) \<Longrightarrow> (\<And>x. guar R (f x)) \<Longrightarrow> guar R (try_io m h f)"
  unfolding try_io_def by (rule guar_bind) (auto split: sum.splits)

lemma guar_for_in: "\<forall>x\<in>set xs. \<forall>s. guar R (body x s) \<Longrightarrow> guar R (for_io body xs s)"
  by (induction xs arbitrary: s) (simp_all add: guar_ret guar_try del: ret_simp)

lemma guar_for: "(\<And>x s. guar R (body x s)) \<Longrightarrow> guar R (for_io body xs s)"
  by (induction xs arbitrary: s) (simp_all add: guar_ret guar_try)

lemma guar_round_trip:
  assumes "\<And>t d x n. stmt t (d (p_dsn p)) = Inr (x, n) \<Longrightarrow> R d (d(p_dsn p := n))"
  shows "guar R (round_trip p stmt)"
proof (unfold guar_def, intro allI impI)
  fix w :: world assume w: "moves_in R (script w)"
  show "R (nodes w) (nodes (snd (round_trip p stmt w))) \<and> moves_in R (script (snd (round_trip p stmt w)))"
  proof (cases "script w")
    case (Cons e es)
    let ?d = "ev_move e (nodes w)"
    have d: "R (nodes w) ?d" "moves_in R es" using w Cons by simp_all
    then have "R (nodes w) (?d(p_dsn p := n))" if "stmt (ev_now e) (?d (p_dsn p)) = Inr (x, n)" for x n
      using assms [of "ev_now e" ?d x n, OF that] R_trans [OF d(1)] by blast
    then show ?thesis
      using d Cons by (auto simp: round_trip_def Let_def split: sum.splits)
  qed (simp add: round_trip_def R_refl)
qed

lemma guar_query_row: "guar R (query_row p q)"
  unfolding query_row_def by (rule guar_round_trip) (simp add: R_refl)

lemma guar_query_rows_at: "guar R (query_rows_at p q)"
proof (unfold guar_def, intro allI impI)
  fix w :: world assume w: "moves_in R (script w)"
  show "R (nodes w) (nodes (snd (query_rows_at p q w))) \<and> moves_in R (script (snd (query_rows_at p q w)))"
  proof (cases "script w")
    case (Cons e es)
    then show ?thesis
      using w by (auto simp: query_rows_at_def Let_def split: sum.splits reply.splits)
  qed (simp add: query_rows_at_def R_refl)
qed

lemma guar_query_rows: "guar R (query_rows p q)"
  unfolding query_rows_def by (rule guar_query_rows_at)

lemma guar_begin_func:
  assumes "tx_frame body"
    and "\<And>d es x T es'. body (tabs (d (p_dsn p)), es) = (Done (Inr x), T, es')
      \<Longrightarrow> R d (d(p_dsn p := (d (p_dsn p))\<lparr>tabs := T\<rparr>))"
  shows "guar R (begin_func p body)"
proof (unfold guar_def, intro allI impI)
  fix w :: world assume w: "moves_in R (script w)"
  show "R (nodes w) (nodes (snd (begin_func p body w))) \<and> moves_in R (script (snd (begin_func p body w)))"
  proof (cases "script w")
    case (Cons e es)
    let ?d = "ev_move e (nodes w)"
    have d: "R (nodes w) ?d" "moves_in R es" using w Cons by simp_all
    obtain r T es1 where body: "body (tabs (?d (p_dsn p)), es) = (r, T, es1)" by (metis prod_cases3)
    have "\<exists>k. es1 = drop k es" using assms(1) body unfolding tx_frame_def by (metis snd_conv)
    then have es1: "moves_in R es1" using d(2) unfolding moves_in_def by (auto dest: in_set_dropD)
    have "R (nodes w) (?d(p_dsn p := (?d (p_dsn p))\<lparr>tabs := T\<rparr>))" if "r = Done (Inr x)" for x
      using assms(2) body that d(1) R_trans by blast
    then show ?thesis
      using d es1 Cons body
      by (auto simp: begin_func_def Let_def split: outcome.splits sum.splits list.splits)
  qed (simp add: begin_func_def R_refl)
qed

lemma triple_ret: "(\<And>d. P d \<Longrightarrow> Q x d) \<Longrightarrow> triple R P (ret x) Q"
  by (auto simp: triple_def R_refl)

lemma triple_bind:
  assumes "triple R P m Q" and "\<And>x. triple R (Q x) (f x) Q'"
  shows "triple R P (bind_io m f) Q'"
proof (unfold triple_def, intro allI impI)
  fix w :: world assume w: "moves_in R (script w)" "P (nodes w)"
  obtain r w1 where m: "m w = (r, w1)" by (metis surj_pair)
  note t1 = tripleD [OF assms(1) w m]
  show "R (nodes w) (nodes (snd (bind_io m f w))) \<and> moves_in R (script (snd (bind_io m f w)))
     \<and> (\<forall>x. fst (bind_io m f w) = Done x \<longrightarrow> Q' x (nodes (snd (bind_io m f w))))"
  proof (cases r)
    case (Done x)
    obtain r2 w2 where f: "f x w1 = (r2, w2)" by (metis surj_pair)
    note t2 = tripleD [OF assms(2) t1(2) t1(3) [OF Done] f]
    show ?thesis using m f Done t2 R_trans [OF t1(1) t2(1)] by (simp add: bind_io_def)
  qed (use m t1 in \<open>simp_all add: bind_io_def\<close>)
qed

lemma triple_try:
  assumes "triple R P m Q" and "\<And>e. triple R (Q (Inl e)) (h e) Q'" and "\<And>x. triple R (Q (Inr x)) (f x) Q'"
  shows "triple R P (try_io m h f) Q'"
  unfolding try_io_def by (rule triple_bind [OF assms(1)]) (use assms(2,3) in \<open>auto split: sum.splits\<close>)

lemma triple_lift: "(\<And>x d. m = Inr x \<Longrightarrow> P d \<Longrightarrow> Q x d) \<Longrightarrow> triple R P (lift_go m) Q"
  by (cases m) (auto simp: triple_def lift_go_def R_refl)

text \<open>A loop keeps its invariant, which may depend on the elements still to come.\<close>

lemma triple_for:
  assumes "\<And>x xs s. triple R (I (x # xs) s) (body x s) (\<lambda>r d. case r of Inl e \<Rightarrow> Q (Inl e) d | Inr s' \<Rightarrow> I xs s' d)"
    and "\<And>s d. I [] s d \<Longrightarrow> Q (Inr s) d"
  shows "triple R (I xs s) (for_io body xs s) Q"
proof (induction xs arbitrary: s)
  case Nil
  show ?case unfolding for_io.simps by (rule triple_ret) (rule assms(2))
next
  case (Cons x xs)
  show ?case
    unfolding for_io.simps
  proof (rule triple_try [OF assms(1)])
    show "triple R (\<lambda>d. case Inl e of Inl e \<Rightarrow> Q (Inl e) d | Inr s' \<Rightarrow> I xs s' d) (ret (Inl e)) Q" for e
      by (rule triple_ret) simp
    show "triple R (\<lambda>d. case Inr s' of Inl e \<Rightarrow> Q (Inl e) d | Inr s' \<Rightarrow> I xs s' d) (for_io body xs s') Q" for s'
      using Cons.IH [of s'] by simp
  qed
qed

lemma triple_round_trip:
  assumes "stable R P"
    and "\<And>t d x n. P d \<Longrightarrow> stmt t (d (p_dsn p)) = Inr (x, n) \<Longrightarrow>
      R d (d(p_dsn p := n)) \<and> Q (Inr x) (d(p_dsn p := n)) \<and> Q (Inl EDriver) (d(p_dsn p := n))"
    and "\<And>d e. P d \<Longrightarrow> Q (Inl e) d"
  shows "triple R P (round_trip p stmt) Q"
proof (unfold triple_def, intro allI impI)
  fix w :: world assume w: "moves_in R (script w)" "P (nodes w)"
  show "R (nodes w) (nodes (snd (round_trip p stmt w))) \<and> moves_in R (script (snd (round_trip p stmt w)))
     \<and> (\<forall>x. fst (round_trip p stmt w) = Done x \<longrightarrow> Q x (nodes (snd (round_trip p stmt w))))"
  proof (cases "script w")
    case (Cons e es)
    let ?d = "ev_move e (nodes w)"
    have d: "R (nodes w) ?d" "moves_in R es" using w Cons by simp_all
    then have P: "P ?d" using w(2) assms(1) by (auto simp: stable_def)
    have "R (nodes w) (?d(p_dsn p := n)) \<and> Q (Inr x) (?d(p_dsn p := n)) \<and> Q (Inl EDriver) (?d(p_dsn p := n))"
      if "stmt (ev_now e) (?d (p_dsn p)) = Inr (x, n)" for x n
      using assms(2) [OF P that] R_trans [OF d(1)] by blast
    then show ?thesis
      using d Cons assms(3) [OF P] by (auto simp: round_trip_def Let_def split: sum.splits)
  qed (simp add: round_trip_def R_refl w)
qed

lemma triple_query_rows:
  assumes "stable R P"
    and "\<And>d rows k. P d \<Longrightarrow> q (d (p_dsn p)) = Inr rows \<Longrightarrow> Q (Inr (rows, None)) d \<and> Q (Inr (take k rows, Some EDriver)) d"
    and "\<And>d e. P d \<Longrightarrow> Q (Inl e) d"
  shows "triple R P (query_rows p q) Q"
proof (unfold triple_def, intro allI impI)
  fix w :: world assume w: "moves_in R (script w)" "P (nodes w)"
  show "R (nodes w) (nodes (snd (query_rows p q w))) \<and> moves_in R (script (snd (query_rows p q w)))
     \<and> (\<forall>x. fst (query_rows p q w) = Done x \<longrightarrow> Q x (nodes (snd (query_rows p q w))))"
  proof (cases "script w")
    case (Cons e es)
    let ?d = "ev_move e (nodes w)"
    have d: "R (nodes w) ?d" "moves_in R es" using w Cons by simp_all
    then have "P ?d" using w(2) assms(1) by (auto simp: stable_def)
    then show ?thesis
      using d Cons assms(2,3) [of ?d]
      by (auto simp: query_rows_def query_rows_at_def Let_def split: sum.splits reply.splits)
  qed (simp add: query_rows_def query_rows_at_def R_refl w)
qed

lemma triple_begin_func:
  assumes "stable R P" and "tx_frame body"
    and "\<And>d es x T es'. P d \<Longrightarrow> body (tabs (d (p_dsn p)), es) = (Done (Inr x), T, es') \<Longrightarrow>
      (let d' = d(p_dsn p := (d (p_dsn p))\<lparr>tabs := T\<rparr>) in R d d' \<and> Q (Inr x) d' \<and> Q (Inl EDriver) d')"
    and "\<And>d e. P d \<Longrightarrow> Q (Inl e) d"
  shows "triple R P (begin_func p body) Q"
proof (unfold triple_def, intro allI impI)
  fix w :: world assume w: "moves_in R (script w)" "P (nodes w)"
  show "R (nodes w) (nodes (snd (begin_func p body w))) \<and> moves_in R (script (snd (begin_func p body w)))
     \<and> (\<forall>x. fst (begin_func p body w) = Done x \<longrightarrow> Q x (nodes (snd (begin_func p body w))))"
  proof (cases "script w")
    case (Cons e es)
    let ?d = "ev_move e (nodes w)"
    have d: "R (nodes w) ?d" "moves_in R es" using w Cons by simp_all
    then have P: "P ?d" using w(2) assms(1) by (auto simp: stable_def)
    obtain r T es1 where body: "body (tabs (?d (p_dsn p)), es) = (r, T, es1)" by (metis prod_cases3)
    have "\<exists>k. es1 = drop k es" using assms(2) body unfolding tx_frame_def by (metis snd_conv)
    then have es1: "moves_in R es1" using d(2) unfolding moves_in_def by (auto dest: in_set_dropD)
    let ?d' = "?d(p_dsn p := (?d (p_dsn p))\<lparr>tabs := T\<rparr>)"
    have "R (nodes w) ?d' \<and> Q (Inr x) ?d' \<and> Q (Inl EDriver) ?d'" if "r = Done (Inr x)" for x
      using assms(3) [OF P body [unfolded that]] R_trans [OF d(1)] by (auto simp: Let_def)
    then show ?thesis
      using d es1 Cons body assms(4) [OF P]
      by (auto simp: begin_func_def Let_def split: outcome.splits sum.splits list.splits)
  qed (simp add: begin_func_def R_refl w)
qed

lemmas guar_rules = guar_ret guar_lift guar_bind guar_try guar_for guar_query_row guar_query_rows guar_query_rows_at

end

text \<open>Programs that only read: with no other client at work they leave the nodes alone.\<close>

interpretation read_only: rely "(=)"
  by unfold_locales simp_all

end
