(* ===== verification/Hash.thy ===== *)
theory Hash
  imports Prelude
begin

text \<open>
  The routing hash, \<open>src/internal/shard/hash.go\<close>: \<open>Key\<close> is FNV-1a (64 bit) of the
  tenant id's eight big-endian bytes.  \<open>encoding/binary\<close> and \<open>hash/fnv\<close> are
  standard library; what \<open>Key\<close> uses of them is written out here.

  The lemmas say what the code base relies on: one FNV-1a step is injective in
  the state and in the byte, so \<open>Key\<close> is injective on every aligned block of 256
  ids, and modulo \<open>2 ^ k\<close> it permutes every aligned block of \<open>2 ^ k\<close> ids.
\<close>

section \<open>The code\<close>

definition fnv_offset64 :: u64 where
  "fnv_offset64 = 14695981039346656037"

definition fnv_prime64 :: u64 where
  "fnv_prime64 = 1099511628211"

text \<open>\<open>binary.BigEndian.PutUint64(b[:], v)\<close>\<close>

definition putUint64 :: "u64 \<Rightarrow> 8 word list" where
  "putUint64 v = map (\<lambda>i. ucast (drop_bit (56 - 8 * i) v)) [0..<8]"

text \<open>One byte of \<open>h.Write\<close>: xor, then multiply.\<close>

definition fnv1a_step :: "u64 \<Rightarrow> 8 word \<Rightarrow> u64" where
  "fnv1a_step h b = (h XOR ucast b) * fnv_prime64"

definition Key :: "u64 \<Rightarrow> u64" where
  "Key tenantID = foldl fnv1a_step fnv_offset64 (putUint64 tenantID)"

section \<open>One step is injective\<close>

definition fnv_prime64_inv :: u64 where
  "fnv_prime64_inv = 14886173955864302971"

lemma fnv_prime64_inverse: "fnv_prime64 * fnv_prime64_inv = 1"
  by (simp add: fnv_prime64_def fnv_prime64_inv_def)

lemma fnv_prime64_mult_inv [simp]: "a * fnv_prime64 * fnv_prime64_inv = a"
  by (simp add: mult.assoc fnv_prime64_inverse)

lemma fnv_prime64_cancel [simp]:
  "a * fnv_prime64 = b * fnv_prime64 \<longleftrightarrow> a = b"
proof
  assume "a * fnv_prime64 = b * fnv_prime64"
  then have "a * fnv_prime64 * fnv_prime64_inv = b * fnv_prime64 * fnv_prime64_inv" by simp
  then show "a = b" by simp
qed simp

lemma fnv1a_step_inj:
  "fnv1a_step h b = fnv1a_step h' b \<longleftrightarrow> h = h'"
  by (simp add: fnv1a_step_def)

section \<open>The hash on an aligned block of 256 ids\<close>

text \<open>The state after the seven leading bytes: common to a block of 256 ids.\<close>

definition Key_state :: "u64 \<Rightarrow> u64" where
  "Key_state v = foldl fnv1a_step fnv_offset64 (butlast (putUint64 v))"

lemma putUint64_snoc: "putUint64 v = butlast (putUint64 v) @ [ucast v]"
  by (simp add: putUint64_def upt_rec)

lemma low_byte_u64: "(ucast (ucast v :: 8 word) :: u64) = take_bit 8 v"
  by (rule bit_word_eqI) (auto simp: bit_simps)

lemma Key_eq: "Key v = (Key_state v XOR take_bit 8 v) * fnv_prime64"
  by (subst Key_def, subst putUint64_snoc)
     (simp add: Key_state_def fnv1a_step_def low_byte_u64)

lemma Key_state_cong:
  assumes "drop_bit 8 v = drop_bit 8 w"
  shows "Key_state v = Key_state w"
proof -
  have "drop_bit (n + 8) v = drop_bit (n + 8) w" for n
    using arg_cong [OF assms, of "drop_bit n"] by (simp add: drop_bit_drop_bit)
  from this [of 0] this [of 8] this [of 16] this [of 24] this [of 32] this [of 40] this [of 48]
  have "butlast (putUint64 v) = butlast (putUint64 w)"
    by (simp add: putUint64_def upt_rec)
  then show ?thesis by (simp add: Key_state_def)
qed

text \<open>Within a block, \<open>Key\<close> keeps ids apart already in the low \<open>k\<close> bits.\<close>

lemma Key_low_bits_inj:
  assumes "drop_bit 8 v = drop_bit 8 w" and "k \<le> 8"
    and "take_bit k (Key v) = take_bit k (Key w)"
  shows "take_bit k v = take_bit k w"
proof -
  have "take_bit k (Key_state u XOR take_bit 8 u) = take_bit k (take_bit k (Key u) * fnv_prime64_inv)" for u
    by (simp add: Key_eq take_bit_mult_word)
  from this [of v] this [of w] assms(3)
  have "take_bit k (Key_state v XOR take_bit 8 v) = take_bit k (Key_state w XOR take_bit 8 w)"
    by simp
  then show ?thesis
    using assms(2) by (simp add: take_bit_xor Key_state_cong [OF assms(1)] take_bit_take_bit min_absorb1)
qed

lemma Key_inj_block:
  assumes "drop_bit 8 v = drop_bit 8 w" and "Key v = Key w"
  shows "v = w"
proof -
  have "take_bit 8 v = take_bit 8 w"
    using Key_low_bits_inj [OF assms(1), of 8] assms(2) by simp
  with assms(1) show ?thesis by (metis bits_ident)
qed

section \<open>The hash on virtual-node numbers \<open>shard << 32 | i\<close>\<close>

lemma putUint64_list:
  "putUint64 v = [ucast (drop_bit 56 v), ucast (drop_bit 48 v), ucast (drop_bit 40 v),
     ucast (drop_bit 32 v), ucast (drop_bit 24 v), ucast (drop_bit 16 v), ucast (drop_bit 8 v), ucast (drop_bit 0 v)]"
  by (simp add: putUint64_def upt_rec)

lemma vnode_bytes:
  "putUint64 (push_bit 32 (ucast (a :: 8 word)) OR ucast (b :: 8 word)) = [0,0,0,a,0,0,0,b]"
proof -
  have drop: "(ucast (drop_bit n (push_bit 32 (ucast a) OR ucast b :: u64)) :: 8 word)
      = (if n = 0 then b else if n = 32 then a else 0)" if "n \<in> {0,8,16,24,32,40,48,56}" for n
    using that by (intro bit_word_eqI) (auto simp: bit_simps dest: bit_imp_le_length)
  show ?thesis
    unfolding putUint64_list
    by (subst drop, simp)+ simp
qed

lemma Key_vnode:
  "Key (push_bit 32 (ucast (a :: 8 word)) OR ucast (b :: 8 word))
   = (((fnv_offset64 * fnv_prime64 ^ 3) XOR ucast a) * fnv_prime64 ^ 4 XOR ucast b) * fnv_prime64"
  unfolding Key_def vnode_bytes by (simp add: fnv1a_step_def eval_nat_numeral mult.assoc)

text \<open>Multiplying by \<open>fnv_prime64 ^ 4\<close> moves apart states that differ in the low byte.\<close>

lemma prime4_spread:
  "list_all (\<lambda>d. 256 \<le> (int d * 11527715348014283921) mod 2 ^ 64
      \<and> (int d * 11527715348014283921) mod 2 ^ 64 \<le> 2 ^ 64 - 256) [1..<256]"
  by code_simp

lemma prime4: "fnv_prime64 ^ 4 = 11527715348014283921"
  by (simp add: fnv_prime64_def)

lemma prime4_diff:
  assumes "1 \<le> d" "d < 256"
  shows "256 \<le> (d * 11527715348014283921) mod (2 ^ 64 :: int)
    \<and> (d * 11527715348014283921) mod 2 ^ 64 \<le> (2 ^ 64 - 256 :: int)"
proof -
  have "nat d \<in> set [1..<256]" using assms by auto
  with prime4_spread have "256 \<le> (int (nat d) * 11527715348014283921) mod 2 ^ 64
      \<and> (int (nat d) * 11527715348014283921) mod 2 ^ 64 \<le> 2 ^ 64 - 256"
    by (simp only: list_all_iff) 
  with assms show ?thesis by simp
qed

lemma uint_drop8_eq:
  "drop_bit 8 x = drop_bit 8 (y :: u64) \<Longrightarrow> \<bar>uint x - uint y\<bar> < 256"
proof -
  assume "drop_bit 8 x = drop_bit 8 y"
  then have "uint (drop_bit 8 x) = uint (drop_bit 8 y)" by simp
  then have "uint x div 256 = uint y div 256"
    by (simp add: drop_bit_eq_div uint_div)
  then show ?thesis by presburger
qed

lemma mult_prime4_drop8:
  assumes "drop_bit 8 x = drop_bit 8 (y :: u64)"
    and "drop_bit 8 (x * fnv_prime64 ^ 4) = drop_bit 8 (y * fnv_prime64 ^ 4)"
  shows "uint x \<le> uint y"
proof (rule ccontr)
  let ?P = "11527715348014283921 :: int" and ?M = "2 ^ 64 :: int"
  let ?A = "uint (x * fnv_prime64 ^ 4)" and ?B = "uint (y * fnv_prime64 ^ 4)"
  assume "\<not> uint x \<le> uint y"
  with uint_drop8_eq [OF assms(1)] have d: "1 \<le> uint x - uint y" "uint x - uint y < 256" by auto
  have "?A = (uint x * ?P) mod ?M" "?B = (uint y * ?P) mod ?M"
    by (simp_all add: prime4 uint_word_ariths)
  then have "(?A - ?B) mod ?M = ((uint x - uint y) * ?P) mod ?M"
    by (simp only: mod_diff_eq left_diff_distrib)
  with prime4_diff [OF d] have r: "256 \<le> (?A - ?B) mod ?M" "(?A - ?B) mod ?M \<le> ?M - 256" by auto
  have "\<bar>?A - ?B\<bar> < 256" by (rule uint_drop8_eq [OF assms(2)])
  with r show False by (cases "?A < ?B") (auto simp: mod_neg_small)
qed

lemma ucast_8_64_drop: "drop_bit 8 (ucast (b :: 8 word) :: u64) = 0"
  by (rule bit_word_eqI) (auto simp: bit_simps dest: bit_imp_le_length)

lemma ucast_8_64_inj: "(ucast (a :: 8 word) :: u64) = ucast b \<Longrightarrow> a = b"
proof -
  assume "(ucast a :: u64) = ucast b"
  then have "(ucast (ucast a :: u64) :: 8 word) = ucast (ucast b :: u64)" by simp
  then show "a = b" by (subst (asm) (1 2) ucast_up_ucast_id) (simp_all add: is_up_def target_size_def source_size_def word_size)
qed

text \<open>No two virtual nodes \<open>(shard, i)\<close> with both below 256 share a key.\<close>

lemma Key_vnode_inj:
  fixes a b a' b' :: "8 word"
  assumes "Key (push_bit 32 (ucast a) OR ucast b) = Key (push_bit 32 (ucast a') OR ucast b')"
  shows "a = a' \<and> b = b'"
proof -
  let ?x = "fnv_offset64 * fnv_prime64 ^ 3 XOR ucast a"
  let ?y = "fnv_offset64 * fnv_prime64 ^ 3 XOR ucast a'"
  from assms have eq: "?x * fnv_prime64 ^ 4 XOR ucast b = ?y * fnv_prime64 ^ 4 XOR ucast b'"
    by (simp only: Key_vnode fnv_prime64_cancel)
  from arg_cong [OF this, of "drop_bit 8"]
  have out: "drop_bit 8 (?x * fnv_prime64 ^ 4) = drop_bit 8 (?y * fnv_prime64 ^ 4)"
    by (simp add: drop_bit_xor ucast_8_64_drop)
  have "drop_bit 8 ?x = drop_bit 8 ?y"
    by (simp add: drop_bit_xor ucast_8_64_drop)
  with mult_prime4_drop8 [of ?x ?y] mult_prime4_drop8 [of ?y ?x] out
  have "uint ?x = uint ?y" by simp
  then have "?x = ?y" by (rule word_uint_eqI)
  then have "a = a'" by (simp only: xor_left_cancel_word) (rule ucast_8_64_inj)
  moreover from this eq have "b = b'"
    by (simp only: xor_left_cancel_word) (rule ucast_8_64_inj)
  ultimately show ?thesis ..
qed

end
