(* ===== verification/Topology.thy ===== *)
theory Topology
  imports Hash
begin

text \<open>
  What the routers of \<open>src/internal/shard/topology.go\<close> share, and the first of them, \<open>ModN\<close>.
  The contract of the \<open>Topology\<close> interface is the locale \<open>router\<close>; \<open>Ring\<close> and \<open>Directory\<close> have
  their own theories, and the interface itself is the datatype \<open>topology\<close> of the theory Router.
\<close>

section \<open>The contract of a topology\<close>

text \<open>
  What the callers of \<open>Topology\<close> rely on: a read goes to one shard, and the writes
  for the same tenant go to a list of shards that starts with that one.
\<close>

locale router =
  fixes route_read :: "u64 \<Rightarrow> int go"
    and route_write :: "u64 \<Rightarrow> int list go"
  assumes read_first: "route_write t = Inr ws \<Longrightarrow> \<exists>s rest. route_read t = Inr s \<and> ws = s # rest"
    and read_total: "route_read t = Inr s \<Longrightarrow> \<exists>ws. route_write t = Inr ws"
begin

lemma read_in_write: "route_write t = Inr ws \<Longrightarrow> route_read t = Inr s \<Longrightarrow> s \<in> set ws"
  using read_first by fastforce

lemma write_nonempty: "route_write t = Inr ws \<Longrightarrow> ws \<noteq> []"
  using read_first by fastforce

lemma write_panics_iff: "(\<exists>p. route_write t = Inl p) \<longleftrightarrow> (\<exists>p. route_read t = Inl p)"
  by (metis read_first read_total sum.exhaust sum.distinct(1))

end

section \<open>ModN\<close>

record modn =
  mod_N :: int

definition ModN_PhysicalCount :: "modn \<Rightarrow> int" where
  "ModN_PhysicalCount m = mod_N m"

text \<open>\<open>x % uint64(n)\<close>, converted back to \<open>int\<close>; a zero divisor panics.\<close>

definition go_umod :: "u64 \<Rightarrow> int \<Rightarrow> int go" where
  "go_umod x n = (if (word_of_int n :: u64) = 0 then Inl DivideByZero else Inr (sint (x mod word_of_int n)))"

definition ModN_RouteRead :: "modn \<Rightarrow> u64 \<Rightarrow> int go" where
  "ModN_RouteRead m t = go_umod (Key t) (mod_N m)"

definition ModN_RouteWrite :: "modn \<Rightarrow> u64 \<Rightarrow> int list go" where
  "ModN_RouteWrite m t = bind_go (ModN_RouteRead m t) (\<lambda>s. Inr [s])"

lemma single_write:
  "bind_go r (\<lambda>s. Inr [s]) = Inr ws \<Longrightarrow> \<exists>s. r = Inr s \<and> ws = [s]"
  "r = Inr s \<Longrightarrow> bind_go r (\<lambda>s. Inr [s]) = Inr [s]"
  by (auto simp: bind_go_Inr_iff)

interpretation modn_router: router "ModN_RouteRead m" "ModN_RouteWrite m"
  by unfold_locales (auto simp: ModN_RouteWrite_def dest: single_write)

lemma go_umod_pos:
  assumes "0 < n" "n < 2 ^ 63"
  shows "go_umod x n = Inr (uint x mod n)"
proof -
  have un: "uint (word_of_int n :: u64) = n"
    using assms by (simp add: unsigned_of_int take_bit_int_eq_self)
  then have nz: "(word_of_int n :: u64) \<noteq> 0" using assms(1) by (metis less_irrefl unsigned_0)
  have "uint (x mod word_of_int n) = uint x mod n" by (simp add: uint_mod un)
  moreover from this have "uint (x mod word_of_int n) < 2 ^ 63"
    using assms by (simp add: order_less_trans [OF pos_mod_bound])
  ultimately show ?thesis
    using uint_small_sint [of "x mod word_of_int n"] by (simp add: go_umod_def nz)
qed

lemma ModN_RouteRead_pos:
  "0 < mod_N m \<Longrightarrow> mod_N m < 2 ^ 63 \<Longrightarrow> ModN_RouteRead m t = Inr (uint (Key t) mod mod_N m)"
  by (simp add: ModN_RouteRead_def go_umod_pos)


text \<open>Doubling the shard count: a tenant stays, or moves to the one new shard \<open>s + n\<close>.\<close>

lemma mod_double:
  assumes "0 < n"
  shows "(x :: int) mod (2 * n) = x mod n \<or> x mod (2 * n) = x mod n + n"
proof -
  have "x mod (2 * n) mod n = x mod n" by (simp add: mod_mod_cancel)
  moreover have "0 \<le> x mod (2 * n)" "x mod (2 * n) < 2 * n" using assms by simp_all
  moreover have "y mod n = y \<or> y mod n = y - n" if "0 \<le> y" "y < 2 * n" for y
    using that assms mod_pos_pos_trivial [of "y - n" n] mod_add_self2 [of "y - n" n] by (cases "y < n") auto
  ultimately show ?thesis by (metis diff_add_cancel)
qed

text \<open>Doubling a mod-N cluster sends every tenant either to the shard it was on or to
  that shard's one new partner, never to another old shard.\<close>

theorem modn_doubling:
  assumes "0 < n" and "2 * n < 2 ^ 63"
  shows "\<exists>s. ModN_RouteRead \<lparr>mod_N = n\<rparr> t = Inr s \<and> 0 \<le> s \<and> s < n
    \<and> ModN_RouteRead \<lparr>mod_N = 2 * n\<rparr> t \<in> {Inr s, Inr (s + n)}"
  using assms mod_double [of n "uint (Key t)"] by (auto simp: ModN_RouteRead_pos)

lemma modn_doubling_witness:
  "\<exists>s. ModN_RouteRead \<lparr>mod_N = 4\<rparr> 42 = Inr s \<and> 0 \<le> s \<and> s < 4
    \<and> ModN_RouteRead \<lparr>mod_N = 8\<rparr> 42 \<in> {Inr s, Inr (s + 4)}"
  using modn_doubling [of 4 42] by simp

text \<open>An aligned block of \<open>2 ^ k\<close> ids, \<open>k \<le> 8\<close>: the offset is the low bits of the id.\<close>

lemma aligned_block:
  assumes "take_bit k base = 0" and "k \<le> 8" and "i < 2 ^ k"
  shows "take_bit k (base + word_of_nat i :: u64) = word_of_nat i"
    and "drop_bit 8 (base + word_of_nat i :: u64) = drop_bit 8 base"
proof -
  have i: "uint (word_of_nat i :: u64) < 2 ^ k"
  proof -
    have "(2::nat) ^ k \<le> 2 ^ 8" using assms(2) by (rule power_increasing) simp
    then show ?thesis using assms(3) by (simp add: unsigned_of_nat take_bit_nat_eq_self)
  qed
  then have bi: "bit (word_of_nat i :: u64) n \<Longrightarrow> n < k" for n
    by (rule uint_small_bits)
  have bb: "bit base n \<Longrightarrow> k \<le> n" for n
    using assms(1) by (metis bit_0_eq bit_take_bit_iff bot_apply bot_bool_def not_le)
  have or: "base + word_of_nat i = base OR word_of_nat i"
    by (rule or_eq_plus_disjoint [symmetric], rule bit_word_eqI)
       (use bi bb in \<open>force simp: bit_simps\<close>)
  show "take_bit k (base + word_of_nat i :: u64) = word_of_nat i"
    unfolding or by (rule bit_word_eqI) (use bi bb in \<open>force simp: bit_take_bit_iff bit_or_iff\<close>)
  show "drop_bit 8 (base + word_of_nat i :: u64) = drop_bit 8 base"
    unfolding or by (rule bit_word_eqI) (use bi assms(2) in \<open>force simp: bit_drop_bit_eq bit_or_iff\<close>)
qed

text \<open>Over \<open>2 ^ k\<close> shards (up to 256), every aligned block of \<open>2 ^ k\<close> consecutive
  tenant ids is spread perfectly evenly: each shard gets exactly one of them.\<close>

theorem modn_even_blocks:
  assumes "k \<le> 8" and "take_bit k base = 0"
  shows "bij_betw (\<lambda>i. ModN_RouteRead \<lparr>mod_N = 2 ^ k\<rparr> (base + word_of_nat i))
    {..<2 ^ k} (Inr ` {0..<2 ^ k})"
proof -
  let ?id = "\<lambda>i. base + word_of_nat i :: u64"
  let ?f = "\<lambda>i. ModN_RouteRead \<lparr>mod_N = 2 ^ k\<rparr> (?id i)"
  have k: "(2::int) ^ k \<le> 2 ^ 8" using assms(1) by (rule power_increasing) simp
  then have route: "?f i = Inr (uint (take_bit k (Key (?id i))))" for i
    by (simp add: ModN_RouteRead_pos unsigned_take_bit_eq flip: take_bit_eq_mod)
  have inj: "inj_on ?f {..<2 ^ k}"
  proof (rule inj_onI)
    fix i j assume ij: "i \<in> {..<2 ^ k}" "j \<in> {..<2 ^ k}" and "?f i = ?f j"
    then have low: "take_bit k (Key (?id i)) = take_bit k (Key (?id j))"
      by (auto simp: route intro: word_uint_eqI)
    have "drop_bit 8 (?id i) = drop_bit 8 (?id j)"
      using aligned_block(2) [OF assms(2,1)] ij by (simp only: lessThan_iff)
    from Key_low_bits_inj [OF this assms(1) low]
    have "take_bit k (?id i) = take_bit k (?id j)" .
    then have "(word_of_nat i :: u64) = word_of_nat j"
      using aligned_block(1) [OF assms(2,1)] ij by (simp only: lessThan_iff)
    then have "unat (word_of_nat i :: u64) = unat (word_of_nat j :: u64)" by simp
    moreover have "(2::nat) ^ k \<le> 2 ^ 8" using assms(1) by (rule power_increasing) simp
    ultimately show "i = j"
      using ij by (simp add: unsigned_of_nat take_bit_nat_eq_self)
  qed
  have sub: "?f ` {..<2 ^ k} \<subseteq> Inr ` {0..<2 ^ k}"
    by (auto simp: route unsigned_take_bit_eq)
  have "card (?f ` {..<2 ^ k}) = card (Inr ` {0..<2 ^ k :: int} :: int go set)"
    by (simp add: card_image inj nat_power_eq)
  with sub have "?f ` {..<2 ^ k} = Inr ` {0..<2 ^ k}"
    by (intro card_subset_eq) simp_all
  with inj show ?thesis by (simp add: bij_betw_def)
qed

lemma modn_even_blocks_witness:
  "bij_betw (\<lambda>i. ModN_RouteRead \<lparr>mod_N = 2 ^ 3\<rparr> (16 + word_of_nat i)) {..<2 ^ 3} (Inr ` {0..<2 ^ 3})"
  by (rule modn_even_blocks) (simp_all add: take_bit_eq_mod)

end
