(* ===== verification/Ring.thy ===== *)
theory Ring
  imports Topology
begin

text \<open>
  Consistent hashing, the \<open>Ring\<close> of \<open>src/internal/shard/topology.go\<close>: virtual
  nodes are points on the circle of 64-bit values, and a tenant belongs to the first point
  at or after its own position.

  \<open>sort.Slice\<close> promises a sorted permutation and nothing about ties; that contract is the
  locale \<open>slice_sorter\<close>, and the model runs the stable \<open>sort_key\<close>.
\<close>

section \<open>The code\<close>

record ringPoint =
  rp_hash :: u64
  rp_shard :: int

record ring =
  points :: "ringPoint list"
  shards :: "int list"
  vnodes :: int

definition ringPos :: "u64 \<Rightarrow> u64" where
  "ringPos x =
     (let x = x XOR drop_bit 33 x;
          x = x * 0xff51afd7ed558ccd;
          x = x XOR drop_bit 33 x;
          x = x * 0xc4ceb9fe1a85ec53
      in x XOR drop_bit 33 x)"

definition vnode_point :: "int \<Rightarrow> nat \<Rightarrow> ringPoint" where
  "vnode_point shard i =
     \<lparr>rp_hash = ringPos (Key (push_bit 32 (word_of_int shard) OR word_of_nat i)), rp_shard = shard\<rparr>"

definition sort_points :: "ringPoint list \<Rightarrow> ringPoint list" where
  "sort_points = sort_key rp_hash"

definition Add :: "ring \<Rightarrow> int \<Rightarrow> ring" where
  "Add r shard = r\<lparr>
     points := sort_points (points r @ map (vnode_point shard) [0..<nat (vnodes r)]),
     shards := shards r @ [shard]\<rparr>"

definition NewRing :: "int list \<Rightarrow> int \<Rightarrow> ring" where
  "NewRing ss vnodesPerShard = foldl Add \<lparr>points = [], shards = [], vnodes = vnodesPerShard\<rparr> ss"

definition Ring_PhysicalCount :: "ring \<Rightarrow> int" where
  "Ring_PhysicalCount r = int (length (shards r))"

text \<open>\<open>sort.Search(n, f)\<close>: the standard library's binary search for the least \<open>i\<close> with \<open>f i\<close>.\<close>

function search_loop :: "(nat \<Rightarrow> bool) \<Rightarrow> nat \<Rightarrow> nat \<Rightarrow> nat" where
  "search_loop f i j =
     (if i < j then
        let h = (i + j) div 2 in
        if \<not> f h then search_loop f (Suc h) j else search_loop f i h
      else i)"
  by pat_completeness auto
termination
  by (relation "measure (\<lambda>(f, i, j). j - i)") auto

declare search_loop.simps [simp del]

definition sort_Search :: "nat \<Rightarrow> (nat \<Rightarrow> bool) \<Rightarrow> nat" where
  "sort_Search n f = search_loop f 0 n"

definition ring_owner :: "ringPoint list \<Rightarrow> u64 \<Rightarrow> int" where
  "ring_owner ps h =
     (if length ps = 0 then 0
      else let i = sort_Search (length ps) (\<lambda>i. h \<le> rp_hash (ps ! i));
               i = (if i = length ps then 0 else i)
           in rp_shard (ps ! i))"

definition Ring_RouteRead :: "ring \<Rightarrow> u64 \<Rightarrow> int go" where
  "Ring_RouteRead r t = Inr (ring_owner (points r) (ringPos (Key t)))"

definition Ring_RouteWrite :: "ring \<Rightarrow> u64 \<Rightarrow> int list go" where
  "Ring_RouteWrite r t = bind_go (Ring_RouteRead r t) (\<lambda>s. Inr [s])"

interpretation ring_router: router "Ring_RouteRead r" "Ring_RouteWrite r"
  by unfold_locales (auto simp: Ring_RouteWrite_def Ring_RouteRead_def)

section \<open>The position function is a bijection\<close>

lemma xorshift33_self: "(x XOR drop_bit 33 x) XOR drop_bit 33 (x XOR drop_bit 33 x) = (x :: u64)"
  by (rule bit_word_eqI) (auto simp: bit_simps dest: bit_imp_le_length)

definition ringPos_inv :: "u64 \<Rightarrow> u64" where
  "ringPos_inv y =
     (let y = y XOR drop_bit 33 y;
          y = y * 11291846944257947611;
          y = y XOR drop_bit 33 y;
          y = y * 5725274745694666757
      in y XOR drop_bit 33 y)"

lemma fmix_multipliers:
  "(x :: u64) * 0xff51afd7ed558ccd * 5725274745694666757 = x"
  "(x :: u64) * 0xc4ceb9fe1a85ec53 * 11291846944257947611 = x"
  "(x :: u64) * 5725274745694666757 * 0xff51afd7ed558ccd = x"
  "(x :: u64) * 11291846944257947611 * 0xc4ceb9fe1a85ec53 = x"
proof -
  have "(0xff51afd7ed558ccd :: u64) * 5725274745694666757 = 1"
    and "(0xc4ceb9fe1a85ec53 :: u64) * 11291846944257947611 = 1"
    and "(5725274745694666757 :: u64) * 0xff51afd7ed558ccd = 1"
    and "(11291846944257947611 :: u64) * 0xc4ceb9fe1a85ec53 = 1"
    by simp_all
  then show "(x :: u64) * 0xff51afd7ed558ccd * 5725274745694666757 = x"
    and "(x :: u64) * 0xc4ceb9fe1a85ec53 * 11291846944257947611 = x"
    and "(x :: u64) * 5725274745694666757 * 0xff51afd7ed558ccd = x"
    and "(x :: u64) * 11291846944257947611 * 0xc4ceb9fe1a85ec53 = x"
    by (simp_all only: mult.assoc mult_1_right)
qed

lemma ringPos_inv_ringPos: "ringPos_inv (ringPos x) = x"
  by (simp only: ringPos_def ringPos_inv_def Let_def xorshift33_self fmix_multipliers)

lemma ringPos_ringPos_inv: "ringPos (ringPos_inv y) = y"
  by (simp only: ringPos_def ringPos_inv_def Let_def xorshift33_self fmix_multipliers)

lemma ringPos_inj: "ringPos x = ringPos y \<longleftrightarrow> x = y"
  by (metis ringPos_inv_ringPos)

section \<open>Binary search finds the first point\<close>

lemma search_loop_spec:
  assumes "i \<le> j" and "\<forall>a b. a \<le> b \<longrightarrow> b < n \<longrightarrow> f a \<longrightarrow> f b" and "j \<le> n"
    and "\<forall>k<i. \<not> f k" and "j < n \<longrightarrow> f j"
  shows "search_loop f i j \<le> n \<and> (\<forall>k < search_loop f i j. \<not> f k)
    \<and> (search_loop f i j < n \<longrightarrow> f (search_loop f i j))"
  using assms
proof (induction f i j rule: search_loop.induct)
  case (1 f i j)
  show ?case
  proof (cases "i < j")
    case True
    let ?h = "(i + j) div 2"
    have h: "i \<le> ?h" "?h < j" using True by auto
    show ?thesis
    proof (cases "f ?h")
      case fh: True
      then have "search_loop f i j = search_loop f i ?h"
        using True by (simp add: search_loop.simps [of f i j] Let_def)
      moreover have "?h \<le> n" using h "1.prems"(3) by simp
      ultimately show ?thesis
        using "1.IH"(2) [OF True refl _ h(1) "1.prems"(2) _ "1.prems"(4)] fh by simp
    next
      case fh: False
      then have step: "search_loop f i j = search_loop f (Suc ?h) j"
        using True by (simp add: search_loop.simps [of f i j] Let_def)
       have low: "\<forall>k<Suc ?h. \<not> f k"
      proof (intro allI impI notI)
        fix k assume "k < Suc ?h" "f k"
        moreover have "?h < n" using h "1.prems"(3) by simp
        ultimately have "f ?h" using "1.prems"(2) by (simp add: less_Suc_eq_le)
        with fh show False ..
      qed
      have "Suc ?h \<le> j" using h by simp
      from "1.IH"(1) [OF True refl fh this "1.prems"(2,3) low "1.prems"(5)]
      show ?thesis unfolding step .
    qed
  next
    case False
    then have "search_loop f i j = i" by (simp add: search_loop.simps [of f i j])
    then show ?thesis using False "1.prems" by simp
  qed
qed

lemma search_unique:
  assumes "k \<le> n" "\<forall>a<k. \<not> f a" "k < n \<longrightarrow> f k" and "\<forall>a b. a \<le> b \<longrightarrow> b < n \<longrightarrow> f a \<longrightarrow> f b"
  shows "sort_Search n f = k"
proof -
  let ?r = "sort_Search n f"
  have r: "?r \<le> n" "\<forall>a<?r. \<not> f a" "?r < n \<longrightarrow> f ?r"
    using search_loop_spec [of 0 n n f] assms(4) by (simp_all add: sort_Search_def)
  show ?thesis
  proof (cases rule: linorder_cases [of ?r k])
    case less
    then show ?thesis using r assms(1,2) by simp
  next
    case greater
    then show ?thesis using r assms(3) by simp
  qed
qed

text \<open>The owner is the first point at or after \<open>h\<close>, wrapping round to the first point.\<close>

lemma ring_owner_first:
  assumes "sorted (map rp_hash ps)" and "ps \<noteq> []"
  shows "ring_owner ps h = rp_shard (hd (filter (\<lambda>p. h \<le> rp_hash p) ps @ ps))"
proof -
  let ?f = "\<lambda>i. h \<le> rp_hash (ps ! i)"
  let ?k = "length (takeWhile (\<lambda>p. \<not> h \<le> rp_hash p) ps)"
  have k: "?k \<le> length ps" by (rule length_takeWhile_le)
  have search: "sort_Search (length ps) ?f = ?k"
  proof (rule search_unique [OF k])
    show "\<forall>a<?k. \<not> ?f a"
      by (metis nth_mem set_takeWhileD takeWhile_nth)
    show "?k < length ps \<longrightarrow> ?f ?k"
      using nth_length_takeWhile [of "\<lambda>p. \<not> h \<le> rp_hash p" ps] by simp
    show "\<forall>a b. a \<le> b \<longrightarrow> b < length ps \<longrightarrow> ?f a \<longrightarrow> ?f b"
      using sorted_nth_mono [OF assms(1)] by (auto intro: order_trans)
  qed
  have drop: "filter (\<lambda>p. h \<le> rp_hash p) ps = dropWhile (\<lambda>p. \<not> h \<le> rp_hash p) ps"
    using assms(1)
  proof (induction ps)
    case (Cons p ps)
    show ?case
    proof (cases "h \<le> rp_hash p")
      case True
      then have "filter (\<lambda>p. h \<le> rp_hash p) ps = ps"
        using Cons.prems by (auto simp: filter_id_conv)
      with True show ?thesis by simp
    qed (use Cons in simp)
  qed simp
  show ?thesis
  proof (cases "?k < length ps")
    case True
    then have "ps ! ?k = hd (dropWhile (\<lambda>p. \<not> h \<le> rp_hash p) ps)"
      by (simp add: dropWhile_eq_drop hd_drop_conv_nth)
    moreover have "dropWhile (\<lambda>p. \<not> h \<le> rp_hash p) ps \<noteq> []"
      using True by (simp add: dropWhile_eq_drop)
    ultimately show ?thesis
      using assms(2) True by (simp add: ring_owner_def search drop)
  next
    case False
    then have "?k = length ps" using k by simp
    moreover have d: "dropWhile (\<lambda>p. \<not> h \<le> rp_hash p) ps = []"
      using False by (simp add: dropWhile_eq_drop)
    ultimately show ?thesis
      unfolding drop d using assms(2) by (simp add: ring_owner_def search hd_conv_nth)
  qed
qed


text \<open>Seen from \<open>h\<close>, the owner is the point that comes first going round the circle.\<close>

definition clockwise :: "u64 \<Rightarrow> u64 \<Rightarrow> u64" where
  "clockwise h p = p - h"

lemma uint_clockwise: "uint (clockwise h p) = (if h \<le> p then uint p - uint h else uint p - uint h + 2 ^ 64)"
  by (auto simp: clockwise_def uint_sub_if' word_le_def)

lemma clockwise_le_iff:
  "clockwise h p \<le> clockwise h q \<longleftrightarrow> (if (h \<le> p) = (h \<le> q) then p \<le> q else h \<le> p)"
  by (auto simp: word_le_def [of "clockwise h p"] uint_clockwise word_le_def [of h] word_le_def [of p];
      use uint_64_bounds [of p] uint_64_bounds [of q] in linarith)

lemma ring_owner_clockwise:
  assumes "sorted (map rp_hash ps)" and "ps \<noteq> []"
  shows "\<exists>p\<in>set ps. ring_owner ps h = rp_shard p
    \<and> (\<forall>q\<in>set ps. clockwise h (rp_hash p) \<le> clockwise h (rp_hash q))"
proof -
  let ?P = "\<lambda>p. h \<le> rp_hash p"
  let ?p = "hd (filter ?P ps @ ps)"
  have mem: "?p \<in> set ps"
    using assms(2) by (cases "filter ?P ps") (auto dest: filter_eq_ConsD)
  have hd_le: "rp_hash (hd xs) \<le> rp_hash q" if "sorted (map rp_hash xs)" "q \<in> set xs" for xs q
    using that by (cases xs) auto
  have "clockwise h (rp_hash ?p) \<le> clockwise h (rp_hash q)" if q: "q \<in> set ps" for q
  proof (cases "filter ?P ps = []")
    case True
    then have "\<not> ?P ?p" "\<not> ?P q" using mem q by (auto simp: filter_empty_conv)
    then show ?thesis using True hd_le [OF assms(1) q] by (simp add: clockwise_le_iff)
  next
    case False
    then have "?p \<in> set (filter ?P ps)" by (cases "filter ?P ps") auto
    then have "?P ?p" by simp
    moreover have "rp_hash ?p \<le> rp_hash q" if "?P q"
      using hd_le [of "filter ?P ps" q] sorted_filter [OF assms(1)] q that False by simp
    ultimately show ?thesis by (simp add: clockwise_le_iff)
  qed
  with mem ring_owner_first [OF assms] show ?thesis by blast
qed

section \<open>Well-formed rings\<close>

definition wf_ring :: "ring \<Rightarrow> bool" where
  "wf_ring r \<longleftrightarrow> sorted (map rp_hash (points r)) \<and> rp_shard ` set (points r) \<subseteq> set (shards r)
     \<and> (0 < vnodes r \<longrightarrow> shards r \<noteq> [] \<longrightarrow> points r \<noteq> [])"

lemma sort_key_Nil_iff [simp]: "sort_key f xs = [] \<longleftrightarrow> xs = []"
  by (metis length_0_conv length_sort)

lemma set_sort_points [simp]: "set (sort_points ps) = set ps"
  by (simp add: sort_points_def)

lemma wf_Add [wf_intros]: "wf_ring r \<Longrightarrow> wf_ring (Add r s)"
  by (auto simp: wf_ring_def Add_def vnode_point_def sort_points_def)

lemma Add_fields [simp]: "shards (Add r s) = shards r @ [s]" "vnodes (Add r s) = vnodes r"
  by (simp_all add: Add_def)

lemma foldl_Add:
  "wf_ring r \<Longrightarrow> wf_ring (foldl Add r ss) \<and> shards (foldl Add r ss) = shards r @ ss
    \<and> vnodes (foldl Add r ss) = vnodes r"
  by (induction ss arbitrary: r) (simp_all add: wf_Add)

lemma wf_NewRing [wf_intros]: "wf_ring (NewRing ss n)" "shards (NewRing ss n) = ss" "vnodes (NewRing ss n) = n"
proof -
  have "wf_ring \<lparr>points = [], shards = [], vnodes = n\<rparr>" by (simp add: wf_ring_def)
  from foldl_Add [OF this, of ss] show "wf_ring (NewRing ss n)" "shards (NewRing ss n) = ss" "vnodes (NewRing ss n) = n"
    by (simp_all add: NewRing_def)
qed

section \<open>Adding a shard\<close>

text \<open>Stable sorting keeps the old head, unless a new element's key is smaller.\<close>

lemma hd_sort_key_append:
  assumes "sorted (map f xs)" and "xs \<noteq> []"
  shows "hd (sort_key f (xs @ ys)) = hd xs \<or> hd (sort_key f (xs @ ys)) \<in> set ys"
proof -
  let ?zs = "sort_key f (xs @ ys)" and ?m = "hd (sort_key f (xs @ ys))"
  let ?Q = "\<lambda>x. f x = f ?m"
  have ne: "?zs \<noteq> []" using assms(2) by simp
  then have m: "?m = hd (filter ?Q ?zs)" by (cases ?zs) auto
  then have m2: "?m = hd (filter ?Q xs @ filter ?Q ys)" by (simp only: sort_key_stable filter_append)
  have low: "f ?m \<le> f x" if "x \<in> set (xs @ ys)" for x
  proof -
    have "x \<in> set ?zs" using that by (simp only: set_sort)
    then show ?thesis using sorted_sort_key [of f "xs @ ys"] by (cases ?zs) auto
  qed
  show ?thesis
  proof (cases "filter ?Q xs")
    case Nil
    have "?m \<in> set (xs @ ys)" using ne by (metis hd_in_set set_sort)
    with Nil show ?thesis by (auto simp: filter_empty_conv)
  next
    case (Cons a as)
    then have "a \<in> set (filter ?Q xs)" by simp
    then have a: "a \<in> set xs" "f a = f ?m" by simp_all
    have am: "?m = a" using m2 Cons by simp
    have "f (hd xs) = f ?m"
      using assms low [of "hd xs"] a by (cases xs) (auto intro: antisym)
    then have "hd (filter ?Q xs) = hd xs" using assms(2) by (cases xs) auto
    with Cons am show ?thesis by simp
  qed
qed

lemma filter_sort_key: "filter P (sort_key f xs) = sort_key f (filter P xs)"
  by (rule filter_sort)

text \<open>
  After \<open>Add\<close>, the owner of a position is the new shard or the old owner.
\<close>

lemma owner_after_Add:
  assumes "wf_ring r" and "points r \<noteq> []"
  shows "ring_owner (points (Add r s)) h \<in> {s, ring_owner (points r) h}"
proof -
  let ?new = "map (vnode_point s) [0..<nat (vnodes r)]"
  let ?P = "\<lambda>p. h \<le> rp_hash p"
  have sorted: "sorted (map rp_hash (points r))" using assms(1) by (simp add: wf_ring_def)
  have pts: "points (Add r s) = sort_key rp_hash (points r @ ?new)"
    by (simp add: Add_def sort_points_def)
  have sorted': "sorted (map rp_hash (filter ?P (points r)))" using sorted_filter [OF sorted] .
  have new: "rp_shard p = s" if "p \<in> set ?new" for p using that by (auto simp: vnode_point_def)
  show ?thesis
  proof (cases "filter ?P (points r @ ?new) = []")
    case True
    then have "hd (filter ?P (points (Add r s)) @ points (Add r s)) = hd (points (Add r s))"
      and "hd (filter ?P (points r) @ points r) = hd (points r)"
      by (simp_all add: pts filter_sort_key)
    then show ?thesis
      using hd_sort_key_append [OF sorted assms(2), of ?new] new
      by (auto simp: ring_owner_first sorted assms(2) pts)
  next
    case False
    then have hd': "hd (filter ?P (points (Add r s)) @ points (Add r s))
        = hd (sort_key rp_hash (filter ?P (points r) @ filter ?P ?new))"
      by (simp add: pts filter_sort_key)
    show ?thesis
    proof (cases "filter ?P (points r) = []")
      case True
      then have "hd (sort_key rp_hash (filter ?P (points r) @ filter ?P ?new)) \<in> set (sort_key rp_hash (filter ?P ?new))"
        using False by (simp del: set_sort)
      then show ?thesis using hd' new by (auto simp: ring_owner_first pts assms(2))
    next
      case nonempty: False
      then show ?thesis
        using hd_sort_key_append [OF sorted' nonempty, of "filter ?P ?new"] hd' new
        by (auto simp: ring_owner_first sorted assms(2) pts)
    qed
  qed
qed

lemma route_after_Adds:
  assumes "wf_ring r" and "points r \<noteq> []"
  shows "ring_owner (points (foldl Add r new)) h \<in> insert (ring_owner (points r) h) (set new)"
  using assms
proof (induction new arbitrary: r)
  case (Cons s new)
  have "points (Add r s) \<noteq> []" using Cons.prems(2) by (simp add: Add_def sort_points_def)
  then have "ring_owner (points (foldl Add (Add r s) new)) h
      \<in> insert (ring_owner (points (Add r s)) h) (set new)"
    using Cons.IH [of "Add r s"] wf_Add Cons.prems(1) by blast
  then show ?case using owner_after_Add [OF Cons.prems, of s h] by auto
qed simp

section \<open>The contract of sort.Slice\<close>

text \<open>
  \<open>sort.Slice\<close> on the points promises a permutation ordered by hash; equal hashes may end
  up in any order.  Where the hashes are distinct that contract determines the result.
\<close>

locale slice_sorter =
  fixes srt :: "ringPoint list \<Rightarrow> ringPoint list"
  assumes srt_perm: "mset (srt ps) = mset ps"
    and srt_sorted: "sorted (map rp_hash (srt ps))"
begin

lemma srt_set: "set (srt ps) = set ps"
  using srt_perm by (metis set_mset_mset)

lemma srt_distinct: "distinct (map rp_hash (srt ps)) \<longleftrightarrow> distinct (map rp_hash ps)"
  by (rule mset_eq_imp_distinct_iff) (simp add: srt_perm)

lemma srt_unique:
  assumes "distinct (map rp_hash ps)" and "mset qs = mset ps"
  shows "srt qs = sort_key rp_hash ps"
proof (rule map_sorted_distinct_set_unique [of rp_hash])
  have set: "set (srt qs) = set ps" using assms(2) by (metis srt_set set_mset_mset)
  then show "inj_on rp_hash (set (srt qs) \<union> set (sort_key rp_hash ps))"
    using assms(1) by (simp add: distinct_map)
  have "distinct (map rp_hash qs)"
    using assms mset_eq_imp_distinct_iff [of "map rp_hash qs" "map rp_hash ps"] by (simp add: assms(2))
  then show "distinct (map rp_hash (srt qs))" by (simp add: srt_distinct)
  show "set (srt qs) = set (sort_key rp_hash ps)" using set by simp
  have "mset (map rp_hash (sort_key rp_hash ps)) = mset (map rp_hash ps)" by simp
  from mset_eq_imp_distinct_iff [OF this] assms(1)
  show "distinct (map rp_hash (sort_key rp_hash ps))" by simp
qed (simp_all add: srt_sorted)

end

interpretation stable_sorter: slice_sorter sort_points
  by unfold_locales (simp_all add: sort_points_def)

text \<open>The ring built with an arbitrary sorter.\<close>

definition Add_with :: "(ringPoint list \<Rightarrow> ringPoint list) \<Rightarrow> ring \<Rightarrow> int \<Rightarrow> ring" where
  "Add_with srt r shard = r\<lparr>
     points := srt (points r @ map (vnode_point shard) [0..<nat (vnodes r)]),
     shards := shards r @ [shard]\<rparr>"

definition NewRing_with :: "(ringPoint list \<Rightarrow> ringPoint list) \<Rightarrow> int list \<Rightarrow> int \<Rightarrow> ring" where
  "NewRing_with srt ss n = foldl (Add_with srt) \<lparr>points = [], shards = [], vnodes = n\<rparr> ss"

definition all_points :: "int list \<Rightarrow> int \<Rightarrow> ringPoint list" where
  "all_points ss n = concat (map (\<lambda>s. map (vnode_point s) [0..<nat n]) ss)"

lemma NewRing_with_stable: "NewRing ss n = NewRing_with sort_points ss n"
proof -
  have "Add = Add_with sort_points" by (intro ext) (simp add: Add_def Add_with_def)
  then show ?thesis by (simp add: NewRing_def NewRing_with_def)
qed

context slice_sorter
begin

lemma foldl_Add_with:
  "mset (points (foldl (Add_with srt) r ss)) = mset (points r) + mset (all_points ss (vnodes r))
   \<and> (sorted (map rp_hash (points r)) \<longrightarrow> sorted (map rp_hash (points (foldl (Add_with srt) r ss))))"
proof (induction ss arbitrary: r)
  case (Cons s ss)
  show ?case
    using Cons.IH [of "Add_with srt r s"] by (simp add: Add_with_def srt_perm srt_sorted all_points_def)
qed (simp add: all_points_def)

lemma NewRing_with_points:
  assumes "distinct (map rp_hash (all_points ss n))"
  shows "points (NewRing_with srt ss n) = sort_key rp_hash (all_points ss n)"
proof -
  let ?ps = "points (NewRing_with srt ss n)"
  have "mset ?ps = mset (all_points ss n)" and sorted: "sorted (map rp_hash ?ps)"
    using foldl_Add_with [of "\<lparr>points = [], shards = [], vnodes = n\<rparr>" ss] by (simp_all add: NewRing_with_def)
  then have "mset ?ps = mset (all_points ss n)" by simp
  from stable_sorter.srt_unique [OF assms this]
  have "sort_key rp_hash ?ps = sort_key rp_hash (all_points ss n)" by (simp add: sort_points_def)
  then show ?thesis using sort_key_id_if_sorted [OF sorted] by simp
qed

end

section \<open>Positions of up to 256 shards with up to 256 virtual nodes\<close>

lemma vnode_word:
  assumes "0 \<le> s" "s < 256" "i < 256"
  shows "push_bit 32 (word_of_int s) OR word_of_nat i
    = (push_bit 32 (ucast (word_of_int s :: 8 word)) OR ucast (word_of_nat i :: 8 word) :: u64)"
proof -
  have "(ucast (word_of_int s :: 8 word) :: u64) = word_of_int s"
    using assms by (intro word_uint_eqI) (simp add: unsigned_of_int unsigned_ucast_eq take_bit_int_eq_self)
  moreover have "(ucast (word_of_nat i :: 8 word) :: u64) = word_of_nat i"
    using assms by (intro word_uint_eqI) (simp add: unsigned_of_nat unsigned_ucast_eq take_bit_nat_eq_self)
  ultimately show ?thesis by simp
qed


lemma vnode_hash_inj:
  assumes "0 \<le> s" "s < 256" "i < 256" "0 \<le> s'" "s' < 256" "i' < 256"
    and "rp_hash (vnode_point s i) = rp_hash (vnode_point s' i')"
  shows "s = s' \<and> i = i'"
proof -
  have "Key (push_bit 32 (ucast (word_of_int s :: 8 word)) OR ucast (word_of_nat i :: 8 word))
      = Key (push_bit 32 (ucast (word_of_int s' :: 8 word)) OR ucast (word_of_nat i' :: 8 word))"
    using assms by (simp add: vnode_point_def ringPos_inj vnode_word)
  from Key_vnode_inj [OF this]
  have "uint (word_of_int s :: 8 word) = uint (word_of_int s' :: 8 word)"
    and "unat (word_of_nat i :: 8 word) = unat (word_of_nat i' :: 8 word)" by simp_all
  then show ?thesis
    using assms by (simp add: unsigned_of_int unsigned_of_nat take_bit_int_eq_self take_bit_nat_eq_self)
qed

lemma all_points_distinct:
  assumes "distinct ss" and "\<forall>s\<in>set ss. 0 \<le> s \<and> s < 256" and "n \<le> 256"
  shows "distinct (map rp_hash (all_points ss n))"
  using assms(1,2)
proof (induction ss)
  case (Cons s ss)
  let ?new = "map (rp_hash \<circ> vnode_point s) [0..<nat n]"
  have small: "i < 256" if "i < nat n" for i using that assms(3) by simp
  have "inj_on (rp_hash \<circ> vnode_point s) {..<nat n}"
    using Cons.prems(2) vnode_hash_inj [of s _ s] small by (auto intro!: inj_onI)
  then have "distinct ?new" by (simp add: distinct_map atLeast0LessThan)
  moreover have "set ?new \<inter> set (map rp_hash (all_points ss n)) = {}"
  proof -
    have False if "i < nat n" "s' \<in> set ss" "j < nat n"
      "rp_hash (vnode_point s i) = rp_hash (vnode_point s' j)" for i j s'
      using that vnode_hash_inj [of s i s' j] Cons.prems small by auto
    then show ?thesis by (force simp: all_points_def)
  qed
  ultimately show ?case using Cons by (simp add: all_points_def)
qed (simp add: all_points_def)

lemma mset_all_points:
  "mset (all_points ss n) = (\<Sum>s\<in>#mset ss. mset (map (vnode_point s) [0..<nat n]))"
proof -
  have "mset (all_points ss n) = sum_list (map (\<lambda>s. mset (map (vnode_point s) [0..<nat n])) ss)"
    by (simp add: all_points_def mset_concat comp_def)
  also have "\<dots> = sum_mset (mset (map (\<lambda>s. mset (map (vnode_point s) [0..<nat n])) ss))"
    by (rule sum_mset_sum_list [symmetric])
  finally show ?thesis by simp
qed

section \<open>Properties\<close>

text \<open>The position function (the fmix64 finalizer) is a bijection of the 64-bit values,
  with an explicit inverse: it never makes two different hashes collide on the circle.\<close>

theorem ringPos_bijective: "ringPos_inv (ringPos x) = x \<and> ringPos (ringPos_inv y) = y"
  by (simp add: ringPos_inv_ringPos ringPos_ringPos_inv)

text \<open>C29: On a ring built by \<open>NewRing\<close> with at least one shard and one virtual node, a
  tenant is routed to one of the shards: the one owning the point that is nearest clockwise
  from the tenant's position.\<close>

theorem ring_routes_clockwise:
  assumes "ss \<noteq> []" and "0 < n"
  shows "\<exists>p\<in>set (points (NewRing ss n)).
    Ring_RouteRead (NewRing ss n) t = Inr (rp_shard p) \<and> rp_shard p \<in> set ss
    \<and> (\<forall>q\<in>set (points (NewRing ss n)).
        clockwise (ringPos (Key t)) (rp_hash p) \<le> clockwise (ringPos (Key t)) (rp_hash q))"
proof -
  let ?r = "NewRing ss n"
  have "wf_ring ?r" "shards ?r = ss" "vnodes ?r = n" by (rule wf_NewRing)+
  with assms have "sorted (map rp_hash (points ?r))" "points ?r \<noteq> []"
    and sub: "rp_shard ` set (points ?r) \<subseteq> set ss" by (auto simp: wf_ring_def)
  from ring_owner_clockwise [OF this(1,2)] sub show ?thesis
    by (fastforce simp: Ring_RouteRead_def)
qed

lemma ring_routes_clockwise_witness:
  "\<exists>p\<in>set (points (NewRing [0, 1] 2)).
    Ring_RouteRead (NewRing [0, 1] 2) 42 = Inr (rp_shard p) \<and> rp_shard p \<in> set [0, 1]
    \<and> (\<forall>q\<in>set (points (NewRing [0, 1] 2)).
        clockwise (ringPos (Key 42)) (rp_hash p) \<le> clockwise (ringPos (Key 42)) (rp_hash q))"
  by (rule ring_routes_clockwise) simp_all



text \<open>C31: With up to 256 shards and 256 virtual nodes each, no two points of a ring share a
  position, so the ring does not depend on how \<open>sort.Slice\<close> orders ties, nor on the order
  in which the shards were added: two routers that build it differently hold the same points.\<close>

theorem ring_canonical:
  assumes "\<And>ps. mset (srt ps) = mset ps" and "\<And>ps. sorted (map rp_hash (srt ps))"
    and "distinct ss" and "\<forall>s\<in>set ss. 0 \<le> s \<and> s < 256" and "n \<le> 256"
    and "mset ss' = mset ss"
  shows "points (NewRing_with srt ss' n) = points (NewRing ss n)
    \<and> distinct (map rp_hash (points (NewRing ss n)))"
proof -
  have sorter: "slice_sorter srt" using assms(1,2) by unfold_locales
  have "distinct ss'" "set ss' = set ss"
    using assms(3,6) by (metis mset_eq_imp_distinct_iff, metis set_mset_mset)
  then have dist: "distinct (map rp_hash (all_points ss' n))" "distinct (map rp_hash (all_points ss n))"
    using all_points_distinct assms(3-5) by auto
  have perm: "mset (all_points ss' n) = mset (all_points ss n)"
    using assms(6) by (simp add: mset_all_points)
  have "sort_key rp_hash (all_points ss' n) = sort_key rp_hash (all_points ss n)"
    using stable_sorter.srt_unique [OF dist(2) perm] by (simp add: sort_points_def)
  moreover have "distinct (map rp_hash (sort_key rp_hash (all_points ss n)))"
    using stable_sorter.srt_distinct dist(2) by (simp add: sort_points_def)
  ultimately show ?thesis
    using slice_sorter.NewRing_with_points [OF sorter dist(1)]
      stable_sorter.NewRing_with_points [OF dist(2)]
    by (simp add: NewRing_with_stable)
qed

lemma ring_canonical_witness:
  "points (NewRing_with (\<lambda>ps. sort_key rp_hash (rev ps)) [2, 0, 1] 200) = points (NewRing [0, 1, 2] 200)
   \<and> distinct (map rp_hash (points (NewRing [0, 1, 2] 200)))"
  by (rule ring_canonical) simp_all

end
