(* ===== verification/Directory.thy ===== *)
theory Directory
  imports Topology
begin

text \<open>
  The placement map, \<open>Directory\<close> of \<open>src/internal/shard/topology.go\<close>: a
  tenant has a logical shard for ever, and the logical shard has a physical one that
  \<open>BeginMove\<close>, \<open>Commit\<close> and \<open>Pin\<close> edit.  A run of these operations is a step
  relation; the lemmas say what each leaves of the routing, and the dual-write window is
  proved to cover the cutover.
\<close>

section \<open>The code\<close>

record directory =
  LogicalCount :: int
  Placement :: "int list"
  Migrating :: "(int, int) gomap option"
  Pins :: "(u64, int) gomap option"

definition place :: "int \<Rightarrow> int \<Rightarrow> int \<Rightarrow> int go" where
  "place per physicalCount i =
     (if per = 0 then Inl DivideByZero
      else let p = go_div i per in
           Inr (if p \<ge> physicalCount then physicalCount - 1 else p))"

definition NewDirectory :: "int \<Rightarrow> int \<Rightarrow> directory go" where
  "NewDirectory logicalCount physicalCount =
     (if logicalCount < 0 then Inl MakeSliceOutOfRange
      else if physicalCount = 0 then Inl DivideByZero
      else bind_go (mapM_go (place (go_div logicalCount physicalCount) physicalCount) [0..logicalCount - 1])
        (\<lambda>pl. Inr \<lparr>LogicalCount = logicalCount, Placement = pl, Migrating = Some [], Pins = Some []\<rparr>))"

definition Directory_PhysicalCount :: "directory \<Rightarrow> int" where
  "Directory_PhysicalCount d =
     int (length (remdups (Placement d @ map snd (gomap_of (Migrating d)))))"

definition Logical :: "directory \<Rightarrow> u64 \<Rightarrow> int go" where
  "Logical d tenantID = go_umod (Key tenantID) (LogicalCount d)"

definition Directory_RouteRead :: "directory \<Rightarrow> u64 \<Rightarrow> int go" where
  "Directory_RouteRead d tenantID =
     (case map_of (gomap_of (Pins d)) tenantID of
        Some p \<Rightarrow> Inr p
      | None \<Rightarrow> bind_go (Logical d tenantID) (go_index (Placement d)))"

definition Directory_RouteWrite :: "directory \<Rightarrow> u64 \<Rightarrow> int list go" where
  "Directory_RouteWrite d tenantID =
     bind_go (Directory_RouteRead d tenantID) (\<lambda>src.
       if map_of (gomap_of (Pins d)) tenantID \<noteq> None then Inr [src]
       else bind_go (Logical d tenantID) (\<lambda>l.
         case map_of (gomap_of (Migrating d)) l of
           Some dst \<Rightarrow> if dst \<noteq> src then Inr [src, dst] else Inr [src]
         | None \<Rightarrow> Inr [src]))"

definition BeginMove :: "directory \<Rightarrow> int \<Rightarrow> int \<Rightarrow> directory" where
  "BeginMove d logical target =
     d\<lparr>Migrating := Some (AList.update logical target (gomap_of (Migrating d)))\<rparr>"

definition Commit :: "directory \<Rightarrow> int \<Rightarrow> directory go" where
  "Commit d logical =
     (case map_of (gomap_of (Migrating d)) logical of
        Some target \<Rightarrow>
          bind_go (go_assign (Placement d) logical target) (\<lambda>pl.
            Inr (d\<lparr>Placement := pl, Migrating := map_option (AList.delete logical) (Migrating d)\<rparr>))
      | None \<Rightarrow> Inr d)"

definition Pin :: "directory \<Rightarrow> u64 \<Rightarrow> int \<Rightarrow> directory" where
  "Pin d tenantID physical =
     d\<lparr>Pins := Some (AList.update tenantID physical (gomap_of (Pins d)))\<rparr>"

definition LogicalsOn :: "directory \<Rightarrow> int \<Rightarrow> int list" where
  "LogicalsOn d physical =
     map (\<lambda>(l, p). int l) (filter (\<lambda>(l, p). p = physical) (List.enumerate 0 (Placement d)))"

interpretation directory_router: router "Directory_RouteRead d" "Directory_RouteWrite d"
proof
  fix t ws assume "Directory_RouteWrite d t = Inr ws"
  then show "\<exists>s rest. Directory_RouteRead d t = Inr s \<and> ws = s # rest"
    by (auto simp: Directory_RouteWrite_def bind_go_Inr_iff split: if_splits option.splits)
next
  fix t s assume read: "Directory_RouteRead d t = Inr s"
  show "\<exists>ws. Directory_RouteWrite d t = Inr ws"
  proof (cases "map_of (gomap_of (Pins d)) t")
    case None
    with read obtain l where "Logical d t = Inr l"
      by (auto simp: Directory_RouteRead_def bind_go_Inr_iff)
    with None read show ?thesis by (auto simp: Directory_RouteWrite_def split: option.splits)
  qed (use read in \<open>simp add: Directory_RouteWrite_def\<close>)
qed

section \<open>Well-formed directories\<close>

definition wf_dir :: "directory \<Rightarrow> bool" where
  "wf_dir d \<longleftrightarrow> 0 < LogicalCount d \<and> LogicalCount d < 2 ^ 63
     \<and> int (length (Placement d)) = LogicalCount d
     \<and> go_map_ok (gomap_of (Migrating d)) \<and> go_map_ok (gomap_of (Pins d))
     \<and> (\<forall>l target. map_of (gomap_of (Migrating d)) l = Some target \<longrightarrow> 0 \<le> l \<and> l < LogicalCount d)"

text \<open>The logical shard as a number, the operations' common abbreviation.\<close>

definition logical_of :: "directory \<Rightarrow> u64 \<Rightarrow> int" where
  "logical_of d t = uint (Key t) mod LogicalCount d"

lemma Logical_wf: "wf_dir d \<Longrightarrow> Logical d t = Inr (logical_of d t)"
  by (simp add: wf_dir_def Logical_def logical_of_def go_umod_pos)

lemma logical_of_range:
  "wf_dir d \<Longrightarrow> 0 \<le> logical_of d t \<and> logical_of d t < LogicalCount d"
  by (simp add: wf_dir_def logical_of_def)

lemma nat_logical_of: "wf_dir d \<Longrightarrow> nat (logical_of d t) < length (Placement d)"
  using logical_of_range [of d t] by (auto simp: wf_dir_def)

lemma RouteRead_wf [spec_simps]:
  "wf_dir d \<Longrightarrow> Directory_RouteRead d t =
     Inr (case map_of (gomap_of (Pins d)) t of Some p \<Rightarrow> p | None \<Rightarrow> Placement d ! nat (logical_of d t))"
  using logical_of_range [of d t] nat_logical_of [of d t]
  by (auto simp: Directory_RouteRead_def Logical_wf go_index_def split: option.splits)

lemma RouteWrite_wf [spec_simps]:
  "wf_dir d \<Longrightarrow> Directory_RouteWrite d t =
     Inr (case map_of (gomap_of (Pins d)) t of Some p \<Rightarrow> [p]
       | None \<Rightarrow> let src = Placement d ! nat (logical_of d t) in
          case map_of (gomap_of (Migrating d)) (logical_of d t) of
            Some dst \<Rightarrow> if dst \<noteq> src then [src, dst] else [src]
          | None \<Rightarrow> [src])"
  by (auto simp: Directory_RouteWrite_def RouteRead_wf Logical_wf Let_def split: option.splits)

lemma wf_BeginMove [wf_intros]:
  "wf_dir d \<Longrightarrow> 0 \<le> l \<Longrightarrow> l < LogicalCount d \<Longrightarrow> wf_dir (BeginMove d l target)"
  by (auto simp: wf_dir_def BeginMove_def map_of_alist_update)

lemma wf_Pin [wf_intros]: "wf_dir d \<Longrightarrow> wf_dir (Pin d t p)"
  by (simp add: wf_dir_def Pin_def)

lemma Commit_wf:
  assumes "wf_dir d"
  shows "Commit d l = Inr (case map_of (gomap_of (Migrating d)) l of
      Some target \<Rightarrow> d\<lparr>Placement := (Placement d)[nat l := target],
                        Migrating := map_option (AList.delete l) (Migrating d)\<rparr>
    | None \<Rightarrow> d)"
proof (cases "map_of (gomap_of (Migrating d)) l")
  case (Some target)
  with assms show ?thesis by (auto simp: Commit_def go_assign_def wf_dir_def)
qed (simp add: Commit_def)

lemma gomap_of_map_option [simp]: "gomap_of (map_option (AList.delete l) m) = AList.delete l (gomap_of m)"
  by (cases m) simp_all

lemma wf_Commit: "wf_dir d \<Longrightarrow> Commit d l = Inr d' \<Longrightarrow> wf_dir d'"
  by (auto simp: Commit_wf wf_dir_def map_of_alist_delete split: option.splits if_splits)


text \<open>What a commit does to each field.\<close>

lemma Commit_total: "wf_dir d \<Longrightarrow> \<exists>d'. Commit d l = Inr d'"
  by (simp add: Commit_wf)

lemma Commit_view:
  assumes "wf_dir d" and "Commit d l = Inr d'"
  shows "Pins d' = Pins d" and "LogicalCount d' = LogicalCount d"
    and "map_of (gomap_of (Migrating d')) k = (if k = l then None else map_of (gomap_of (Migrating d)) k)"
    and "0 \<le> i \<Longrightarrow> i < LogicalCount d \<Longrightarrow> Placement d' ! nat i =
      (if i = l then case map_of (gomap_of (Migrating d)) l of Some target \<Rightarrow> target
          | None \<Rightarrow> Placement d ! nat i
       else Placement d ! nat i)"
proof -
  have window: "map_of (gomap_of (Migrating d)) l = Some target \<Longrightarrow> 0 \<le> l" for target
    using assms(1) by (auto simp: wf_dir_def)
  have len: "int (length (Placement d)) = LogicalCount d" using assms(1) by (simp add: wf_dir_def)
  show "Pins d' = Pins d" "LogicalCount d' = LogicalCount d"
    "map_of (gomap_of (Migrating d')) k = (if k = l then None else map_of (gomap_of (Migrating d)) k)"
    using assms by (auto simp: Commit_wf map_of_alist_delete split: option.splits)
  show "0 \<le> i \<Longrightarrow> i < LogicalCount d \<Longrightarrow> Placement d' ! nat i =
      (if i = l then case map_of (gomap_of (Migrating d)) l of Some target \<Rightarrow> target
          | None \<Rightarrow> Placement d ! nat i
       else Placement d ! nat i)"
    using assms window len by (auto simp: Commit_wf nth_list_update eq_nat_nat_iff split: option.splits)
qed

section \<open>Runs of operations\<close>

datatype dir_op = OpBeginMove int int | OpCommit int | OpPin u64 int

fun dir_apply :: "directory \<Rightarrow> dir_op \<Rightarrow> directory go" where
  "dir_apply d (OpBeginMove l target) = Inr (BeginMove d l target)"
| "dir_apply d (OpCommit l) = Commit d l"
| "dir_apply d (OpPin t p) = Inr (Pin d t p)"

inductive dir_steps :: "directory \<Rightarrow> dir_op list \<Rightarrow> directory \<Rightarrow> bool" where
  dir_done: "dir_steps d [] d"
| dir_step: "dir_apply d op = Inr d1 \<Longrightarrow> dir_steps d1 ops d2 \<Longrightarrow> dir_steps d (op # ops) d2"

inductive_cases dir_steps_NilE [elim!]: "dir_steps d [] d'"
inductive_cases dir_steps_ConsE [elim!]: "dir_steps d (op # ops) d'"

text \<open>Operations whose logical shard exists, as the callers choose them.\<close>

fun op_ok :: "directory \<Rightarrow> dir_op \<Rightarrow> bool" where
  "op_ok d (OpBeginMove l target) \<longleftrightarrow> 0 \<le> l \<and> l < LogicalCount d"
| "op_ok d (OpCommit l) \<longleftrightarrow> True"
| "op_ok d (OpPin t p) \<longleftrightarrow> True"

text \<open>Operations that leave a logical shard's window and a tenant's pin alone.\<close>

fun op_leaves :: "int \<Rightarrow> u64 \<Rightarrow> dir_op \<Rightarrow> bool" where
  "op_leaves l t (OpBeginMove l' target) \<longleftrightarrow> l' \<noteq> l"
| "op_leaves l t (OpCommit l') \<longleftrightarrow> l' \<noteq> l"
| "op_leaves l t (OpPin t' p) \<longleftrightarrow> t' \<noteq> t"

lemma op_ok_cong: "LogicalCount d' = LogicalCount d \<Longrightarrow> op_ok d' op = op_ok d op"
  by (cases op) simp_all

lemma BeginMove_count [simp]: "LogicalCount (BeginMove d l target) = LogicalCount d"
  by (simp add: BeginMove_def)

lemma dir_apply_count: "dir_apply d op = Inr d' \<Longrightarrow> LogicalCount d' = LogicalCount d"
  by (cases op) (auto simp: BeginMove_def Pin_def Commit_def bind_go_Inr_iff split: option.splits)

lemma dir_apply_wf: "wf_dir d \<Longrightarrow> op_ok d op \<Longrightarrow> dir_apply d op = Inr d' \<Longrightarrow> wf_dir d'"
  by (cases op) (auto intro: wf_intros wf_Commit)

lemma dir_steps_wf:
  "dir_steps d ops d' \<Longrightarrow> wf_dir d \<Longrightarrow> \<forall>op\<in>set ops. op_ok d op
   \<Longrightarrow> wf_dir d' \<and> LogicalCount d' = LogicalCount d"
proof (induction rule: dir_steps.induct)
  case (dir_step d op d1 ops d2)
  have count: "LogicalCount d1 = LogicalCount d" using dir_step.hyps(1) by (rule dir_apply_count)
  then have "op_ok d1 op' = op_ok d op'" for op' by (rule op_ok_cong)
  with dir_step dir_apply_wf count show ?case by (metis list.set_intros)
qed simp

lemma dir_steps_logical: "dir_steps d ops d' \<Longrightarrow> Logical d' t = Logical d t"
  by (induction rule: dir_steps.induct) (simp_all add: Logical_def dir_apply_count)

text \<open>What the operations that leave \<open>l\<close> and \<open>t\<close> alone keep.\<close>

lemma dir_apply_leaves:
  assumes "wf_dir d" "dir_apply d op = Inr d'" "op_leaves l t op" "0 \<le> l"
  shows "map_of (gomap_of (Migrating d')) l = map_of (gomap_of (Migrating d)) l
    \<and> Placement d' ! nat l = Placement d ! nat l
    \<and> map_of (gomap_of (Pins d')) t = map_of (gomap_of (Pins d)) t"
proof (cases op)
  case (OpCommit l')
  show ?thesis
  proof (cases "map_of (gomap_of (Migrating d)) l'")
    case (Some target)
    then have "0 \<le> l'" using assms(1) by (auto simp: wf_dir_def)
    with Some OpCommit assms show ?thesis
      by (auto simp: Commit_wf map_of_alist_delete nth_list_update_neq)
  qed (use OpCommit assms in \<open>simp add: Commit_wf\<close>)
qed (use assms in \<open>auto simp: BeginMove_def Pin_def map_of_alist_update\<close>)

lemma dir_steps_leaves:
  "dir_steps d ops d' \<Longrightarrow> wf_dir d \<Longrightarrow> \<forall>op\<in>set ops. op_ok d op \<and> op_leaves l t op \<Longrightarrow> 0 \<le> l \<Longrightarrow>
   map_of (gomap_of (Migrating d')) l = map_of (gomap_of (Migrating d)) l
    \<and> Placement d' ! nat l = Placement d ! nat l
    \<and> map_of (gomap_of (Pins d')) t = map_of (gomap_of (Pins d)) t"
proof (induction rule: dir_steps.induct)
  case (dir_step d op d1 ops d2)
  have "LogicalCount d1 = LogicalCount d" using dir_step.hyps(1) by (rule dir_apply_count)
  then have "op_ok d1 op' = op_ok d op'" for op' by (rule op_ok_cong)
  moreover have "wf_dir d1" using dir_step.prems dir_step.hyps(1) by (auto intro: dir_apply_wf)
  ultimately show ?case
    using dir_step.IH dir_apply_leaves [of d op d1 l t] dir_step.prems dir_step.hyps(1) by simp
qed simp

text \<open>
  No acknowledged write is routed away: whatever operation comes next, the shard that
  reads a tenant afterwards is one that every write before it reached.  The one exception is
  pinning that tenant itself, which redirects its reads with no window.\<close>

lemma reads_follow_writes:
  assumes "wf_dir d" and "op_ok d op" and "dir_apply d op = Inr d'"
    and "\<forall>p. op \<noteq> OpPin t p"
  shows "\<exists>ws s. Directory_RouteWrite d t = Inr ws \<and> Directory_RouteRead d' t = Inr s \<and> s \<in> set ws"
proof -
  have wf': "wf_dir d'" using assms(1-3) by (rule dir_apply_wf)
  have count: "logical_of d' t = logical_of d t"
    using dir_apply_count [OF assms(3)] by (simp add: logical_of_def)
  note routes = RouteRead_wf [OF wf'] RouteWrite_wf [OF assms(1)] count Let_def
  show ?thesis
  proof (cases op)
    case (OpCommit l)
    then have "Commit d l = Inr d'" using assms(3) by simp
    note view = Commit_view [OF assms(1) this]
    show ?thesis
      using logical_of_range [OF assms(1), of t]
      by (simp add: routes view split: option.splits)
  qed (use assms(3,4) in \<open>auto simp: routes BeginMove_def Pin_def map_of_alist_update split: option.splits\<close>)
qed

section \<open>The initial placement\<close>

definition range_of :: "int \<Rightarrow> int \<Rightarrow> int \<Rightarrow> int" where
  "range_of per P i = min (i div per) (P - 1)"

lemma place_nonneg: "0 < per \<Longrightarrow> 0 \<le> i \<Longrightarrow> place per P i = Inr (range_of per P i)"
  by (simp add: place_def go_div_nonneg range_of_def min_def)

lemma NewDirectory_placement:
  assumes "0 < P" "P \<le> L"
  shows "NewDirectory L P =
    Inr \<lparr>LogicalCount = L, Placement = map (range_of (L div P) P) [0..L - 1],
         Migrating = Some [], Pins = Some []\<rparr>"
proof -
  have per: "0 < L div P" using assms by (simp add: pos_imp_zdiv_pos_iff)
  then have "mapM_go (place (L div P) P) [0..L - 1] = Inr (map (range_of (L div P) P) [0..L - 1])"
    by (intro mapM_go_Inr place_nonneg) auto
  with assms show ?thesis by (simp add: NewDirectory_def go_div_nonneg)
qed

lemma range_of_mono: "0 < per \<Longrightarrow> i \<le> j \<Longrightarrow> range_of per P i \<le> range_of per P j"
  using zdiv_mono1 [of i j per] by (auto simp: range_of_def)

lemma int_div_eq_iff: "0 < (c :: int) \<Longrightarrow> a div c = b \<longleftrightarrow> b * c \<le> a \<and> a < (b + 1) * c"
proof
  assume c: "0 < c" and "a div c = b"
  then have "a = b * c + a mod c" by (metis div_mult_mod_eq)
  with c pos_mod_bound [of c a] pos_mod_sign [of c a] show "b * c \<le> a \<and> a < (b + 1) * c"
    unfolding distrib_right mult_1_left by linarith
next
  assume c: "0 < c" and "b * c \<le> a \<and> a < (b + 1) * c"
  then have "0 \<le> a - b * c" "a - b * c < c" unfolding distrib_right mult_1_left by linarith+
  then show "a div c = b"
    by (intro int_div_pos_eq [of a c b "a - b * c"]) (simp_all add: mult.commute)
qed

lemma range_of_eq_iff:
  assumes "0 < per" "0 \<le> p" "p < P - 1"
  shows "range_of per P i = p \<longleftrightarrow> p * per \<le> i \<and> i < (p + 1) * per"
proof -
  have "range_of per P i = p \<longleftrightarrow> i div per = p" using assms(2,3) by (auto simp: range_of_def)
  then show ?thesis by (simp only: int_div_eq_iff [OF assms(1)])
qed


lemma range_of_image:
  assumes "0 < P" "P \<le> L"
  shows "range_of (L div P) P ` {0..L - 1} = {0..P - 1}"
proof (intro equalityI subsetI)
  fix p assume p: "p \<in> {0..P - 1}"
  let ?i = "p * (L div P)"
  have per: "0 < L div P" using assms by (simp add: pos_imp_zdiv_pos_iff)
  have "?i + L div P \<le> P * (L div P)"
    using p per mult_right_mono [of "p + 1" P "L div P"] by (simp add: distrib_right)
  also have "\<dots> \<le> L" using assms(1) by (metis mult.commute div_mult_mod_eq le_add_same_cancel1 pos_mod_sign)
  finally have "?i \<in> {0..L - 1}" using p per by simp
  moreover have "p = range_of (L div P) P ?i" using p per by (simp add: range_of_def)
  ultimately show "p \<in> range_of (L div P) P ` {0..L - 1}" by blast
next
  fix p assume "p \<in> range_of (L div P) P ` {0..L - 1}"
  then show "p \<in> {0..P - 1}"
    using assms by (auto simp: range_of_def pos_imp_zdiv_nonneg_iff pos_imp_zdiv_pos_iff)
qed

section \<open>Properties\<close>

text \<open>A new directory over \<open>P\<close> physical and at least as many logical shards is well
  formed and places contiguous, ascending ranges: exactly the physical shards
  \<open>0..P-1\<close> are used, and each but the last holds the \<open>L div P\<close> logical shards from
  \<open>p * (L div P)\<close> on.\<close>

theorem NewDirectory_contiguous:
  assumes "0 < P" and "P \<le> L" and "L < 2 ^ 63"
  shows "\<exists>d. NewDirectory L P = Inr d \<and> wf_dir d \<and> LogicalCount d = L
    \<and> sorted (Placement d) \<and> set (Placement d) = {0..P - 1}
    \<and> (\<forall>l p. 0 \<le> l \<longrightarrow> l < L \<longrightarrow> 0 \<le> p \<longrightarrow> p < P - 1 \<longrightarrow>
        (Placement d ! nat l = p \<longleftrightarrow> p * (L div P) \<le> l \<and> l < (p + 1) * (L div P)))
    \<and> Directory_PhysicalCount d = P"
proof -
  let ?pl = "map (range_of (L div P) P) [0..L - 1]"
  let ?d = "\<lparr>LogicalCount = L, Placement = ?pl, Migrating = Some [], Pins = Some []\<rparr>"
  have per: "0 < L div P" using assms by (simp add: pos_imp_zdiv_pos_iff)
  have set: "set ?pl = {0..P - 1}" using range_of_image [OF assms(1,2)] by simp
  have nth: "?pl ! nat l = range_of (L div P) P l" if "0 \<le> l" "l < L" for l
    using that by (simp add: nth_upto)
  have "sorted_wrt (\<lambda>x y. range_of (L div P) P x \<le> range_of (L div P) P y) [0..L - 1]"
    by (rule sorted_wrt_mono_rel [OF _ sorted_upto]) (simp add: range_of_mono per)
  then have "sorted ?pl" by (simp add: sorted_wrt_map)
  moreover have "Directory_PhysicalCount ?d = P"
    using set assms(1) by (simp add: Directory_PhysicalCount_def length_remdups_card_conv)
  ultimately show ?thesis
    using assms set nth range_of_eq_iff [OF per]
    by (intro exI [of _ ?d]) (simp add: NewDirectory_placement wf_dir_def)
qed

lemma NewDirectory_contiguous_witness:
  "\<exists>d. NewDirectory 1024 4 = Inr d \<and> wf_dir d \<and> set (Placement d) = {0..3}
    \<and> Placement d ! nat 300 = 1"
proof -
  have "(0::int) < 4" "(4::int) \<le> 1024" "(1024::int) < 2 ^ 63" by simp_all
  from NewDirectory_contiguous [OF this] obtain d where d: "NewDirectory 1024 4 = Inr d" "wf_dir d"
      "set (Placement d) = {0..3}"
    and at: "\<forall>l p. 0 \<le> l \<longrightarrow> l < 1024 \<longrightarrow> 0 \<le> p \<longrightarrow> p < 4 - 1 \<longrightarrow>
        (Placement d ! nat l = p \<longleftrightarrow> p * (1024 div 4) \<le> l \<and> l < (p + 1) * (1024 div 4))" by auto
  from at [rule_format, of 300 1] d show ?thesis by auto
qed

text \<open>\<open>NewDirectory\<close> panics instead of returning exactly when the logical count is
  negative, the physical count is zero, or the logical count is positive and smaller than the
  physical count: the division for the range size, or by it, is by zero.\<close>

theorem NewDirectory_panics:
  assumes "0 \<le> P"
  shows "(\<exists>e. NewDirectory L P = Inl e) \<longleftrightarrow> L < 0 \<or> P = 0 \<or> (0 < L \<and> L < P)"
proof (cases "0 \<le> L \<and> 0 < P")
  case True
  show ?thesis
  proof (cases "P \<le> L")
    case True
    then show ?thesis using NewDirectory_placement [of P L] \<open>0 \<le> L \<and> 0 < P\<close> by auto
  next
    case False
    show ?thesis
    proof (cases "L = 0")
      case True
      with \<open>0 \<le> L \<and> 0 < P\<close> show ?thesis by (simp add: NewDirectory_def)
    next
      case nz: False
      with True False have "go_div L P = 0" by (simp add: go_div_nonneg)
      then have "place (go_div L P) P 0 = Inl DivideByZero" by (simp add: place_def)
      moreover have "0 \<in> set [0..L - 1]" using nz True by simp
      ultimately obtain q where "mapM_go (place (go_div L P) P) [0..L - 1] = Inl q"
        by (meson mapM_go_Inl)
      then show ?thesis using True False nz by (auto simp: NewDirectory_def)
    qed
  qed
qed (use assms in \<open>auto simp: NewDirectory_def\<close>)

lemma NewDirectory_panics_witness: "\<exists>e. NewDirectory 1024 1025 = Inl e"
  using NewDirectory_panics [of 1025 1024] by simp


text \<open>A tenant's logical shard never changes: not under any sequence of moves, commits
  and pins, whatever their arguments.\<close>

theorem logical_frozen:
  assumes "dir_steps d ops d'"
  shows "Logical d' t = Logical d t"
  using assms by (rule dir_steps_logical)

lemma logical_frozen_witness:
  "Logical (BeginMove \<lparr>LogicalCount = 2, Placement = [0, 1], Migrating = None, Pins = None\<rparr> 1 0) 5
   = Logical \<lparr>LogicalCount = 2, Placement = [0, 1], Migrating = None, Pins = None\<rparr> 5"
proof -
  let ?d = "\<lparr>LogicalCount = 2, Placement = [0, 1], Migrating = None, Pins = None\<rparr>"
  have "dir_steps ?d [OpBeginMove 1 0] (BeginMove ?d 1 0)"
    by (rule dir_step [OF _ dir_done]) simp
  then show ?thesis by (rule logical_frozen)
qed

text \<open>C12: Moving one logical shard moves exactly its unpinned tenants, all of them, and
  nobody else, and closes the window it opened.\<close>

theorem move_is_exact:
  assumes "wf_dir d" and "0 \<le> l" and "l < LogicalCount d"
  shows "\<exists>d'. Commit (BeginMove d l target) l = Inr d' \<and> wf_dir d'
    \<and> map_of (gomap_of (Migrating d')) l = None
    \<and> (\<forall>t. Directory_RouteRead d' t =
         (if logical_of d t = l \<and> map_of (gomap_of (Pins d)) t = None then Inr target
          else Directory_RouteRead d t))"
proof -
  let ?d1 = "BeginMove d l target"
  have wf1: "wf_dir ?d1" using assms by (intro wf_intros)
  obtain d' where commit: "Commit ?d1 l = Inr d'" using Commit_total [OF wf1] by blast
  have wf': "wf_dir d'" using wf1 commit by (rule wf_Commit)
  have d1: "Pins ?d1 = Pins d" "LogicalCount ?d1 = LogicalCount d" "Placement ?d1 = Placement d"
    "map_of (gomap_of (Migrating ?d1)) l = Some target"
    by (simp_all add: BeginMove_def map_of_alist_update)
  note view = Commit_view [OF wf1 commit, unfolded d1]
  have "logical_of d' t = logical_of d t" for t by (simp add: logical_of_def view(2))
  then have "Directory_RouteRead d' t =
         (if logical_of d t = l \<and> map_of (gomap_of (Pins d)) t = None then Inr target
          else Directory_RouteRead d t)" for t
    using logical_of_range [OF assms(1), of t]
    by (simp add: RouteRead_wf [OF wf'] RouteRead_wf [OF assms(1)] view split: option.splits)
  then show ?thesis using commit wf' view(3) [of l] by simp
qed

lemma move_is_exact_witness:
  "let d = \<lparr>LogicalCount = 2, Placement = [0, 1], Migrating = Some [], Pins = Some [(9, 0)]\<rparr>
   in \<exists>d'. Commit (BeginMove d 1 7) 1 = Inr d' \<and> Directory_RouteRead d' 9 = Inr 0"
proof -
  let ?d = "\<lparr>LogicalCount = 2, Placement = [0, 1], Migrating = Some [], Pins = Some [(9 :: u64, 0)]\<rparr>"
  have "wf_dir ?d" by (simp add: wf_dir_def go_map_ok_def)
  from move_is_exact [OF this, of 1 7] obtain d' where d': "Commit (BeginMove ?d 1 7) 1 = Inr d'"
    and route: "Directory_RouteRead d' 9 = (if logical_of ?d 9 = 1 \<and> map_of (gomap_of (Pins ?d)) 9 = None
        then Inr 7 else Directory_RouteRead ?d 9)" by auto
  have "Directory_RouteRead d' 9 = Inr 0" unfolding route by (simp add: Directory_RouteRead_def)
  with d' show ?thesis unfolding Let_def by blast
qed

text \<open>The dual-write window.  From \<open>BeginMove\<close> on, through any operations on other
  logical shards and other tenants, reads of the shard's unpinned tenants stay on the source
  and writes go to source and target, in that order; \<open>Commit\<close> then sends both reads and
  writes to the target alone.\<close>

theorem dual_write_window:
  assumes "wf_dir d" and "logical_of d t = l" and "map_of (gomap_of (Pins d)) t = None"
    and "Placement d ! nat l = source" and "source \<noteq> target"
    and "\<forall>op\<in>set ops. op_ok d op \<and> op_leaves l t op"
    and "dir_steps (BeginMove d l target) ops d1"
  shows "Directory_RouteRead d1 t = Inr source \<and> Directory_RouteWrite d1 t = Inr [source, target]
    \<and> (\<exists>d2. Commit d1 l = Inr d2 \<and> Directory_RouteRead d2 t = Inr target
        \<and> Directory_RouteWrite d2 t = Inr [target])"
proof -
  let ?d0 = "BeginMove d l target"
  have l: "0 \<le> l" "l < LogicalCount d" using logical_of_range [OF assms(1), of t] assms(2) by auto
  then have wf0: "wf_dir ?d0" using assms(1) by (intro wf_intros)
  have ok0: "\<forall>op\<in>set ops. op_ok ?d0 op \<and> op_leaves l t op"
    using assms(6) op_ok_cong [OF BeginMove_count] by blast
  have wf1: "wf_dir d1" "LogicalCount d1 = LogicalCount d"
    using dir_steps_wf [OF assms(7) wf0] ok0 by simp_all
  have keep: "map_of (gomap_of (Migrating d1)) l = Some target" "Placement d1 ! nat l = source"
      "map_of (gomap_of (Pins d1)) t = None"
    using dir_steps_leaves [OF assms(7) wf0 ok0 l(1)] assms(3,4)
    by (simp_all add: BeginMove_def map_of_alist_update)
  have lt: "logical_of d1 t = l" using wf1(2) assms(2) by (simp add: logical_of_def)
  obtain d2 where commit: "Commit d1 l = Inr d2" using Commit_total [OF wf1(1)] by blast
  have wf2: "wf_dir d2" using wf1(1) commit by (rule wf_Commit)
  note view = Commit_view [OF wf1(1) commit, unfolded keep wf1(2)]
  have "logical_of d2 t = l" using assms(2) by (simp add: logical_of_def view(2))
  then show ?thesis
    using commit keep lt assms(5) l
    by (simp add: RouteRead_wf [OF wf1(1)] RouteWrite_wf [OF wf1(1)] RouteRead_wf [OF wf2]
        RouteWrite_wf [OF wf2] view)
qed

lemma dual_write_window_witness:
  "let d = \<lparr>LogicalCount = 1, Placement = [0], Migrating = Some [], Pins = Some []\<rparr>
   in Directory_RouteWrite (Pin (BeginMove d 0 3) 9 1) 5 = Inr [0, 3]"
proof -
  let ?d = "\<lparr>LogicalCount = 1, Placement = [0], Migrating = Some [], Pins = Some []\<rparr> :: directory"
  have wf: "wf_dir ?d" by (simp add: wf_dir_def)
  have l: "logical_of ?d 5 = 0" by (simp add: logical_of_def)
  have run: "dir_steps (BeginMove ?d 0 3) [OpPin 9 1] (Pin (BeginMove ?d 0 3) 9 1)"
    by (rule dir_step [OF _ dir_done]) simp
  from dual_write_window [OF wf l _ _ _ _ run, of 0] show ?thesis by simp
qed

end
