(* ===== verification/Router.thy ===== *)
theory Router
  imports Ring Directory Strconv
begin

text \<open>
  The \<open>Topology\<close> interface of \<open>src/internal/shard/topology.go\<close> with its three
  implementations as a datatype, the dispatching methods, the \<open>router\<close> contract for all of
  them, and the analysis functions \<open>Churn\<close> and \<open>Distribution\<close> that read a topology
  only through \<open>RouteRead\<close>.  \<open>logicalOf\<close> of \<open>orders.go\<close> is here too: it is the one
  place that looks at the dynamic type of a topology.
\<close>

section \<open>The interface\<close>

datatype topology = TopModN modn | TopRing ring | TopDirectory directory

fun Name :: "topology \<Rightarrow> string" where
  "Name (TopModN m) = ''mod-'' @ fmt_d (mod_N m)"
| "Name (TopRing r) = ''ring-'' @ fmt_d (int (length (shards r))) @ ''-vnodes-'' @ fmt_d (vnodes r)"
| "Name (TopDirectory d) = ''directory-'' @ fmt_d (LogicalCount d) @ ''L''"

fun PhysicalCount :: "topology \<Rightarrow> int" where
  "PhysicalCount (TopModN m) = ModN_PhysicalCount m"
| "PhysicalCount (TopRing r) = Ring_PhysicalCount r"
| "PhysicalCount (TopDirectory d) = Directory_PhysicalCount d"

fun RouteRead :: "topology \<Rightarrow> u64 \<Rightarrow> int go" where
  "RouteRead (TopModN m) t = ModN_RouteRead m t"
| "RouteRead (TopRing r) t = Ring_RouteRead r t"
| "RouteRead (TopDirectory d) t = Directory_RouteRead d t"

fun RouteWrite :: "topology \<Rightarrow> u64 \<Rightarrow> int list go" where
  "RouteWrite (TopModN m) t = ModN_RouteWrite m t"
| "RouteWrite (TopRing r) t = Ring_RouteWrite r t"
| "RouteWrite (TopDirectory d) t = Directory_RouteWrite d t"

interpretation topology_router: router "RouteRead tp" "RouteWrite tp"
proof
  fix t ws assume "RouteWrite tp t = Inr ws"
  then show "\<exists>s rest. RouteRead tp t = Inr s \<and> ws = s # rest"
    by (cases tp) (auto dest: modn_router.read_first ring_router.read_first directory_router.read_first)
next
  fix t s assume "RouteRead tp t = Inr s"
  then show "\<exists>ws. RouteWrite tp t = Inr ws"
    by (cases tp) (auto dest: modn_router.read_total ring_router.read_total directory_router.read_total)
qed

definition logicalOf :: "topology \<Rightarrow> u64 \<Rightarrow> int go" where
  "logicalOf tp tenantID =
     (case tp of TopDirectory d \<Rightarrow> Logical d tenantID | _ \<Rightarrow> Inr (sint (Key tenantID mod 1024)))"

section \<open>Churn and Distribution\<close>

fun churn_loop :: "topology \<Rightarrow> topology \<Rightarrow> int list \<Rightarrow> int \<Rightarrow> int go" where
  "churn_loop t1 t2 [] moved = Inr moved"
| "churn_loop t1 t2 (t # ts) moved =
     bind_go (RouteRead t1 (word_of_int t)) (\<lambda>a.
     bind_go (RouteRead t2 (word_of_int t)) (\<lambda>b.
       churn_loop t1 t2 ts (if a \<noteq> b then moved + 1 else moved)))"

text \<open>The quotient that \<open>Churn\<close> returns, as its numerator and denominator.\<close>

definition Churn :: "topology \<Rightarrow> topology \<Rightarrow> int \<Rightarrow> (int \<times> int) go" where
  "Churn t1 t2 sampleTenants =
     bind_go (churn_loop t1 t2 [1..sampleTenants] 0) (\<lambda>moved. Inr (moved, sampleTenants))"

text \<open>A Go map of counters: a missing key reads as zero.\<close>

definition go_count :: "('k, int) gomap \<Rightarrow> 'k \<Rightarrow> int" where
  "go_count m k = (case map_of m k of Some n \<Rightarrow> n | None \<Rightarrow> 0)"

definition go_add :: "('k, int) gomap \<Rightarrow> 'k \<Rightarrow> int \<Rightarrow> ('k, int) gomap" where
  "go_add m k n = AList.update k (go_count m k + n) m"

fun distribution_loop :: "topology \<Rightarrow> int list \<Rightarrow> (int, int) gomap \<Rightarrow> (int, int) gomap go" where
  "distribution_loop tp [] out = Inr out"
| "distribution_loop tp (i # is) out =
     bind_go (RouteRead tp (word_of_int i)) (\<lambda>s. distribution_loop tp is (go_add out s 1))"

definition Distribution :: "topology \<Rightarrow> int \<Rightarrow> (int, int) gomap go" where
  "Distribution tp sampleTenants = distribution_loop tp [1..sampleTenants] []"

section \<open>Lemmas\<close>

lemma go_count_simps [simp]:
  "go_count [] k = 0"
  "go_count (go_add m k n) k' = go_count m k' + (if k' = k then n else 0)"
  by (simp_all add: go_count_def go_add_def map_of_alist_update)

lemma go_add_ok [simp]: "go_map_ok m \<Longrightarrow> go_map_ok (go_add m k n)"
  by (simp add: go_add_def)

lemma fst_go_add: "fst ` set (go_add m k n) = insert k (fst ` set m)"
  by (simp add: go_add_def dom_update)

text \<open>Summing a counter map over any finite set that contains its keys.\<close>

lemma sum_go_count:
  assumes "go_map_ok m" and "finite K" and "fst ` set m \<subseteq> K"
  shows "(\<Sum>k\<in>K. go_count m k) = sum_list (map snd m)"
  using assms
proof (induction m)
  case (Cons p m)
  obtain k v where p: "p = (k, v)" by (cases p)
  have fresh: "k \<notin> fst ` set m" using Cons.prems(1) p by (simp add: go_map_ok_def)
  then have none: "map_of m k = None" by (simp add: map_of_eq_None_iff)
  have "(\<Sum>j\<in>K. go_count (p # m) j) = (\<Sum>j\<in>K. go_count m j + (if j = k then v else 0))"
    by (rule sum.cong) (auto simp: go_count_def p none)
  also have "\<dots> = sum_list (map snd m) + v"
    using Cons p by (simp add: sum.distrib go_map_ok_def)
  finally show ?case by (simp add: p)
qed simp

text \<open>The routes of the sampled tenants, where every one of them routes.\<close>

definition routes_all :: "topology \<Rightarrow> int \<Rightarrow> bool" where
  "routes_all tp n \<longleftrightarrow> list_all (\<lambda>i. case RouteRead tp (word_of_int i) of Inl p \<Rightarrow> False | Inr s \<Rightarrow> True) [1..n]"

lemma routes_allD: "routes_all tp n \<Longrightarrow> i \<in> set [1..n] \<Longrightarrow> \<exists>s. RouteRead tp (word_of_int i) = Inr s"
  by (cases "RouteRead tp (word_of_int i)") (auto simp: routes_all_def list_all_iff dest: bspec [of _ _ i])

lemma churn_loop_count:
  assumes "\<forall>i\<in>set ts. \<exists>s. RouteRead t1 (word_of_int i) = Inr s"
    and "\<forall>i\<in>set ts. \<exists>s. RouteRead t2 (word_of_int i) = Inr s"
  shows "churn_loop t1 t2 ts moved =
    Inr (moved + int (length (filter (\<lambda>i. RouteRead t1 (word_of_int i) \<noteq> RouteRead t2 (word_of_int i)) ts)))"
  using assms by (induction ts arbitrary: moved) auto

lemma distribution_loop_count:
  assumes "\<forall>i\<in>set ts. \<exists>s. RouteRead tp (word_of_int i) = Inr s" and "go_map_ok out"
  shows "\<exists>m. distribution_loop tp ts out = Inr m \<and> go_map_ok m
    \<and> (\<forall>s. go_count m s = go_count out s
        + int (length (filter (\<lambda>i. RouteRead tp (word_of_int i) = Inr s) ts)))
    \<and> sum_list (map snd m) = sum_list (map snd out) + int (length ts)"
  using assms
proof (induction ts arbitrary: out)
  case (Cons i ts)
  from Cons.prems(1) obtain s where s: "RouteRead tp (word_of_int i) = Inr s" by auto
  let ?out = "go_add out s 1"
  let ?K = "insert s (fst ` set out)"
  have "sum_list (map snd ?out) = (\<Sum>k\<in>?K. go_count ?out k)"
    using Cons.prems(2) by (intro sum_go_count [symmetric]) (simp_all add: fst_go_add)
  also have "\<dots> = (\<Sum>k\<in>?K. go_count out k) + 1" by (simp add: sum.distrib)
  also have "\<dots> = sum_list (map snd out) + 1"
    using Cons.prems(2) by (simp only: sum_go_count [of out ?K] finite_insert finite_imageI finite_set subset_insertI)
  finally have total: "sum_list (map snd ?out) = sum_list (map snd out) + 1" .
  from Cons.IH [of ?out] Cons.prems obtain m where "distribution_loop tp ts ?out = Inr m" "go_map_ok m"
    "\<forall>s'. go_count m s' = go_count ?out s' + int (length (filter (\<lambda>i. RouteRead tp (word_of_int i) = Inr s') ts))"
    "sum_list (map snd m) = sum_list (map snd ?out) + int (length ts)" by auto
  with s total show ?case by auto
qed simp

lemma length_filter_upto: "int (length (filter P [1..n])) = int (card {i \<in> {1..n}. P i})"
proof -
  have "card {i \<in> {1..n}. P i} = length (filter P [1..n])"
    using distinct_card [of "filter P [1..n]"] by simp
  then show ?thesis by simp
qed

lemma Distribution_count:
  assumes "routes_all tp n"
  shows "\<exists>m. Distribution tp n = Inr m \<and> go_map_ok m
    \<and> (\<forall>s. go_count m s = int (card {i \<in> {1..n}. RouteRead tp (word_of_int i) = Inr s}))
    \<and> sum_list (map snd m) = int (nat n)"
  using distribution_loop_count [of "[1..n]" tp "[]"] routes_allD [OF assms]
  by (auto simp: Distribution_def length_filter_upto)

section \<open>Properties\<close>

text \<open>\<open>Distribution\<close> counts, for every shard, exactly the sampled tenants it serves, and
  its counts add up to the sample.\<close>

theorem distribution_counts:
  assumes "routes_all tp n" and "0 \<le> n"
  shows "\<exists>m. Distribution tp n = Inr m \<and> go_map_ok m
    \<and> (\<forall>s. go_count m s = int (card {i \<in> {1..n}. RouteRead tp (word_of_int i) = Inr s}))
    \<and> sum_list (map snd m) = n"
  using Distribution_count [OF assms(1)] assms(2) by auto

lemma distribution_counts_witness:
  "\<exists>m. Distribution (TopModN \<lparr>mod_N = 4\<rparr>) 3 = Inr m \<and> sum_list (map snd m) = 3"
proof -
  have "routes_all (TopModN \<lparr>mod_N = 4\<rparr>) 3"
    by (simp add: routes_all_def list_all_iff ModN_RouteRead_pos)
  from distribution_counts [OF this] show ?thesis by auto
qed

text \<open>\<open>Churn\<close> counts exactly the sampled tenants whose shard changes, and that number
  bounds the change of load of every shard: no shard gains or loses more tenants than move.\<close>

theorem churn_bounds_balance:
  assumes "routes_all t1 n" and "routes_all t2 n"
  shows "\<exists>moved m1 m2. Churn t1 t2 n = Inr (moved, n)
    \<and> Distribution t1 n = Inr m1 \<and> Distribution t2 n = Inr m2
    \<and> moved = int (card {i \<in> {1..n}. RouteRead t1 (word_of_int i) \<noteq> RouteRead t2 (word_of_int i)})
    \<and> (\<forall>s. \<bar>go_count m1 s - go_count m2 s\<bar> \<le> moved)"
proof -
  let ?on = "\<lambda>tp s. {i \<in> {1..n}. RouteRead tp (word_of_int i) = Inr s}"
  let ?M = "{i \<in> {1..n}. RouteRead t1 (word_of_int i) \<noteq> RouteRead t2 (word_of_int i)}"
  have churn: "Churn t1 t2 n = Inr (int (card ?M), n)"
    using churn_loop_count [of "[1..n]" t1 t2 0] routes_allD [OF assms(1)] routes_allD [OF assms(2)]
    by (auto simp: Churn_def length_filter_upto)
  obtain m1 m2 where m: "Distribution t1 n = Inr m1" "Distribution t2 n = Inr m2"
    "\<forall>s. go_count m1 s = int (card (?on t1 s))" "\<forall>s. go_count m2 s = int (card (?on t2 s))"
    using Distribution_count [OF assms(1)] Distribution_count [OF assms(2)] by blast
  have fin: "finite ?M" "finite (?on tp s)" for tp s
    by (rule finite_subset [of _ "{1..n}"]; auto)+
  have "card (?on t1 s) \<le> card (?on t2 s) + card ?M" "card (?on t2 s) \<le> card (?on t1 s) + card ?M" for s
    by (rule order_trans [OF card_mono card_Un_le], use fin in \<open>auto\<close>)+
  then have "int (card (?on t1 s)) \<le> int (card (?on t2 s)) + int (card ?M)"
    "int (card (?on t2 s)) \<le> int (card (?on t1 s)) + int (card ?M)" for s
    by (simp_all flip: of_nat_add)
  then have "\<bar>go_count m1 s - go_count m2 s\<bar> \<le> int (card ?M)" for s
    unfolding m(3) [rule_format] m(4) [rule_format] abs_le_iff by (simp only: diff_le_eq minus_diff_eq add.commute)
  with churn m(1,2) show ?thesis by blast
qed

lemma churn_bounds_balance_witness:
  "\<exists>moved m1 m2. Churn (TopModN \<lparr>mod_N = 4\<rparr>) (TopModN \<lparr>mod_N = 8\<rparr>) 3 = Inr (moved, 3)
    \<and> Distribution (TopModN \<lparr>mod_N = 4\<rparr>) 3 = Inr m1 \<and> Distribution (TopModN \<lparr>mod_N = 8\<rparr>) 3 = Inr m2
    \<and> \<bar>go_count m1 7 - go_count m2 7\<bar> \<le> moved"
proof -
  have "routes_all (TopModN \<lparr>mod_N = 4\<rparr>) 3" "routes_all (TopModN \<lparr>mod_N = 8\<rparr>) 3"
    by (simp_all add: routes_all_def list_all_iff ModN_RouteRead_pos)
  from churn_bounds_balance [OF this] show ?thesis by blast
qed

end
