(* ===== verification/Store.thy ===== *)
theory Store
  imports World Router "HOL-Library.List_Lexorder" "HOL-Library.Char_ord"
begin

text \<open>
  The metadata store: \<open>Save\<close> and \<open>LoadDirectory\<close> of \<open>src/internal/shard/topology.go\<close>
  and \<open>LoadOrInitDirectory\<close> of \<open>store.go\<close>, over a file system whose calls may fail or be cut
  off.  A file holds a JSON document, as the tree that \<open>encoding/json\<close> reads and writes, or
  bytes that are none.
\<close>

section \<open>JSON\<close>

datatype json =
    JNull
  | JBool bool
  | JInt int
  | JFloat string
  | JStr string
  | JArr "json list"
  | JObj "(string \<times> json) list"

text \<open>A Go map is written with its keys as strings, in their order.\<close>

definition json_map :: "('k \<Rightarrow> string) \<Rightarrow> ('k, int) gomap \<Rightarrow> json" where
  "json_map f m = JObj (sort_key fst (map (\<lambda>(k, v). (f k, JInt v)) m))"

definition MarshalDirectory :: "directory \<Rightarrow> json" where
  "MarshalDirectory d = JObj
     ([(''logical_count'', JInt (LogicalCount d)), (''placement'', JArr (map JInt (Placement d)))]
      @ (if gomap_of (Migrating d) = [] then [] else [(''migrating'', json_map fmt_d (gomap_of (Migrating d)))])
      @ (if gomap_of (Pins d) = [] then [] else [(''pins'', json_map (\<lambda>t. fmt_d (uint t)) (gomap_of (Pins d)))]))"

text \<open>Reading a value into an \<open>int\<close>: \<open>null\<close> leaves it, anything but an integer that fits is an error.\<close>

definition json_int :: "json \<Rightarrow> int \<Rightarrow> gerr + int" where
  "json_int j old = (case j of
     JNull \<Rightarrow> Inr old
   | JInt i \<Rightarrow> if - (2 ^ 63) \<le> i \<and> i < 2 ^ 63 then Inr i else Inl (EFile BadJSON)
   | _ \<Rightarrow> Inl (EFile BadJSON))"

fun json_ints :: "json list \<Rightarrow> gerr + int list" where
  "json_ints [] = Inr []"
| "json_ints (j # js) =
     (case json_int j 0 of
        Inl e \<Rightarrow> Inl e
      | Inr i \<Rightarrow> (case json_ints js of Inl e \<Rightarrow> Inl e | Inr ns \<Rightarrow> Inr (i # ns)))"

definition json_slice :: "json \<Rightarrow> gerr + int list" where
  "json_slice j = (case j of JNull \<Rightarrow> Inr [] | JArr js \<Rightarrow> json_ints js | _ \<Rightarrow> Inl (EFile BadJSON))"

fun json_entries :: "(string \<Rightarrow> 'k option) \<Rightarrow> (string \<times> json) list \<Rightarrow> ('k, int) gomap \<Rightarrow> gerr + ('k, int) gomap" where
  "json_entries key [] m = Inr m"
| "json_entries key ((s, j) # ms) m =
     (case key s of
        None \<Rightarrow> Inl (EFile BadJSON)
      | Some k \<Rightarrow>
          (case json_int j 0 of
             Inl e \<Rightarrow> Inl e
           | Inr v \<Rightarrow> json_entries key ms (AList.update k v m)))"

definition json_gomap :: "(string \<Rightarrow> 'k option) \<Rightarrow> json \<Rightarrow> ('k, int) gomap option \<Rightarrow> gerr + ('k, int) gomap option" where
  "json_gomap key j old = (case j of
     JNull \<Rightarrow> Inr None
   | JObj ms \<Rightarrow> (case json_entries key ms (gomap_of old) of Inl e \<Rightarrow> Inl e | Inr m \<Rightarrow> Inr (Some m))
   | _ \<Rightarrow> Inl (EFile BadJSON))"

definition int_key :: "string \<Rightarrow> int option" where
  "int_key s = (case ParseInt s of Inl e \<Rightarrow> None | Inr i \<Rightarrow> Some i)"

definition uint_key :: "string \<Rightarrow> u64 option" where
  "uint_key s = (case ParseUint s of Inl e \<Rightarrow> None | Inr n \<Rightarrow> Some (of_nat n))"

text \<open>A member goes to the field of its name, upper and lower case alike; other members are skipped.\<close>

definition lower :: "char \<Rightarrow> char" where
  "lower c = (if CHR ''A'' \<le> c \<and> c \<le> CHR ''Z'' then char_of (of_char c + 32 :: nat) else c)"

definition json_member :: "string \<times> json \<Rightarrow> directory \<Rightarrow> gerr + directory" where
  "json_member = (\<lambda>(s, j) d.
     let name = map lower s in
     if name = ''logical_count''
     then (case json_int j (LogicalCount d) of Inl e \<Rightarrow> Inl e | Inr i \<Rightarrow> Inr (d\<lparr>LogicalCount := i\<rparr>))
     else if name = ''placement''
     then (case json_slice j of Inl e \<Rightarrow> Inl e | Inr ns \<Rightarrow> Inr (d\<lparr>Placement := ns\<rparr>))
     else if name = ''migrating''
     then (case json_gomap int_key j (Migrating d) of Inl e \<Rightarrow> Inl e | Inr m \<Rightarrow> Inr (d\<lparr>Migrating := m\<rparr>))
     else if name = ''pins''
     then (case json_gomap uint_key j (Pins d) of Inl e \<Rightarrow> Inl e | Inr m \<Rightarrow> Inr (d\<lparr>Pins := m\<rparr>))
     else Inr d)"

fun json_members :: "(string \<times> json) list \<Rightarrow> directory \<Rightarrow> gerr + directory" where
  "json_members [] d = Inr d"
| "json_members (mj # ms) d = (case json_member mj d of Inl e \<Rightarrow> Inl e | Inr d' \<Rightarrow> json_members ms d')"

definition UnmarshalDirectory :: "json \<Rightarrow> gerr + directory" where
  "UnmarshalDirectory j =
     (let zero = \<lparr>LogicalCount = 0, Placement = [], Migrating = None, Pins = None\<rparr> in
      case j of JNull \<Rightarrow> Inr zero | JObj ms \<Rightarrow> json_members ms zero | _ \<Rightarrow> Inl (EFile BadJSON))"

section \<open>Files\<close>

datatype content = Doc json | Torn

text \<open>
  The outcome of one call to the operating system: done, failed, or the process killed during
  it or right after it.  A write that is not done leaves any bytes, or no file.
\<close>

datatype os_event = OsOk | OsFail "content option" | OsKill "content option" | OsKillAfter

record host =
  files :: "string \<Rightarrow> content option"
  os_script :: "os_event list"

type_synonym 'a sys = "(host, 'a) prog"

definition os_call :: "(content option \<Rightarrow> host \<Rightarrow> host) \<Rightarrow> (host \<Rightarrow> (gerr + 'a) \<times> host) \<Rightarrow> (gerr + 'a) sys" where
  "os_call spoil act = (\<lambda>h. case os_script h of
     [] \<Rightarrow> (Killed, h)
   | e # es \<Rightarrow>
       (let h1 = h\<lparr>os_script := es\<rparr> in
        case e of
          OsOk \<Rightarrow> (case act h1 of (r, h2) \<Rightarrow> (Done r, h2))
        | OsFail left \<Rightarrow> (Done (Inl (EFile IOFailure)), spoil left h1)
        | OsKill left \<Rightarrow> (Killed, spoil left h1)
        | OsKillAfter \<Rightarrow> (Killed, snd (act h1))))"

definition MkdirAll :: "(gerr + unit) sys" where
  "MkdirAll = os_call (\<lambda>left h. h) (\<lambda>h. (Inr (), h))"

definition WriteFile :: "string \<Rightarrow> content \<Rightarrow> (gerr + unit) sys" where
  "WriteFile p b = os_call (\<lambda>left h. h\<lparr>files := (files h)(p := left)\<rparr>) (\<lambda>h. (Inr (), h\<lparr>files := (files h)(p := Some b)\<rparr>))"

definition Rename :: "string \<Rightarrow> string \<Rightarrow> (gerr + unit) sys" where
  "Rename a b = os_call (\<lambda>left h. h) (\<lambda>h. case files h a of
     None \<Rightarrow> (Inl (EFile NotExist), h)
   | Some x \<Rightarrow> (Inr (), h\<lparr>files := (files h)(b := Some x, a := None)\<rparr>))"

definition ReadFile :: "string \<Rightarrow> (gerr + content) sys" where
  "ReadFile p = os_call (\<lambda>left h. h) (\<lambda>h. (case files h p of None \<Rightarrow> Inl (EFile NotExist) | Some b \<Rightarrow> Inr b, h))"

section \<open>The code\<close>

definition Save :: "directory \<Rightarrow> string \<Rightarrow> (gerr + unit) sys" where
  "Save d path =
     try_io MkdirAll (\<lambda>e. ret (Inl e)) (\<lambda>_.
       let b = MarshalDirectory d; tmp = path @ ''.tmp'' in
       try_io (WriteFile tmp (Doc b)) (\<lambda>e. ret (Inl e)) (\<lambda>_. Rename tmp path))"

definition LoadDirectory :: "string \<Rightarrow> (gerr + directory) sys" where
  "LoadDirectory path =
     try_io (ReadFile path) (\<lambda>e. ret (Inl e)) (\<lambda>b.
       case (case b of Torn \<Rightarrow> Inl (EFile BadJSON) | Doc j \<Rightarrow> UnmarshalDirectory j) of
         Inl e \<Rightarrow> ret (Inl e)
       | Inr d \<Rightarrow>
           let d1 = (if Migrating d = None then d\<lparr>Migrating := Some []\<rparr> else d);
               d2 = (if Pins d1 = None then d1\<lparr>Pins := Some []\<rparr> else d1)
           in ret (Inr d2))"

definition LoadOrInitDirectory :: "string \<Rightarrow> int \<Rightarrow> int \<Rightarrow> (gerr + directory) sys" where
  "LoadOrInitDirectory path logical physical =
     bind_io (LoadDirectory path) (\<lambda>r. case r of
       Inr d \<Rightarrow> ret (Inr d)
     | Inl err \<Rightarrow>
         if err \<noteq> EFile NotExist then ret (Inl (EWrap (''read topology '' @ path) err))
         else bind_io (lift_go (NewDirectory logical physical)) (\<lambda>d.
           try_io (Save d path) (\<lambda>e. ret (Inl e)) (\<lambda>_. ret (Inr d))))"

section \<open>Reading back what was written\<close>

definition fits :: "int \<Rightarrow> bool" where
  "fits i \<longleftrightarrow> - (2 ^ 63) \<le> i \<and> i < 2 ^ 63"

text \<open>The directory is made of machine integers, and its maps have each key once.\<close>

definition dir_fits :: "directory \<Rightarrow> bool" where
  "dir_fits d \<longleftrightarrow> fits (LogicalCount d) \<and> list_all fits (Placement d)
     \<and> go_map_ok (gomap_of (Migrating d)) \<and> list_all (\<lambda>(k, v). fits k \<and> fits v) (gomap_of (Migrating d))
     \<and> go_map_ok (gomap_of (Pins d)) \<and> list_all (\<lambda>(k, v). fits v) (gomap_of (Pins d))"

text \<open>The same directory but for the order of its maps.\<close>

definition dir_equiv :: "directory \<Rightarrow> directory \<Rightarrow> bool" where
  "dir_equiv d d' \<longleftrightarrow> LogicalCount d' = LogicalCount d \<and> Placement d' = Placement d
     \<and> map_of (gomap_of (Migrating d')) = map_of (gomap_of (Migrating d))
     \<and> map_of (gomap_of (Pins d')) = map_of (gomap_of (Pins d))"

lemma json_ints_fits: "list_all fits ns \<Longrightarrow> json_ints (map JInt ns) = Inr ns"
  by (induction ns) (auto simp: json_int_def fits_def)

lemma json_entries_distinct:
  assumes "\<And>k v. (k, v) \<in> set m \<Longrightarrow> key (f k) = Some k \<and> fits v" and "distinct (map fst m)"
    and "fst ` set m \<inter> fst ` set acc = {}"
  shows "json_entries key (map (\<lambda>(k, v). (f k, JInt v)) m) acc = Inr (acc @ m)"
  using assms
proof (induction m arbitrary: acc)
  case (Cons a m)
  obtain k v where a: "a = (k, v)" by (cases a)
  have "AList.update k v acc = acc @ [(k, v)]" using Cons.prems(3) a by (induction acc) auto
  moreover have "json_entries key (map (\<lambda>(k, v). (f k, JInt v)) m) (acc @ [(k, v)]) = Inr ((acc @ [(k, v)]) @ m)"
    using Cons.prems a by (intro Cons.IH) auto
  moreover have "key (f k) = Some k" "json_int (JInt v) 0 = Inr v"
    using Cons.prems(1) [of k v] a by (simp_all add: json_int_def fits_def)
  ultimately show ?case using a by simp
qed simp

lemma map_sort_key: "(\<And>x. x \<in> set xs \<Longrightarrow> k (f x) = k' x) \<Longrightarrow> sort_key (k :: 'b \<Rightarrow> 'c::linorder) (map f xs) = map f (sort_key k' xs)"
proof (induction xs)
  case (Cons x xs)
  have "insort_key k (f x) (map f ys) = map f (insort_key k' x ys)" if "k (f x) = k' x" "\<forall>y\<in>set ys. k (f y) = k' y" for ys
    using that by (induction ys) auto
  then show ?case using Cons by simp
qed simp

text \<open>A map comes back as the same map, sorted by the text of its keys.\<close>

lemma json_gomap_roundtrip:
  assumes "\<And>k v. (k, v) \<in> set m \<Longrightarrow> key (f k) = Some k \<and> fits v" and "go_map_ok m"
  shows "json_gomap key (json_map f m) None = Inr (Some (sort_key (f \<circ> fst) m))"
proof -
  let ?m = "sort_key (f \<circ> fst) m"
  have "sort_key fst (map (\<lambda>(k, v). (f k, JInt v)) m) = map (\<lambda>(k, v). (f k, JInt v)) ?m"
    by (rule map_sort_key) auto
  moreover have "distinct (map fst ?m)"
    using assms(2) by (auto simp: go_map_ok_def distinct_map)
  then have "json_entries key (map (\<lambda>(k, v). (f k, JInt v)) ?m) [] = Inr ([] @ ?m)"
    using assms(1) by (intro json_entries_distinct) auto
  ultimately show ?thesis by (simp add: json_map_def json_gomap_def)
qed

lemma map_of_sort_key:
  assumes "go_map_ok m"
  shows "map_of (sort_key g m) = map_of m"
  using assms by (intro map_of_inject_set [THEN iffD2]) (auto simp: go_map_ok_def distinct_map)

lemma int_key_fmt: "fits k \<Longrightarrow> int_key (fmt_d k) = Some k"
  by (simp add: int_key_def fits_def ParseInt_fmt_d)

lemma uint_key_fmt: "uint_key (fmt_d (uint t)) = Some t"
proof -
  have "nat (uint t) \<le> max_uint64" unfolding nat_le_iff using uint_64_bounds [of t] by (simp add: max_uint64_def)
  then have "ParseUint (fmt_d (uint t)) = Inr (nat (uint t))"
    using uint_64_bounds [of t] parse_uint_loop_fmt_nat by (simp add: ParseUint_def fmt_d_def)
  then show ?thesis using uint_64_bounds [of t] by (simp add: uint_key_def)
qed

lemma json_member_fields:
  "json_member (''logical_count'', j) d = (case json_int j (LogicalCount d) of Inl e \<Rightarrow> Inl e | Inr i \<Rightarrow> Inr (d\<lparr>LogicalCount := i\<rparr>))"
  "json_member (''placement'', j) d = (case json_slice j of Inl e \<Rightarrow> Inl e | Inr ns \<Rightarrow> Inr (d\<lparr>Placement := ns\<rparr>))"
  "json_member (''migrating'', j) d = (case json_gomap int_key j (Migrating d) of Inl e \<Rightarrow> Inl e | Inr m \<Rightarrow> Inr (d\<lparr>Migrating := m\<rparr>))"
  "json_member (''pins'', j) d = (case json_gomap uint_key j (Pins d) of Inl e \<Rightarrow> Inl e | Inr m \<Rightarrow> Inr (d\<lparr>Pins := m\<rparr>))"
proof -
  have "map lower ''logical_count'' = ''logical_count''" "map lower ''placement'' = ''placement''"
      "map lower ''migrating'' = ''migrating''" "map lower ''pins'' = ''pins''"
    by code_simp+
  then show "json_member (''logical_count'', j) d = (case json_int j (LogicalCount d) of Inl e \<Rightarrow> Inl e | Inr i \<Rightarrow> Inr (d\<lparr>LogicalCount := i\<rparr>))"
    "json_member (''placement'', j) d = (case json_slice j of Inl e \<Rightarrow> Inl e | Inr ns \<Rightarrow> Inr (d\<lparr>Placement := ns\<rparr>))"
    "json_member (''migrating'', j) d = (case json_gomap int_key j (Migrating d) of Inl e \<Rightarrow> Inl e | Inr m \<Rightarrow> Inr (d\<lparr>Migrating := m\<rparr>))"
    "json_member (''pins'', j) d = (case json_gomap uint_key j (Pins d) of Inl e \<Rightarrow> Inl e | Inr m \<Rightarrow> Inr (d\<lparr>Pins := m\<rparr>))"
    by (simp_all only: json_member_def prod.case Let_def) simp_all
qed

lemma json_members_append:
  "json_members (xs @ ys) d = (case json_members xs d of Inl e \<Rightarrow> Inl e | Inr d' \<Rightarrow> json_members ys d')"
  by (induction xs arbitrary: d) (auto split: sum.split)

text \<open>A map that is empty is left out and comes back as nil.\<close>

lemma optional_member:
  assumes "go_map_ok m" and "\<And>k v. (k, v) \<in> set m \<Longrightarrow> key (f k) = Some k \<and> fits v"
    and "\<And>j d. json_member (name, j) d = (case json_gomap key j (get d) of Inl e \<Rightarrow> Inl e | Inr m \<Rightarrow> Inr (upd m d))"
    and "get d = None" and "upd None d = d"
  shows "\<exists>m'. json_members (if m = [] then [] else [(name, json_map f m)]) d = Inr (upd m' d) \<and> map_of (gomap_of m') = map_of m"
proof (cases "m = []")
  case True
  then show ?thesis using assms(5) by (intro exI [of _ None]) simp
next
  case False
  have "json_gomap key (json_map f m) (get d) = Inr (Some (sort_key (f \<circ> fst) m))"
    unfolding assms(4) by (rule json_gomap_roundtrip [OF assms(2,1)])
  then show ?thesis
    using False assms(1,3) by (intro exI [of _ "Some (sort_key (f \<circ> fst) m)"]) (simp add: map_of_sort_key)
qed

lemma Unmarshal_Marshal:
  assumes "dir_fits d"
  shows "\<exists>d'. UnmarshalDirectory (MarshalDirectory d) = Inr d' \<and> dir_equiv d d'"
proof -
  let ?d1 = "\<lparr>LogicalCount = LogicalCount d, Placement = Placement d, Migrating = None, Pins = None\<rparr>"
  have "json_int (JInt (LogicalCount d)) 0 = Inr (LogicalCount d)" "json_ints (map JInt (Placement d)) = Inr (Placement d)"
    using assms by (simp_all add: dir_fits_def json_int_def fits_def json_ints_fits)
  then have first: "json_members [(''logical_count'', JInt (LogicalCount d)), (''placement'', JArr (map JInt (Placement d)))]
      \<lparr>LogicalCount = 0, Placement = [], Migrating = None, Pins = None\<rparr> = Inr ?d1"
    by (simp add: json_member_fields json_slice_def)
  have ok: "go_map_ok (gomap_of (Migrating d))" "go_map_ok (gomap_of (Pins d))"
      "\<And>k v. (k, v) \<in> set (gomap_of (Migrating d)) \<Longrightarrow> int_key (fmt_d k) = Some k \<and> fits v"
      "\<And>k v. (k, v) \<in> set (gomap_of (Pins d)) \<Longrightarrow> uint_key (fmt_d (uint k)) = Some k \<and> fits v"
    using assms by (auto simp: dir_fits_def list_all_iff int_key_fmt uint_key_fmt)
  obtain m where m: "json_members (if gomap_of (Migrating d) = [] then [] else [(''migrating'', json_map fmt_d (gomap_of (Migrating d)))]) ?d1
        = Inr (?d1\<lparr>Migrating := m\<rparr>)" "map_of (gomap_of m) = map_of (gomap_of (Migrating d))"
    using optional_member [OF ok(1,3), where name = "''migrating''" and get = Migrating
        and upd = "\<lambda>m d. d\<lparr>Migrating := m\<rparr>" and d = ?d1] by (auto simp: json_member_fields)
  obtain p where p: "json_members (if gomap_of (Pins d) = [] then [] else [(''pins'', json_map (\<lambda>t. fmt_d (uint t)) (gomap_of (Pins d)))])
        (?d1\<lparr>Migrating := m\<rparr>) = Inr (?d1\<lparr>Migrating := m, Pins := p\<rparr>)" "map_of (gomap_of p) = map_of (gomap_of (Pins d))"
    using optional_member [OF ok(2,4), where name = "''pins''" and get = Pins
        and upd = "\<lambda>m d. d\<lparr>Pins := m\<rparr>" and d = "?d1\<lparr>Migrating := m\<rparr>"] by (auto simp: json_member_fields)
  have "UnmarshalDirectory (MarshalDirectory d) = Inr (?d1\<lparr>Migrating := m, Pins := p\<rparr>)"
    unfolding UnmarshalDirectory_def MarshalDirectory_def Let_def json.case json_members_append first sum.case m(1) p(1) ..
  then show ?thesis using m(2) p(2) by (simp add: dir_equiv_def)
qed

section \<open>What the store keeps\<close>

lemma MkdirAll_files: "MkdirAll h = (r, h') \<Longrightarrow> files h' = files h"
  by (auto simp: MkdirAll_def os_call_def Let_def split: list.splits os_event.splits)

lemma WriteFile_files:
  assumes "WriteFile p b h = (r, h')"
  shows "\<forall>q. q \<noteq> p \<longrightarrow> files h' q = files h q" and "r = Done (Inr ()) \<Longrightarrow> files h' p = Some b"
  using assms by (auto simp: WriteFile_def os_call_def Let_def split: list.splits os_event.splits)

lemma Rename_files:
  assumes "Rename a b h = (r, h')"
  shows "files h' = files h \<and> r \<noteq> Done (Inr ())
    \<or> (\<exists>x. files h a = Some x \<and> files h' = (files h)(b := Some x, a := None) \<and> (r = Done (Inr ()) \<or> r = Killed))"
  using assms by (auto simp: Rename_def os_call_def Let_def split: list.splits os_event.splits option.splits)

lemma ReadFile_files:
  assumes "ReadFile p h = (r, h')"
  shows "files h' = files h" and "r = Done (Inr b) \<Longrightarrow> files h p = Some b"
    and "r = Done (Inl (EFile NotExist)) \<Longrightarrow> files h p = None"
  using assms by (auto simp: ReadFile_def os_call_def Let_def split: list.splits os_event.splits option.splits)

lemma tmp_other: "path @ ''.tmp'' \<noteq> (path :: string)"
  by simp

lemma Save_files:
  assumes "Save d path h = (r, h')"
  shows "(files h' path = files h path \<and> r \<noteq> Done (Inr ())
      \<or> files h' path = Some (Doc (MarshalDirectory d)) \<and> (r = Done (Inr ()) \<or> r = Killed))
    \<and> (\<forall>p. p \<noteq> path \<longrightarrow> p \<noteq> path @ ''.tmp'' \<longrightarrow> files h' p = files h p)"
proof -
  let ?tmp = "path @ ''.tmp''"
  obtain r1 h1 where mk: "MkdirAll h = (r1, h1)" by (metis surj_pair)
  note f1 = MkdirAll_files [OF mk]
  show ?thesis
  proof (cases "r1 = Done (Inr ())")
    case True
    obtain r2 h2 where wr: "WriteFile ?tmp (Doc (MarshalDirectory d)) h1 = (r2, h2)" by (metis surj_pair)
    note f2 = WriteFile_files [OF wr]
    show ?thesis
    proof (cases "r2 = Done (Inr ())")
      case ok: True
      have ren: "Rename ?tmp path h2 = (r, h')"
        using assms mk wr True ok by (simp add: Save_def try_io_def bind_io_def Let_def)
      show ?thesis using Rename_files [OF ren] f1 f2 ok by auto
    next
      case False
      then have "h' = h2" "r \<noteq> Done (Inr ())"
        using assms mk wr True by (auto simp: Save_def try_io_def bind_io_def Let_def split: outcome.splits sum.splits)
      then show ?thesis using f1 f2(1) by simp
    qed
  next
    case False
    then have "h' = h1" "r \<noteq> Done (Inr ())"
      using assms mk by (auto simp: Save_def try_io_def bind_io_def split: outcome.splits sum.splits)
    then show ?thesis using f1 by simp
  qed
qed

text \<open>Decoding fails with its own error only.\<close>

lemma json_int_error: "json_int j i = Inl e \<Longrightarrow> e = EFile BadJSON"
  by (auto simp: json_int_def split: json.splits if_splits)

lemma json_ints_error: "json_ints js = Inl e \<Longrightarrow> e = EFile BadJSON"
  by (induction js) (auto split: sum.splits dest: json_int_error)

lemma json_entries_error: "json_entries key ms m = Inl e \<Longrightarrow> e = EFile BadJSON"
  by (induction key ms m rule: json_entries.induct) (auto split: sum.splits option.splits dest: json_int_error)

lemma json_member_error: "json_member mj d = Inl e \<Longrightarrow> e = EFile BadJSON"
  by (auto simp: json_member_def Let_def json_slice_def json_gomap_def split: prod.splits if_splits sum.splits json.splits
      dest: json_int_error json_ints_error json_entries_error)

lemma json_members_error: "json_members ms d = Inl e \<Longrightarrow> e = EFile BadJSON"
  by (induction ms d rule: json_members.induct) (auto split: sum.splits dest: json_member_error)

lemma Unmarshal_error: "UnmarshalDirectory j \<noteq> Inl (EFile NotExist)"
  by (auto simp: UnmarshalDirectory_def Let_def split: json.splits dest: json_members_error)

text \<open>What a load makes of the maps that the file left out.\<close>

definition fill_nil :: "directory \<Rightarrow> directory" where
  "fill_nil d = d\<lparr>Migrating := Some (gomap_of (Migrating d)), Pins := Some (gomap_of (Pins d))\<rparr>"

lemma LoadDirectory_result:
  assumes "LoadDirectory path h = (r, h')"
  shows "files h' = files h
    \<and> (\<forall>d. r = Done (Inr d) \<longrightarrow> (\<exists>j d0. files h path = Some (Doc j) \<and> UnmarshalDirectory j = Inr d0 \<and> d = fill_nil d0))
    \<and> (r = Done (Inl (EFile NotExist)) \<longrightarrow> files h path = None)"
proof -
  obtain r1 h1 where rd: "ReadFile path h = (r1, h1)" by (metis surj_pair)
  note f = ReadFile_files [OF rd]
  have never: "UnmarshalDirectory j \<noteq> Inl (EFile NotExist)" for j by (rule Unmarshal_error)
  show ?thesis
  proof (cases r1)
    case (Done v)
    show ?thesis
    proof (cases v)
      case (Inl e)
      then have "r = Done (Inl e)" "h' = h1"
        using assms rd Done by (simp_all add: LoadDirectory_def try_io_def bind_io_def)
      then show ?thesis using f Done Inl by simp
    next
      case (Inr b)
      then have b: "files h path = Some b" using f(2) Done by simp
      show ?thesis
        using assms rd Done Inr b f(1) never
        by (cases b)
          (auto simp: LoadDirectory_def try_io_def bind_io_def fill_nil_def Let_def split: sum.splits if_splits)
    qed
  qed (use assms rd f in \<open>auto simp: LoadDirectory_def try_io_def bind_io_def\<close>)
qed

lemma dir_equiv_routes:
  assumes "dir_equiv d d'"
  shows "Directory_RouteRead d' t = Directory_RouteRead d t" and "Directory_RouteWrite d' t = Directory_RouteWrite d t"
proof -
  have logical: "Logical d' t = Logical d t" using assms by (simp add: dir_equiv_def Logical_def)
  show read: "Directory_RouteRead d' t = Directory_RouteRead d t"
    using assms logical by (simp add: dir_equiv_def Directory_RouteRead_def cong: option.case_cong)
  show "Directory_RouteWrite d' t = Directory_RouteWrite d t"
    using assms logical unfolding Directory_RouteWrite_def read by (simp add: dir_equiv_def cong: option.case_cong if_cong)
qed

lemma dir_equiv_fill: "dir_equiv d d0 \<Longrightarrow> dir_equiv d (fill_nil d0)"
  by (simp add: dir_equiv_def fill_nil_def)

lemma LoadDirectory_calm:
  assumes "os_script h = OsOk # es" and "files h path = Some (Doc j)" and "UnmarshalDirectory j = Inr d"
  shows "LoadDirectory path h = (Done (Inr (fill_nil d)), h\<lparr>os_script := es\<rparr>)"
  using assms
  by (cases "Migrating d"; cases "Pins d")
    (simp_all add: LoadDirectory_def ReadFile_def os_call_def try_io_def bind_io_def Let_def fill_nil_def)

section \<open>Properties\<close>

text \<open>C33: Save and load are a round trip: after a \<open>Save\<close> that returned nil, a load that can read the
  file returns a directory that routes every tenant as the saved one, and its maps are not nil.\<close>

theorem save_load_roundtrip:
  assumes "dir_fits d" and "Save d path h = (Done (Inr ()), h1)" and "os_script h1 = OsOk # es"
  shows "\<exists>d'. LoadDirectory path h1 = (Done (Inr d'), h1\<lparr>os_script := es\<rparr>) \<and> dir_equiv d d'
    \<and> Migrating d' \<noteq> None \<and> Pins d' \<noteq> None
    \<and> (\<forall>t. Directory_RouteRead d' t = Directory_RouteRead d t \<and> Directory_RouteWrite d' t = Directory_RouteWrite d t)"
proof -
  have doc: "files h1 path = Some (Doc (MarshalDirectory d))" using Save_files [OF assms(2)] by simp
  obtain d0 where d0: "UnmarshalDirectory (MarshalDirectory d) = Inr d0" "dir_equiv d d0"
    using Unmarshal_Marshal [OF assms(1)] by blast
  have equiv: "dir_equiv d (fill_nil d0)" by (rule dir_equiv_fill [OF d0(2)])
  then show ?thesis
    using LoadDirectory_calm [OF assms(3) doc d0(1)] dir_equiv_routes [OF equiv]
    by (intro exI [of _ "fill_nil d0"]) (simp add: fill_nil_def)
qed

definition demo_host :: "os_event list \<Rightarrow> host" where
  "demo_host es = \<lparr>files = (\<lambda>p. None), os_script = es\<rparr>"

definition saved_dir :: directory where
  "saved_dir = \<lparr>LogicalCount = 2, Placement = [0, 1], Migrating = Some [(1, 2), (0, 3)], Pins = None\<rparr>"

lemma saved_dir_fits: "dir_fits saved_dir"
  by (simp add: dir_fits_def saved_dir_def fits_def go_map_ok_def)

lemma demo_save: "\<exists>h. Save saved_dir ''t'' (demo_host (OsOk # OsOk # OsOk # es)) = (Done (Inr ()), h) \<and> os_script h = es"
  by (simp add: Save_def MkdirAll_def WriteFile_def Rename_def os_call_def try_io_def bind_io_def Let_def demo_host_def)

lemma save_load_roundtrip_witness:
  "\<exists>h d'. Save saved_dir ''t'' (demo_host [OsOk, OsOk, OsOk, OsOk]) = (Done (Inr ()), h)
    \<and> LoadDirectory ''t'' h = (Done (Inr d'), h\<lparr>os_script := []\<rparr>) \<and> dir_equiv saved_dir d'"
proof -
  obtain h where h: "Save saved_dir ''t'' (demo_host [OsOk, OsOk, OsOk, OsOk]) = (Done (Inr ()), h)" "os_script h = [OsOk]"
    using demo_save by blast
  from save_load_roundtrip [OF saved_dir_fits h] h show ?thesis by blast
qed

text \<open>C34: \<open>Save\<close> is atomic: whatever call fails, and wherever the process is killed, the file at the
  path is the old one or the complete new one; it is the new one when nil is returned, and
  an error leaves the old one.  Only the path and its temporary file change.\<close>

theorem save_is_atomic:
  assumes "Save d path h = (r, h')"
  shows "(files h' path = files h path \<and> r \<noteq> Done (Inr ())
      \<or> files h' path = Some (Doc (MarshalDirectory d)) \<and> (r = Done (Inr ()) \<or> r = Killed))
    \<and> (\<forall>p. p \<noteq> path \<longrightarrow> p \<noteq> path @ ''.tmp'' \<longrightarrow> files h' p = files h p)"
  using assms by (rule Save_files)

text \<open>The disk fills while the temporary file is written.\<close>

lemma save_is_atomic_witness:
  "\<exists>h'. Save saved_dir ''t'' (demo_host [OsOk, OsFail (Some Torn)]) = (Done (Inl (EFile IOFailure)), h')
    \<and> files h' ''t'' = None \<and> files h' ''t.tmp'' = Some Torn"
proof -
  obtain h' where run: "Save saved_dir ''t'' (demo_host [OsOk, OsFail (Some Torn)]) = (Done (Inl (EFile IOFailure)), h')"
    and tmp: "files h' ''t.tmp'' = Some Torn"
    by (simp add: Save_def MkdirAll_def WriteFile_def Rename_def os_call_def try_io_def bind_io_def Let_def demo_host_def)
  from save_is_atomic [OF run] run tmp show ?thesis by (simp add: demo_host_def)
qed

text \<open>C37: \<open>LoadOrInitDirectory\<close> never overwrites a placement map.  When the file exists no file changes,
  and a directory returned is the one in the file; when there is none, a directory returned
  is the fresh one and the file holds it.\<close>

theorem load_or_init_keeps_the_map:
  assumes "LoadOrInitDirectory path logical physical h = (r, h')"
  shows "(\<forall>b. files h path = Some b \<longrightarrow> files h' = files h
      \<and> (\<forall>d. r = Done (Inr d) \<longrightarrow> (\<exists>j d0. b = Doc j \<and> UnmarshalDirectory j = Inr d0 \<and> d = fill_nil d0)))
    \<and> (\<forall>d. files h path = None \<longrightarrow> r = Done (Inr d) \<longrightarrow>
        NewDirectory logical physical = Inr d \<and> files h' path = Some (Doc (MarshalDirectory d)))"
proof -
  obtain r1 h1 where ld: "LoadDirectory path h = (r1, h1)" by (metis surj_pair)
  note f1 = LoadDirectory_result [OF ld]
  show ?thesis
  proof (cases "r1 = Done (Inl (EFile NotExist))")
    case False
    then have "h' = h1" "\<And>d. r = Done (Inr d) \<Longrightarrow> r1 = Done (Inr d)"
      using assms ld by (auto simp: LoadOrInitDirectory_def bind_io_def split: outcome.splits sum.splits if_splits)
    then show ?thesis using f1 by fastforce
  next
    case True
    then have none: "files h path = None" "files h1 = files h" using f1 by simp_all
    show ?thesis
    proof (cases "NewDirectory logical physical")
      case (Inl p)
      then have "r = Panicked p" using assms ld True by (simp add: LoadOrInitDirectory_def bind_io_def)
      then show ?thesis using none by simp
    next
      case (Inr d)
      obtain r2 h2 where sv: "Save d path h1 = (r2, h2)" by (metis surj_pair)
      then have "h' = h2" "\<And>d'. r = Done (Inr d') \<Longrightarrow> d' = d \<and> r2 = Done (Inr ())"
        using assms ld True Inr
        by (auto simp: LoadOrInitDirectory_def try_io_def bind_io_def split: outcome.splits sum.splits)
      then show ?thesis using Save_files [OF sv] none Inr by auto
    qed
  qed
qed

text \<open>A torn file is reported and left alone.\<close>

lemma load_or_init_keeps_the_map_witness:
  "\<exists>h'. LoadOrInitDirectory ''t'' 1024 4 \<lparr>files = [''t'' \<mapsto> Torn], os_script = [OsOk]\<rparr>
      = (Done (Inl (EWrap ''read topology t'' (EFile BadJSON))), h') \<and> files h' ''t'' = Some Torn"
proof -
  let ?h = "\<lparr>files = [''t'' \<mapsto> Torn], os_script = [OsOk]\<rparr>"
  obtain h' where run: "LoadOrInitDirectory ''t'' 1024 4 ?h = (Done (Inl (EWrap ''read topology t'' (EFile BadJSON))), h')"
    by (simp add: LoadOrInitDirectory_def LoadDirectory_def ReadFile_def os_call_def try_io_def bind_io_def Let_def)
  from load_or_init_keeps_the_map [OF run] run show ?thesis by simp
qed

end
