(* ===== verification/Cluster.thy ===== *)
theory Cluster
  imports World Router
begin

text \<open>
  The cluster of \<open>src/internal/shard/cluster.go\<close>: one connection pool per shard and the
  topology that routes tenants to them.  What \<open>pgxpool\<close> does with a connection string is a
  parameter: \<open>parse\<close> and \<open>connect\<close> say which strings it refuses.
\<close>

section \<open>The code\<close>

record cluster =
  pools :: "(int, pool) gomap"
  topo :: topology

text \<open>\<open>os.Getenv\<close>, empty for an unset variable, is the argument \<open>env\<close>.\<close>

definition envOr :: "(string \<Rightarrow> string) \<Rightarrow> string \<Rightarrow> string \<Rightarrow> string" where
  "envOr env k def = (if env k \<noteq> [] then env k else def)"

definition dsn :: "string \<Rightarrow> string \<Rightarrow> string \<Rightarrow> int \<Rightarrow> string \<Rightarrow> string" where
  "dsn user pass host port db =
     ''postgres://'' @ user @ '':'' @ pass @ ''@'' @ host @ '':'' @ fmt_d port @ ''/'' @ db
       @ ''?sslmode=disable''"

definition base_port :: "(string \<Rightarrow> string) \<Rightarrow> int" where
  "base_port env = (case ParseInt (envOr env ''SHARD_BASE_PORT'' ''55440'') of Inl e \<Rightarrow> 55440 | Inr b \<Rightarrow> b)"

definition DSNsFromEnv :: "(string \<Rightarrow> string) \<Rightarrow> int \<Rightarrow> (int, string) gomap" where
  "DSNsFromEnv env n =
     map (\<lambda>i. (i, dsn (envOr env ''PGUSER'' ''lab'') (envOr env ''PGPASSWORD'' ''lab'')
                   (envOr env ''PGHOST'' ''127.0.0.1'')
                   (sint (word_of_int (base_port env + i) :: i64)) (envOr env ''PGDATABASE'' ''lab'')))
       [0..n - 1]"

definition Close :: "cluster \<Rightarrow> cluster io" where
  "Close c = (\<lambda>w. (Done (c\<lparr>pools := []\<rparr>),
     w\<lparr>open_pools := filter (\<lambda>h. h \<notin> p_handle ` snd ` set (pools c)) (open_pools w)\<rparr>))"

text \<open>\<open>pgxpool.NewWithConfig\<close>: a fresh open pool, unless it refuses.\<close>

definition new_pool :: "(string \<Rightarrow> gerr option) \<Rightarrow> string \<Rightarrow> (gerr + pool) io" where
  "new_pool connect s = (\<lambda>w. case connect s of
     Some e \<Rightarrow> (Done (Inl e), w)
   | None \<Rightarrow> (Done (Inr \<lparr>p_handle = next_pool w, p_dsn = s\<rparr>),
              w\<lparr>open_pools := next_pool w # open_pools w, next_pool := next_pool w + 1\<rparr>))"

definition open_step :: "(string \<Rightarrow> gerr option) \<Rightarrow> (string \<Rightarrow> gerr option) \<Rightarrow>
    int \<times> string \<Rightarrow> cluster \<Rightarrow> (gerr + cluster) io" where
  "open_step parse connect = (\<lambda>(k, s) c.
     case parse s of
       Some e \<Rightarrow> bind_io (Close c) (\<lambda>_. ret (Inl (EAt ''shard'' k e)))
     | None \<Rightarrow>
         try_io (new_pool connect s)
           (\<lambda>e. bind_io (Close c) (\<lambda>_. ret (Inl (EAt ''shard'' k e))))
           (\<lambda>p. ret (Inr (c\<lparr>pools := AList.update k p (pools c)\<rparr>))))"

definition Open :: "(string \<Rightarrow> gerr option) \<Rightarrow> (string \<Rightarrow> gerr option) \<Rightarrow>
    (int, string) gomap \<Rightarrow> topology \<Rightarrow> (gerr + cluster) io" where
  "Open parse connect dsns tp = for_io (open_step parse connect) dsns \<lparr>pools = [], topo = tp\<rparr>"

definition SetTopology :: "cluster \<Rightarrow> topology \<Rightarrow> cluster" where
  "SetTopology c tp = c\<lparr>topo := tp\<rparr>"

definition Shards :: "cluster \<Rightarrow> int list" where
  "Shards c = sort (map fst (pools c))"

definition Pool :: "cluster \<Rightarrow> int \<Rightarrow> gerr + pool" where
  "Pool c s = (case map_of (pools c) s of None \<Rightarrow> Inl (ENoPool s) | Some p \<Rightarrow> Inr p)"

definition ReadPool :: "cluster \<Rightarrow> u64 \<Rightarrow> ((gerr + pool) \<times> int) go" where
  "ReadPool c tenantID = bind_go (RouteRead (topo c) tenantID) (\<lambda>s. Inr (Pool c s, s))"

fun pools_of :: "cluster \<Rightarrow> int list \<Rightarrow> gerr + pool list" where
  "pools_of c [] = Inr []"
| "pools_of c (s # ss) =
     (case Pool c s of
        Inl e \<Rightarrow> Inl e
      | Inr p \<Rightarrow> (case pools_of c ss of Inl e \<Rightarrow> Inl e | Inr ps \<Rightarrow> Inr (p # ps)))"

definition WritePools :: "cluster \<Rightarrow> u64 \<Rightarrow> (gerr + pool list \<times> int list) go" where
  "WritePools c tenantID = bind_go (RouteWrite (topo c) tenantID) (\<lambda>ss.
     Inr (case pools_of c ss of Inl e \<Rightarrow> Inl e | Inr ps \<Rightarrow> Inr (ps, ss)))"

definition ping :: "pool \<Rightarrow> (gerr + unit) io" where
  "ping p = query_row p (\<lambda>n. ())"

definition Ping :: "cluster \<Rightarrow> (gerr + unit) io" where
  "Ping c = for_io (\<lambda>s _. case Pool c s of
       Inl e \<Rightarrow> ret (Inl e)
     | Inr p \<Rightarrow> try_io (ping p) (\<lambda>e. ret (Inl (EAt ''unreachable'' s e))) (\<lambda>_. ret (Inr ())))
     (Shards c) ()"

section \<open>Well-formed clusters\<close>

text \<open>Every shard has one pool, and no two shards share a node.\<close>

definition wf_cluster :: "cluster \<Rightarrow> bool" where
  "wf_cluster c \<longleftrightarrow> go_map_ok (pools c) \<and> distinct (map (p_dsn \<circ> snd) (pools c))"

lemma set_Shards [simp]: "set (Shards c) = fst ` set (pools c)"
  by (simp add: Shards_def)

lemma sorted_Shards: "sorted (Shards c)"
  by (simp add: Shards_def)

lemma distinct_Shards: "wf_cluster c \<Longrightarrow> distinct (Shards c)"
  by (simp add: Shards_def wf_cluster_def go_map_ok_def)

lemma Pool_Shards: "s \<in> set (Shards c) \<Longrightarrow> \<exists>p. Pool c s = Inr p"
  by (cases "map_of (pools c) s") (auto simp: Pool_def map_of_eq_None_iff)

lemma Pool_Inr: "Pool c s = Inr p \<Longrightarrow> (s, p) \<in> set (pools c)"
  by (auto simp: Pool_def split: option.splits dest: map_of_SomeD)

lemma Pool_Inl: "Pool c s = Inl e \<Longrightarrow> e = ENoPool s \<and> s \<notin> set (Shards c)"
  by (auto simp: Pool_def split: option.splits dest!: map_of_eq_None_iff [THEN iffD1])

lemma Pool_node_inj:
  assumes "wf_cluster c" and "Pool c s = Inr p" and "Pool c s' = Inr p'" and "p_dsn p = p_dsn p'"
  shows "s = s'"
proof -
  have "(s, p) \<in> set (pools c)" "(s', p') \<in> set (pools c)" using assms(2,3) by (auto dest: Pool_Inr)
  moreover have "inj_on (p_dsn \<circ> snd) (set (pools c))"
    using assms(1) by (simp add: wf_cluster_def distinct_map)
  ultimately have "(s, p) = (s', p')" using assms(4) by (metis comp_apply inj_onD snd_conv)
  then show ?thesis by simp
qed

lemma pools_of_Inr:
  "pools_of c ss = Inr ps \<Longrightarrow> length ps = length ss \<and> (\<forall>i<length ss. Pool c (ss ! i) = Inr (ps ! i))"
proof (induction ss arbitrary: ps)
  case (Cons s ss)
  then obtain p ps' where ps: "ps = p # ps'" "Pool c s = Inr p" "pools_of c ss = Inr ps'"
    by (auto split: sum.splits)
  then have "length ps' = length ss" "\<forall>i<length ss. Pool c (ss ! i) = Inr (ps' ! i)"
    using Cons.IH by blast+
  with ps show ?case by (auto simp: less_Suc_eq_0_disj)
qed simp

lemma pools_of_Inl: "pools_of c ss = Inl e \<Longrightarrow> \<exists>s\<in>set ss. e = ENoPool s \<and> s \<notin> set (Shards c)"
proof (induction ss)
  case (Cons s ss)
  show ?case
  proof (cases "Pool c s")
    case (Inl e')
    then show ?thesis using Cons.prems Pool_Inl [OF Inl] by auto
  next
    case (Inr p)
    then show ?thesis using Cons by (cases "pools_of c ss") auto
  qed
qed simp

section \<open>Opening\<close>

text \<open>While \<open>Open\<close> runs: the pools it made are open, fresh and in the order of the map.\<close>

definition pool_entries :: "nat \<Rightarrow> (int, string) gomap \<Rightarrow> (int, pool) gomap" where
  "pool_entries h0 dsns = map2 (\<lambda>(k, s) h. (k, \<lparr>p_handle = h, p_dsn = s\<rparr>)) dsns [h0..<h0 + length dsns]"

definition open_state :: "world \<Rightarrow> (int, string) gomap \<Rightarrow> cluster \<Rightarrow> world \<Rightarrow> bool" where
  "open_state w0 made c w \<longleftrightarrow> pools c = pool_entries (next_pool w0) made
     \<and> w = w0\<lparr>open_pools := rev [next_pool w0..<next_pool w0 + length made] @ open_pools w0,
             next_pool := next_pool w0 + length made\<rparr>"

definition pools_fresh :: "world \<Rightarrow> bool" where
  "pools_fresh w \<longleftrightarrow> list_all (\<lambda>h. h < next_pool w) (open_pools w)"

lemma pool_entries_snoc:
  "pool_entries h (ds @ [(k, s)]) = pool_entries h ds @ [(k, \<lparr>p_handle = h + length ds, p_dsn = s\<rparr>)]"
  by (simp add: pool_entries_def)

lemma pool_entries_keys [simp]: "map fst (pool_entries h ds) = map fst ds"
  by (induction ds rule: rev_induct) (auto simp: pool_entries_snoc pool_entries_def)

lemma pool_entries_handles: "map (p_handle \<circ> snd) (pool_entries h ds) = [h..<h + length ds]"
  by (induction ds rule: rev_induct) (auto simp: pool_entries_snoc pool_entries_def)

lemma pool_entries_dsns: "map (p_dsn \<circ> snd) (pool_entries h ds) = map snd ds"
  by (induction ds rule: rev_induct) (auto simp: pool_entries_snoc pool_entries_def)

lemma AList_update_new: "k \<notin> fst ` set m \<Longrightarrow> AList.update k v m = m @ [(k, v)]"
  by (induction m) auto

lemma Close_open_state:
  assumes "open_state w0 made c w" and "pools_fresh w0"
  shows "\<exists>c' w'. Close c w = (Done c', w') \<and> pools c' = [] \<and> open_pools w' = open_pools w0
    \<and> nodes w' = nodes w0 \<and> script w' = script w0"
proof -
  let ?hs = "[next_pool w0..<next_pool w0 + length made]"
  have "p_handle ` snd ` set (pools c) = set (map (p_handle \<circ> snd) (pools c))" by (simp add: image_comp)
  then have hs: "p_handle ` snd ` set (pools c) = set ?hs"
    using assms(1) by (simp only: open_state_def pool_entries_handles)
  have "filter (\<lambda>h. h \<notin> set ?hs) (rev ?hs @ open_pools w0) = open_pools w0"
    using assms(2) by (auto simp: pools_fresh_def list_all_iff filter_id_conv filter_empty_conv)
  moreover have "open_pools w = rev ?hs @ open_pools w0" "nodes w = nodes w0" "script w = script w0"
    using assms(1) by (simp_all add: open_state_def)
  ultimately show ?thesis unfolding Close_def hs by simp
qed

lemma open_loop:
  assumes "open_state w0 made c w" and "pools_fresh w0" and "distinct (map fst (made @ rest))" and "topo c = tp"
  shows "case for_io (open_step parse connect) rest c w of
      (Done (Inr c'), w') \<Rightarrow> open_state w0 (made @ rest) c' w' \<and> topo c' = tp
        \<and> (\<forall>(k, s)\<in>set rest. parse s = None \<and> connect s = None)
    | (Done (Inl e), w') \<Rightarrow> open_pools w' = open_pools w0 \<and> nodes w' = nodes w0 \<and> script w' = script w0
        \<and> (\<exists>(k, s)\<in>set rest. parse s \<noteq> None \<or> connect s \<noteq> None)
    | _ \<Rightarrow> False"
  using assms(1,3,4)
proof (induction rest arbitrary: made c w)
  case (Cons ks rest)
  obtain k s where ks: "ks = (k, s)" by (cases ks)
  show ?case
  proof (cases "parse s = None \<and> connect s = None")
    case False
    obtain c' w' where close: "Close c w = (Done c', w')" "open_pools w' = open_pools w0"
        "nodes w' = nodes w0" "script w' = script w0"
      using Close_open_state [OF Cons.prems(1) assms(2)] by blast
    then show ?thesis
      using False by (auto simp: ks open_step_def try_io_def bind_io_def new_pool_def split: option.splits)
  next
    case True
    let ?c = "c\<lparr>pools := AList.update k \<lparr>p_handle = next_pool w, p_dsn = s\<rparr> (pools c)\<rparr>"
    let ?w = "w\<lparr>open_pools := next_pool w # open_pools w, next_pool := next_pool w + 1\<rparr>"
    have "k \<notin> set (map fst made)" using Cons.prems(2) ks by simp
    then have "k \<notin> fst ` set (pools c)"
      using Cons.prems(1) by (metis open_state_def pool_entries_keys set_map)
    then have state: "open_state w0 (made @ [ks]) ?c ?w"
      using Cons.prems(1) by (simp add: open_state_def AList_update_new ks pool_entries_snoc)
    have run: "for_io (open_step parse connect) (ks # rest) c w = for_io (open_step parse connect) rest ?c ?w"
      using True by (simp add: ks open_step_def try_io_def bind_io_def new_pool_def)
    show ?thesis
      unfolding run using Cons.IH [OF state] Cons.prems(2,3) True ks
      by (auto split: prod.splits outcome.splits sum.splits)
  qed
qed (simp split: prod.splits)

lemma Open_result:
  assumes "pools_fresh w" and "distinct (map fst dsns)"
  shows "case Open parse connect dsns tp w of
      (Done (Inr c), w') \<Rightarrow> open_state w dsns c w' \<and> topo c = tp
        \<and> (\<forall>(k, s)\<in>set dsns. parse s = None \<and> connect s = None)
    | (Done (Inl e), w') \<Rightarrow> open_pools w' = open_pools w \<and> nodes w' = nodes w \<and> script w' = script w
        \<and> (\<exists>(k, s)\<in>set dsns. parse s \<noteq> None \<or> connect s \<noteq> None)
    | _ \<Rightarrow> False"
proof -
  have "open_state w [] \<lparr>pools = [], topo = tp\<rparr> w" by (simp add: open_state_def pool_entries_def)
  from open_loop [OF this assms(1), of dsns tp parse connect, unfolded append_Nil] assms(2) show ?thesis
    by (simp add: Open_def)
qed

lemma open_state_wf:
  "open_state w0 dsns c w \<Longrightarrow> distinct (map fst dsns) \<Longrightarrow> distinct (map snd dsns) \<Longrightarrow> wf_cluster c"
  by (simp add: open_state_def wf_cluster_def go_map_ok_def pool_entries_dsns)

lemma open_state_Pool:
  "open_state w0 dsns c w \<Longrightarrow> map_option p_dsn (map_of (pools c) k) = map_of dsns k"
proof -
  have "map_option p_dsn (map_of (pool_entries h dsns) k) = map_of dsns k" for h
  proof (induction dsns rule: rev_induct)
    case (snoc d ds)
    obtain k' s where "d = (k', s)" by (cases d)
    then show ?case
      using snoc by (cases "map_of (pool_entries h ds) k"; cases "map_of ds k")
        (auto simp: pool_entries_snoc map_add_def split: option.splits)
  qed (simp add: pool_entries_def)
  then show "open_state w0 dsns c w \<Longrightarrow> map_option p_dsn (map_of (pools c) k) = map_of dsns k"
    by (simp add: open_state_def)
qed

section \<open>Connection strings\<close>

lemma fmt_d_inj:
  assumes "fmt_d i = fmt_d j" and "- (2 ^ 63) \<le> i" "i < 2 ^ 63" "- (2 ^ 63) \<le> j" "j < 2 ^ 63"
  shows "i = j"
proof -
  have "ParseInt (fmt_d i) = Inr i" using assms(2,3) by (rule ParseInt_fmt_d)
  moreover have "ParseInt (fmt_d i) = Inr j" unfolding assms(1) using assms(4,5) by (rule ParseInt_fmt_d)
  ultimately show ?thesis by (metis sum.inject(2))
qed

lemma base_port_range: "- (2 ^ 63) \<le> base_port env \<and> base_port env < 2 ^ 63"
  by (auto simp: base_port_def split: sum.splits dest: ParseInt_bounds)

lemma DSNs_distinct:
  assumes "n \<le> 2 ^ 63"
  shows "distinct (map fst (DSNsFromEnv env n))" "distinct (map snd (DSNsFromEnv env n))"
proof -
  let ?port = "\<lambda>i. sint (word_of_int (base_port env + i) :: i64)"
  have port: "i = j" if "?port i = ?port j" "0 \<le> i" "i < n" "0 \<le> j" "j < n" for i j
  proof -
    have "(word_of_int (base_port env + i) :: i64) = word_of_int (base_port env + j)"
      using that(1) by (simp only: signed_word_eqI)
    then have "(word_of_int i :: i64) = word_of_int j" by simp
    then have "sint (word_of_int i :: i64) = sint (word_of_int j :: i64)" by simp
    then show "i = j" using that assms by (simp add: sint_word_of_int_64)
  qed
  have "inj_on (\<lambda>i. dsn u pw h (?port i) d) {0..n - 1}" for u pw h d
  proof (rule inj_onI)
    fix i j assume ij: "i \<in> {0..n - 1}" "j \<in> {0..n - 1}" "dsn u pw h (?port i) d = dsn u pw h (?port j) d"
    then have "fmt_d (?port i) = fmt_d (?port j)" by (simp add: dsn_def)
    then have "?port i = ?port j"
      by (rule fmt_d_inj) (use sint_ge [where 'a = 64] sint_lt [where 'a = 64] in auto)
    then show "i = j" using port ij by simp
  qed
  then show "distinct (map snd (DSNsFromEnv env n))"
    by (simp add: DSNsFromEnv_def comp_def distinct_map)
  show "distinct (map fst (DSNsFromEnv env n))" by (simp add: DSNsFromEnv_def comp_def)
qed

section \<open>Properties\<close>

text \<open>\<open>Open\<close> is all or nothing.  It returns a cluster exactly when \<open>pgxpool\<close> accepts every
  connection string, with one new pool for every shard of the map; otherwise it returns an
  error and every pool it had opened is closed again.  Closing the cluster it returned leaves
  no pool behind either.\<close>

theorem open_all_or_nothing:
  assumes "pools_fresh w" and "distinct (map fst dsns)"
  shows "case Open parse connect dsns tp w of
      (Done (Inr c), w') \<Rightarrow> (\<forall>(k, s)\<in>set dsns. parse s = None \<and> connect s = None)
        \<and> (\<forall>k. map_option p_dsn (map_of (pools c) k) = map_of dsns k)
        \<and> Shards c = sort (map fst dsns) \<and> topo c = tp
        \<and> (\<exists>c'' w''. Close c w' = (Done c'', w'') \<and> pools c'' = [] \<and> open_pools w'' = open_pools w)
    | (Done (Inl e), w') \<Rightarrow> (\<exists>(k, s)\<in>set dsns. parse s \<noteq> None \<or> connect s \<noteq> None)
        \<and> open_pools w' = open_pools w
    | _ \<Rightarrow> False"
proof -
  have "Shards c = sort (map fst dsns)" if "open_state w dsns c w'" for c w'
    using that by (simp add: Shards_def open_state_def)
  then show ?thesis
    using Open_result [OF assms, of parse connect tp] open_state_Pool Close_open_state [OF _ assms(1)]
    by (fastforce split: prod.splits outcome.splits sum.splits)
qed

lemma open_all_or_nothing_witness:
  "let w = \<lparr>nodes = (\<lambda>_. \<lparr>tabs = \<lparr>orders = [], ledger = [], outbox = [], applied = []\<rparr>, prepared = []\<rparr>),
            script = [], open_pools = [2], next_pool = 5\<rparr>;
       refuse = (\<lambda>s. if s = ''b'' then Some EDriver else None)
   in case Open (\<lambda>s. None) refuse [(0, ''a''), (1, ''b'')] (TopModN \<lparr>mod_N = 2\<rparr>) w of
        (Done (Inl e), w') \<Rightarrow> open_pools w' = [2] | _ \<Rightarrow> False"
proof -
  let ?w = "\<lparr>nodes = (\<lambda>_. \<lparr>tabs = \<lparr>orders = [], ledger = [], outbox = [], applied = []\<rparr>, prepared = []\<rparr>),
            script = [], open_pools = [2], next_pool = 5\<rparr> :: world"
  have "pools_fresh ?w" by (simp add: pools_fresh_def)
  from open_all_or_nothing [OF this, of "[(0, ''a''), (1, ''b'')]" "\<lambda>s. None"
      "\<lambda>s. if s = ''b'' then Some EDriver else None" "TopModN \<lparr>mod_N = 2\<rparr>"]
  show ?thesis by (simp split: prod.splits outcome.splits sum.splits)
qed



end
