(* ===== verification/Scatter.thy ===== *)
theory Scatter
  imports Cluster
begin

text \<open>
  The fan-out of \<open>src/internal/shard/scatter.go\<close>.  Its goroutines are a step relation:
  the loop launches one per shard, a goroutine takes a slot of the semaphore, runs the shard's
  function and appends its result under the mutex.  \<open>Scatter\<close> is the same computation for a
  given order of completion; the lemmas show that every complete interleaving is such a run.
  The functions handed to \<open>Scatter\<close> make one round trip each, so running one is one step.
\<close>

section \<open>The code\<close>

record 'v ShardResult =
  sr_Shard :: int
  sr_Value :: 'v
  sr_Err :: "gerr option"
  sr_Took :: int

record ScatterOpts =
  PerShardTimeout :: int
  Concurrency :: int
  AllowPartial :: bool

definition withDefaults :: "ScatterOpts \<Rightarrow> int \<Rightarrow> ScatterOpts" where
  "withDefaults opts n =
     (let o1 = (if PerShardTimeout opts \<le> 0 then opts\<lparr>PerShardTimeout := 5 * 10 ^ 9\<rparr> else opts) in
      if Concurrency o1 \<le> 0 then o1\<lparr>Concurrency := n\<rparr> else o1)"

text \<open>
  One shard's turn: the result of its function, or the error of a missing pool with the zero
  value \<open>z\<close> of the result type.  \<open>took\<close> is what the clock says.
\<close>

type_synonym 'v shard_fn = "int \<Rightarrow> pool \<Rightarrow> ('v \<times> gerr option) io"

definition run_shard :: "'v \<Rightarrow> cluster \<Rightarrow> 'v shard_fn \<Rightarrow> int \<Rightarrow> int \<Rightarrow> 'v ShardResult io" where
  "run_shard z c fn took s =
     (case Pool c s of
        Inl e \<Rightarrow> ret \<lparr>sr_Shard = s, sr_Value = z, sr_Err = Some e, sr_Took = 0\<rparr>
      | Inr p \<Rightarrow> bind_io (fn s p) (\<lambda>(v, e).
          ret \<lparr>sr_Shard = s, sr_Value = v, sr_Err = e, sr_Took = took\<rparr>))"

fun gather :: "'v \<Rightarrow> cluster \<Rightarrow> 'v shard_fn \<Rightarrow> (int \<times> int) list \<Rightarrow> 'v ShardResult list io" where
  "gather z c fn [] = ret []"
| "gather z c fn ((s, took) # ss) =
     bind_io (run_shard z c fn took s) (\<lambda>r. bind_io (gather z c fn ss) (\<lambda>rs. ret (r # rs)))"

definition join_errors :: "'v ShardResult list \<Rightarrow> gerr list" where
  "join_errors rs = concat (map (\<lambda>r. case sr_Err r of None \<Rightarrow> [] | Some e \<Rightarrow> [EAt ''shard'' (sr_Shard r) e]) rs)"

definition finish :: "ScatterOpts \<Rightarrow> 'v ShardResult list \<Rightarrow> 'v ShardResult list \<times> gerr option" where
  "finish opts out =
     (let rs = sort_key sr_Shard out in
      if \<not> AllowPartial opts \<and> join_errors rs \<noteq> [] then (rs, Some (EJoin (join_errors rs))) else (rs, None))"

text \<open>\<open>sched\<close> is the order in which the shards complete, with the time each took.\<close>

definition Scatter :: "'v \<Rightarrow> (int \<times> int) list \<Rightarrow> cluster \<Rightarrow> ScatterOpts \<Rightarrow> 'v shard_fn \<Rightarrow>
    ('v ShardResult list \<times> gerr option) io" where
  "Scatter z sched c opts fn =
     bind_io (gather z c fn sched) (\<lambda>out. ret (finish (withDefaults opts (int (length (Shards c)))) out))"

definition sched_ok :: "cluster \<Rightarrow> (int \<times> int) list \<Rightarrow> bool" where
  "sched_ok c sched \<longleftrightarrow> mset (map fst sched) = mset (Shards c)"

fun SlowestShard_loop :: "'v ShardResult list \<Rightarrow> int \<times> int \<Rightarrow> int \<times> int" where
  "SlowestShard_loop [] acc = acc"
| "SlowestShard_loop (r # rs) acc =
     SlowestShard_loop rs (if sr_Took r > snd acc then (sr_Shard r, sr_Took r) else acc)"

definition SlowestShard :: "'v ShardResult list \<Rightarrow> int \<times> int" where
  "SlowestShard rs = SlowestShard_loop rs (-1, 0)"

section \<open>The goroutines\<close>

text \<open>
  \<open>f_sched\<close> records, for the proofs, the order in which results were appended.
\<close>

record 'v fanout =
  f_world :: world
  f_todo :: "int list"
  f_waiting :: "int list"
  f_running :: "int list"
  f_out :: "'v ShardResult list"
  f_sched :: "(int \<times> int) list"

inductive fan_step :: "'v \<Rightarrow> cluster \<Rightarrow> 'v shard_fn \<Rightarrow> nat \<Rightarrow> 'v fanout \<Rightarrow> 'v fanout \<Rightarrow> bool"
  for z c fn conc where
  no_pool: "f_todo st = s # ss \<Longrightarrow> Pool c s = Inl e \<Longrightarrow>
    fan_step z c fn conc st (st\<lparr>f_todo := ss,
      f_out := f_out st @ [\<lparr>sr_Shard = s, sr_Value = z, sr_Err = Some e, sr_Took = 0\<rparr>],
      f_sched := f_sched st @ [(s, 0)]\<rparr>)"
| launch: "f_todo st = s # ss \<Longrightarrow> Pool c s = Inr p \<Longrightarrow>
    fan_step z c fn conc st (st\<lparr>f_todo := ss, f_waiting := s # f_waiting st\<rparr>)"
| acquire: "s \<in> set (f_waiting st) \<Longrightarrow> length (f_running st) < conc \<Longrightarrow>
    fan_step z c fn conc st (st\<lparr>f_waiting := remove1 s (f_waiting st), f_running := s # f_running st\<rparr>)"
| complete: "s \<in> set (f_running st) \<Longrightarrow> run_shard z c fn took s (f_world st) = (Done r, w') \<Longrightarrow>
    fan_step z c fn conc st (st\<lparr>f_world := w', f_running := remove1 s (f_running st),
      f_out := f_out st @ [r], f_sched := f_sched st @ [(s, took)]\<rparr>)"

definition fan_init :: "cluster \<Rightarrow> world \<Rightarrow> 'v fanout" where
  "fan_init c w = \<lparr>f_world = w, f_todo = Shards c, f_waiting = [], f_running = [], f_out = [], f_sched = []\<rparr>"

text \<open>\<open>wg.Wait()\<close> returns when every goroutine is done.\<close>

definition fan_done :: "'v fanout \<Rightarrow> bool" where
  "fan_done st \<longleftrightarrow> f_todo st = [] \<and> f_waiting st = [] \<and> f_running st = []"

definition fan_measure :: "'v fanout \<Rightarrow> nat" where
  "fan_measure st = 3 * length (f_todo st) + 2 * length (f_waiting st) + length (f_running st)"

section \<open>Runs of the goroutines\<close>

lemma gather_snoc:
  "gather z c fn (ss @ [(s, took)]) =
     bind_io (gather z c fn ss) (\<lambda>rs. bind_io (run_shard z c fn took s) (\<lambda>r. ret (rs @ [r])))"
proof (induction ss)
  case (Cons a ss)
  obtain s' t' where "a = (s', t')" by (cases a)
  then show ?case by (simp add: Cons bind_io_assoc)
qed simp

definition fan_inv :: "'v \<Rightarrow> cluster \<Rightarrow> 'v shard_fn \<Rightarrow> nat \<Rightarrow> world \<Rightarrow> 'v fanout \<Rightarrow> bool" where
  "fan_inv z c fn conc w st \<longleftrightarrow> length (f_running st) \<le> conc
     \<and> mset (map fst (f_sched st) @ f_running st @ f_waiting st @ f_todo st) = mset (Shards c)
     \<and> gather z c fn (f_sched st) w = (Done (f_out st), f_world st)"

lemma fan_inv_init: "fan_inv z c fn conc w (fan_init c w)"
  by (simp add: fan_inv_def fan_init_def)

lemma fan_inv_step:
  assumes "fan_step z c fn conc st st'" and "fan_inv z c fn conc w st"
  shows "fan_inv z c fn conc w st'"
  using assms
proof (induction rule: fan_step.induct)
  case (no_pool st s ss e)
  then show ?case by (auto simp: fan_inv_def gather_snoc bind_io_def run_shard_def)
next
  case (launch st s ss p)
  then show ?case by (simp add: fan_inv_def)
next
  case (acquire s st)
  then show ?case by (auto simp: fan_inv_def)
next
  case (complete s st took r w')
  then have "length (remove1 s (f_running st)) \<le> conc"
    by (metis diff_le_self fan_inv_def le_trans length_remove1)
  with complete show ?case by (auto simp: fan_inv_def gather_snoc bind_io_def)
qed

lemma fan_steps_inv:
  "(fan_step z c fn conc)\<^sup>*\<^sup>* st st' \<Longrightarrow> fan_inv z c fn conc w st \<Longrightarrow> fan_inv z c fn conc w st'"
  by (induction rule: rtranclp_induct) (auto intro: fan_inv_step)

lemma fan_step_decreases: "fan_step z c fn conc st st' \<Longrightarrow> fan_measure st' < fan_measure st"
proof (induction rule: fan_step.induct)
  case (acquire s st)
  then obtain n where "length (f_waiting st) = Suc n" by (metis gr0_implies_Suc length_pos_if_in_set)
  with acquire show ?case by (simp add: fan_measure_def length_remove1)
next
  case (complete s st took r w')
  then obtain n where "length (f_running st) = Suc n" by (metis gr0_implies_Suc length_pos_if_in_set)
  with complete show ?case by (simp add: fan_measure_def length_remove1)
qed (simp_all add: fan_measure_def)

lemma fan_step_terminates: "wfP (\<lambda>st' st. fan_step z c fn conc st st')"
  by (rule wfp_if_convertible_to_nat [where f = fan_measure]) (rule fan_step_decreases)

text \<open>
  While the process lives, a fan-out that is not done can make a step.
\<close>

lemma fan_progress:
  assumes "\<not> fan_done st" and "0 < conc"
    and "\<And>s p. \<exists>v w'. fn s p (f_world st) = (Done v, w')"
  shows "\<exists>st'. fan_step z c fn conc st st'"
proof -
  consider s ss where "f_todo st = s # ss" | s where "s \<in> set (f_running st)"
    | s where "f_running st = []" "s \<in> set (f_waiting st)"
    using assms(1) unfolding fan_done_def by (metis list.exhaust list.set_intros(1))
  then show ?thesis
  proof cases
    case 1
    then show ?thesis by (cases "Pool c s") (blast intro: no_pool launch)+
  next
    case 2
    have "\<exists>r w'. run_shard z c fn 0 s (f_world st) = (Done r, w')"
    proof (cases "Pool c s")
      case (Inr p)
      obtain v w' where "fn s p (f_world st) = (Done v, w')" using assms(3) by blast
      with Inr show ?thesis by (simp add: run_shard_def bind_io_def split: prod.splits)
    qed (simp add: run_shard_def)
    then show ?thesis using complete [OF 2] by blast
  next
    case 3
    have "length (f_running st) < conc" using 3(1) assms(2) by simp
    then show ?thesis using acquire [OF 3(2)] by blast
  qed
qed

section \<open>Results\<close>

lemma gather_shards: "gather z c fn sched w = (Done out, w') \<Longrightarrow> map sr_Shard out = map fst sched"
proof (induction sched arbitrary: w out)
  case (Cons a sched)
  obtain s took where a: "a = (s, took)" by (cases a)
  then show ?case
    using Cons by (fastforce simp: bind_io_def run_shard_def split: prod.splits outcome.splits sum.splits)
qed simp

lemma join_errors_Nil: "join_errors rs = [] \<longleftrightarrow> (\<forall>r\<in>set rs. sr_Err r = None)"
  by (auto simp: join_errors_def split: option.splits)

lemma withDefaults_AllowPartial [simp]: "AllowPartial (withDefaults opts n) = AllowPartial opts"
  by (simp add: withDefaults_def Let_def)

lemma withDefaults_Concurrency: "0 < n \<Longrightarrow> 0 < Concurrency (withDefaults opts n)"
  by (simp add: withDefaults_def Let_def)

lemma Scatter_result:
  "Scatter z sched c opts fn w = (Done (rs, err), w') \<longleftrightarrow>
    (\<exists>out. gather z c fn sched w = (Done out, w') \<and> rs = sort_key sr_Shard out
      \<and> err = (if \<not> AllowPartial opts \<and> join_errors rs \<noteq> [] then Some (EJoin (join_errors rs)) else None))"
  by (auto simp: Scatter_def bind_io_def finish_def Let_def split: prod.splits outcome.splits)

text \<open>Sorting by shard undoes the order of completion.\<close>

lemma sort_by_shard:
  assumes "sched_ok c sched" and "map sr_Shard out = map fst sched"
  shows "map sr_Shard (sort_key sr_Shard out) = Shards c"
proof -
  have "mset (map sr_Shard (sort_key sr_Shard out)) = mset (Shards c)"
    using assms by (metis mset_map mset_sort sched_ok_def)
  then show ?thesis
    using sorted_sort_key [of sr_Shard out] sorted_Shards [of c]
    by (metis properties_for_sort sorted_sort_id)
qed

section \<open>Properties\<close>

text \<open>C11: The goroutines of a fan-out, in every interleaving: never more than the allowed number
  are in flight, and once all are done the results, sorted, and the databases are exactly those
  of the sequential \<open>Scatter\<close> that runs each shard's function once, in the order in which the
  goroutines completed.\<close>

theorem scatter_interleavings:
  assumes "(fan_step z c fn conc)\<^sup>*\<^sup>* (fan_init c w) st"
  shows "length (f_running st) \<le> conc
    \<and> (fan_done st \<longrightarrow> sched_ok c (f_sched st)
        \<and> Scatter z (f_sched st) c opts fn w
            = (Done (finish (withDefaults opts (int (length (Shards c)))) (f_out st)), f_world st))"
proof -
  have "fan_inv z c fn conc w st" using assms fan_inv_init by (rule fan_steps_inv)
  then show ?thesis by (auto simp: fan_inv_def fan_done_def sched_ok_def Scatter_def bind_io_def)
qed

lemma scatter_interleavings_witness:
  "let c = \<lparr>pools = [(0, \<lparr>p_handle = 0, p_dsn = ''a''\<rparr>)], topo = TopModN \<lparr>mod_N = 1\<rparr>\<rparr>;
       fn = (\<lambda>s p. ret (s, None))
   in \<forall>w. \<exists>st. (fan_step 0 c fn 1)\<^sup>*\<^sup>* (fan_init c w) st \<and> f_running st = [0] \<and> length (f_running st) \<le> 1"
proof (unfold Let_def, rule allI)
  fix w :: world
  let ?c = "\<lparr>pools = [(0, \<lparr>p_handle = 0, p_dsn = ''a''\<rparr>)], topo = TopModN \<lparr>mod_N = 1\<rparr>\<rparr>"
  let ?fn = "(\<lambda>s p. ret (s, None)) :: int shard_fn"
  let ?st0 = "fan_init ?c w"
  let ?st1 = "?st0\<lparr>f_todo := [], f_waiting := [0]\<rparr>"
  let ?st2 = "?st1\<lparr>f_waiting := [], f_running := [0]\<rparr>"
  have "fan_step 0 ?c ?fn 1 ?st0 ?st1"
    using launch [of ?st0 0 "[]" ?c "\<lparr>p_handle = 0, p_dsn = ''a''\<rparr>" 0 ?fn 1]
    by (simp add: fan_init_def Shards_def Pool_def)
  moreover have "fan_step 0 ?c ?fn 1 ?st1 ?st2"
    using acquire [of 0 ?st1 1 0 ?c ?fn] by (simp add: fan_init_def)
  ultimately have run: "(fan_step 0 ?c ?fn 1)\<^sup>*\<^sup>* ?st0 ?st2" by simp
  show "\<exists>st. (fan_step 0 ?c ?fn 1)\<^sup>*\<^sup>* ?st0 st \<and> f_running st = [0] \<and> length (f_running st) \<le> 1"
    by (rule exI [of _ ?st2]) (use run scatter_interleavings [OF run, THEN conjunct1] in simp)
qed

text \<open>A fan-out never hangs: with the defaults of \<open>withDefaults\<close> at least one slot exists, every
  state that is not done has a next step as long as the shards' functions return, and no
  sequence of steps is infinite.\<close>

theorem scatter_finishes:
  assumes "Shards c \<noteq> []" and "\<And>s p w. \<exists>v w'. fn s p w = (Done v, w')"
    and "conc = nat (Concurrency (withDefaults opts (int (length (Shards c)))))"
  shows "0 < conc \<and> wfP (\<lambda>st' st. fan_step z c fn conc st st')
    \<and> (\<forall>st. \<not> fan_done st \<longrightarrow> (\<exists>st'. fan_step z c fn conc st st'))"
proof -
  have "0 < conc" using assms(1,3) withDefaults_Concurrency [of "int (length (Shards c))" opts] by simp
  then show ?thesis
    using assms(2) by (intro conjI allI impI fan_step_terminates) (auto intro: fan_progress)
qed

lemma scatter_finishes_witness:
  "let c = \<lparr>pools = [(0, \<lparr>p_handle = 0, p_dsn = ''a''\<rparr>)], topo = TopModN \<lparr>mod_N = 1\<rparr>\<rparr>
   in wfP (\<lambda>st' st. fan_step (0 :: int) c (\<lambda>s p. ret (s, None)) 1 st st')"
proof -
  let ?c = "\<lparr>pools = [(0, \<lparr>p_handle = 0, p_dsn = ''a''\<rparr>)], topo = TopModN \<lparr>mod_N = 1\<rparr>\<rparr>"
  have ne: "Shards ?c \<noteq> []" by (simp add: Shards_def)
  have "wfP (\<lambda>st' st. fan_step (0 :: int) ?c (\<lambda>s p. ret (s, None)) 1 st st')"
    using scatter_finishes [OF ne, of "\<lambda>s p. ret (s, None)" 1 "\<lparr>PerShardTimeout = 0, Concurrency = 0, AllowPartial = True\<rparr>" "0 :: int"]
    by (simp add: withDefaults_def Let_def Shards_def)
  then show ?thesis by (simp add: Let_def)
qed

lemma SlowestShard_loop_max:
  "(\<forall>r\<in>set rs. sr_Took r \<le> snd (SlowestShard_loop rs acc)) \<and> snd acc \<le> snd (SlowestShard_loop rs acc)
   \<and> (SlowestShard_loop rs acc = acc \<or> SlowestShard_loop rs acc \<in> (\<lambda>r. (sr_Shard r, sr_Took r)) ` set rs)"
proof (induction rs arbitrary: acc)
  case (Cons r rs)
  define a where "a = (if sr_Took r > snd acc then (sr_Shard r, sr_Took r) else acc)"
  have a: "snd acc \<le> snd a" "sr_Took r \<le> snd a" "a = acc \<or> a = (sr_Shard r, sr_Took r)"
    by (auto simp: a_def)
  have "SlowestShard_loop (r # rs) acc = SlowestShard_loop rs a" by (simp add: a_def)
  with a Cons.IH [of a] show ?case by auto
qed simp

text \<open>\<open>SlowestShard\<close> returns the largest time of the results and a shard that took it; with no
  result that took any time it returns shard \<open>-1\<close> and zero.\<close>

theorem slowest_shard_is_max:
  "(\<forall>r\<in>set rs. sr_Took r \<le> snd (SlowestShard rs))
   \<and> (SlowestShard rs \<in> (\<lambda>r. (sr_Shard r, sr_Took r)) ` set rs
      \<or> SlowestShard rs = (-1, 0) \<and> (\<forall>r\<in>set rs. sr_Took r \<le> 0))"
  using SlowestShard_loop_max [of rs "(-1, 0)"] unfolding SlowestShard_def by (metis snd_conv)

lemma slowest_shard_is_max_witness:
  "SlowestShard [\<lparr>sr_Shard = 0, sr_Value = (), sr_Err = None, sr_Took = 4\<rparr>,
     \<lparr>sr_Shard = 1, sr_Value = (), sr_Err = None, sr_Took = 9\<rparr>] = (1, 9)
   \<and> (\<forall>r\<in>set [\<lparr>sr_Shard = 0, sr_Value = (), sr_Err = None, sr_Took = 4\<rparr>]. sr_Took r \<le> snd (SlowestShard
        [\<lparr>sr_Shard = 0, sr_Value = (), sr_Err = None, sr_Took = 4\<rparr>]))"
proof
  show "\<forall>r\<in>set [\<lparr>sr_Shard = 0, sr_Value = (), sr_Err = None, sr_Took = 4\<rparr>]. sr_Took r \<le> snd (SlowestShard
        [\<lparr>sr_Shard = 0, sr_Value = (), sr_Err = None, sr_Took = 4\<rparr>])"
    by (rule slowest_shard_is_max [THEN conjunct1])
qed (simp add: SlowestShard_def)

end
