(* ===== verification/Orders.thy ===== *)
theory Orders
  imports Scatter
begin

text \<open>
  The order queries of \<open>src/internal/shard/orders.go\<close> and \<open>PageRecent\<close> of
  \<open>keyset.go\<close>: the dual-writing \<open>Insert\<close>, the single-shard read, the fan-outs and the
  placement audit, with what each says of the tables whatever the network does.
\<close>

section \<open>Insert\<close>

definition mk_order :: "int \<Rightarrow> u64 \<Rightarrow> int \<Rightarrow> time \<Rightarrow> int \<Rightarrow> string \<Rightarrow> order" where
  "mk_order k tenantID logical created cents state =
     \<lparr>o_ID = k, o_TenantID = tenantID, o_LogicalShard = logical, o_CreatedAt = created,
      o_TotalCents = cents, o_State = state, o_Shard = 0\<rparr>"

text \<open>\<open>INSERT ... ON CONFLICT (id) DO NOTHING\<close> with \<open>now()\<close> of the node.\<close>

definition has_order :: "int \<Rightarrow> tables \<Rightarrow> bool" where
  "has_order k T \<longleftrightarrow> k \<in> o_ID ` set (orders T)"

definition sql_insert_order :: "(time \<Rightarrow> order) \<Rightarrow> time \<Rightarrow> node \<Rightarrow> sql_error + unit \<times> node" where
  "sql_insert_order row now n =
     (if has_order (o_ID (row now)) (tabs n) then Inr ((), n)
      else Inr ((), n\<lparr>tabs := (tabs n)\<lparr>orders := orders (tabs n) @ [row now]\<rparr>\<rparr>))"

definition insert_leg :: "(time \<Rightarrow> order) \<Rightarrow> pool \<times> int \<Rightarrow> unit \<Rightarrow> (gerr + unit) io" where
  "insert_leg row = (\<lambda>(p, s) _.
     try_io (round_trip p (sql_insert_order row)) (\<lambda>e. ret (Inl (EAt ''insert on shard'' s e))) (\<lambda>_. ret (Inr ())))"

definition Insert :: "cluster \<Rightarrow> int \<Rightarrow> u64 \<Rightarrow> int \<Rightarrow> string \<Rightarrow> (gerr + unit) io" where
  "Insert c k tenantID cents state =
     bind_io (lift_go (WritePools c tenantID)) (\<lambda>r.
       case r of
         Inl e \<Rightarrow> ret (Inl e)
       | Inr (ps, ss) \<Rightarrow>
           bind_io (lift_go (logicalOf (topo c) tenantID)) (\<lambda>logical.
             for_io (insert_leg (\<lambda>now. mk_order k tenantID logical now cents state)) (zip ps ss) ()))"

section \<open>Reads\<close>

record TenantSummary =
  ts_TenantID :: u64
  ts_Shard :: int
  ts_Orders :: int
  ts_Cents :: int

definition tenant_rows :: "u64 \<Rightarrow> tables \<Rightarrow> order list" where
  "tenant_rows t T = filter (\<lambda>r. o_TenantID r = t) (orders T)"

definition SummarizeTenant :: "cluster \<Rightarrow> u64 \<Rightarrow> (gerr + TenantSummary) io" where
  "SummarizeTenant c tenantID =
     bind_io (lift_go (ReadPool c tenantID)) (\<lambda>(r, s).
       case r of
         Inl e \<Rightarrow> ret (Inl e)
       | Inr p \<Rightarrow>
           try_io (query_row p (\<lambda>n. (int (length (tenant_rows tenantID (tabs n))),
                                      sum_list (map o_TotalCents (tenant_rows tenantID (tabs n))))))
             (\<lambda>e. ret (Inl e))
             (\<lambda>(cnt, cents). ret (Inr \<lparr>ts_TenantID = tenantID, ts_Shard = s, ts_Orders = cnt, ts_Cents = cents\<rparr>)))"

text \<open>\<open>SELECT state, count(*) FROM orders GROUP BY state\<close>.\<close>

definition count_state :: "string \<Rightarrow> tables \<Rightarrow> int" where
  "count_state st T = int (length (filter (\<lambda>r. o_State r = st) (orders T)))"

definition sql_state_counts :: "node \<Rightarrow> sql_error + (string \<times> int) list" where
  "sql_state_counts n = Inr (map (\<lambda>st. (st, count_state st (tabs n))) (remdups (map o_State (orders (tabs n)))))"

definition state_counts_fn :: "(string, int) gomap shard_fn" where
  "state_counts_fn s p = bind_io (query_rows p sql_state_counts) (\<lambda>r.
     case r of
       Inl e \<Rightarrow> ret ([], Some e)
     | Inr (rows, err) \<Rightarrow> ret (fold (\<lambda>(st, n) m. AList.update st n m) rows [], err))"

definition merge_counts :: "(string, int) gomap ShardResult list \<Rightarrow> (string, int) gomap" where
  "merge_counts rs = fold (\<lambda>r m. fold (\<lambda>(st, n) m. go_add m st n) (sr_Value r) m) rs []"

definition StateCounts :: "(int \<times> int) list \<Rightarrow> cluster \<Rightarrow> bool \<Rightarrow>
    ((string, int) gomap \<times> (string, int) gomap ShardResult list \<times> gerr option) io" where
  "StateCounts sched c allowPartial =
     bind_io (Scatter [] sched c \<lparr>PerShardTimeout = 5 * 10 ^ 9, Concurrency = 0, AllowPartial = allowPartial\<rparr>
        state_counts_fn)
       (\<lambda>(results, err). ret (merge_counts results, results, err))"

text \<open>\<open>pg_total_relation_size\<close> is the argument \<open>relsize\<close>.\<close>

record ShardStats =
  ss_Shard :: int
  ss_Rows :: int
  ss_Tenants :: int
  ss_Bytes :: int

definition sql_stats :: "(tables \<Rightarrow> int) \<Rightarrow> int \<Rightarrow> node \<Rightarrow> ShardStats" where
  "sql_stats relsize s n =
     \<lparr>ss_Shard = s, ss_Rows = int (length (orders (tabs n))),
      ss_Tenants = int (length (remdups (map o_TenantID (orders (tabs n))))), ss_Bytes = relsize (tabs n)\<rparr>"

definition zero_stats :: "int \<Rightarrow> ShardStats" where
  "zero_stats s = \<lparr>ss_Shard = s, ss_Rows = 0, ss_Tenants = 0, ss_Bytes = 0\<rparr>"

definition stats_fn :: "(tables \<Rightarrow> int) \<Rightarrow> ShardStats shard_fn" where
  "stats_fn relsize s p = bind_io (query_row p (sql_stats relsize s)) (\<lambda>r.
     case r of Inl e \<Rightarrow> ret (zero_stats s, Some e) | Inr st \<Rightarrow> ret (st, None))"

definition Stats :: "(int \<times> int) list \<Rightarrow> (tables \<Rightarrow> int) \<Rightarrow> cluster \<Rightarrow> (gerr + ShardStats list) io" where
  "Stats sched relsize c =
     bind_io (Scatter (zero_stats 0) sched c \<lparr>PerShardTimeout = 0, Concurrency = 0, AllowPartial = False\<rparr>
        (stats_fn relsize))
       (\<lambda>(results, err). case err of Some e \<Rightarrow> ret (Inl e) | None \<Rightarrow> ret (Inr (map sr_Value results)))"

section \<open>The feed\<close>

definition sql_feed :: "cursor \<Rightarrow> int \<Rightarrow> node \<Rightarrow> sql_error + order list" where
  "sql_feed after limit n =
     (if limit < 0 then Inl NegativeLimit else Inr (sql_page after (nat limit) (orders (tabs n))))"

definition page_fn :: "cursor \<Rightarrow> int \<Rightarrow> order list shard_fn" where
  "page_fn after limit s p = bind_io (query_rows p (sql_feed after limit)) (\<lambda>r.
     case r of
       Inl e \<Rightarrow> ret ([], Some e)
     | Inr (rows, err) \<Rightarrow> ret (map (\<lambda>o'. o'\<lparr>o_Shard := s\<rparr>) rows, err))"

definition PageRecent :: "(int \<times> int) list \<Rightarrow> cluster \<Rightarrow> cursor \<Rightarrow> int \<Rightarrow> (gerr + order list \<times> cursor) io" where
  "PageRecent sched c after limit =
     bind_io (Scatter [] sched c \<lparr>PerShardTimeout = 5 * 10 ^ 9, Concurrency = 0, AllowPartial = False\<rparr>
        (page_fn after limit))
       (\<lambda>(results, err). case err of
          Some e \<Rightarrow> ret (Inl e)
        | None \<Rightarrow> bind_io (lift_go (MergeDesc (map sr_Value results) limit))
            (\<lambda>page. ret (Inr (page, next_cursor after page))))"

section \<open>The audit\<close>

definition sql_tenants :: "node \<Rightarrow> sql_error + u64 list" where
  "sql_tenants n = Inr (remdups (map o_TenantID (orders (tabs n))))"

fun wrong_tenants :: "topology \<Rightarrow> int \<Rightarrow> u64 list \<Rightarrow> u64 list go" where
  "wrong_tenants tp s [] = Inr []"
| "wrong_tenants tp s (t # ts) =
     bind_go (RouteRead tp t) (\<lambda>s'. bind_go (wrong_tenants tp s ts) (\<lambda>wrong.
       Inr (if s' \<noteq> s then t # wrong else wrong)))"

text \<open>\<open>rows.Err()\<close> is not looked at: the second component of the query is dropped.\<close>

definition audit_shard :: "cluster \<Rightarrow> int \<Rightarrow> (int, int) gomap \<Rightarrow> (gerr + (int, int) gomap) io" where
  "audit_shard c s out =
     (case Pool c s of
        Inl e \<Rightarrow> ret (Inl e)
      | Inr p \<Rightarrow>
          try_io (query_rows p sql_tenants) (\<lambda>e. ret (Inl e)) (\<lambda>(tenants, err).
            bind_io (lift_go (wrong_tenants (topo c) s tenants)) (\<lambda>wrong.
              if wrong = [] then ret (Inr (AList.update s 0 out))
              else try_io (query_row p (\<lambda>n. int (length (filter (\<lambda>r. o_TenantID r \<in> set wrong) (orders (tabs n))))))
                (\<lambda>e. ret (Inl e)) (\<lambda>cnt. ret (Inr (AList.update s cnt out))))))"

definition Misplaced :: "cluster \<Rightarrow> (gerr + (int, int) gomap) io" where
  "Misplaced c = for_io (audit_shard c) (Shards c) []"

section \<open>What Insert does\<close>

text \<open>Orders are only ever added.\<close>

definition orders_grow :: "db \<Rightarrow> db \<Rightarrow> bool" where
  "orders_grow d d' \<longleftrightarrow> (\<forall>s. set (orders (tabs (d s))) \<subseteq> set (orders (tabs (d' s))))"

interpretation grow: rely orders_grow
  by unfold_locales (auto simp: orders_grow_def)

lemma has_order_grow: "orders_grow d d' \<Longrightarrow> has_order k (tabs (d s)) \<Longrightarrow> has_order k (tabs (d' s))"
  by (auto simp: orders_grow_def has_order_def)

lemma guar_insert_leg: "guar orders_grow (insert_leg row ps u)"
  unfolding insert_leg_def
  by (cases ps) (auto intro!: grow.guar_try grow.guar_ret grow.guar_round_trip
      simp: sql_insert_order_def orders_grow_def split: if_splits)

lemma insert_leg_Ok:
  assumes "insert_leg row (p, s) () w = (Done (Inr ()), w')" and "\<And>t. o_ID (row t) = k"
  shows "has_order k (tabs (nodes w' (p_dsn p)))"
proof (cases "script w")
  case (Cons e es)
  with assms show ?thesis
    by (auto simp: insert_leg_def try_io_def bind_io_def round_trip_def Let_def sql_insert_order_def
        has_order_def split: if_splits)
qed (use assms in \<open>simp add: insert_leg_def try_io_def bind_io_def round_trip_def\<close>)

lemma insert_loop_Ok:
  assumes "for_io (insert_leg row) legs () w = (Done r, w')" and "\<And>t. o_ID (row t) = k"
    and "moves_in orders_grow (script w)"
  shows "case r of
      Inr u \<Rightarrow> \<forall>(p, s)\<in>set legs. has_order k (tabs (nodes w' (p_dsn p)))
    | Inl e \<Rightarrow> \<exists>made p s rest e'. legs = made @ (p, s) # rest \<and> e = EAt ''insert on shard'' s e'
        \<and> (\<forall>(p, s)\<in>set made. has_order k (tabs (nodes w' (p_dsn p))))"
  using assms(1,3)
proof (induction legs arbitrary: w)
  case (Cons leg legs)
  obtain p s where leg: "leg = (p, s)" by (cases leg)
  obtain r1 w1 where first: "insert_leg row leg () w = (r1, w1)" by (metis surj_pair)
  have guar: "orders_grow (nodes w) (nodes w1)" "moves_in orders_grow (script w1)"
    using guar_insert_leg [of row leg "()"] Cons.prems(2) first unfolding guar_def by (metis snd_conv)+
  show ?case
  proof (cases r1)
    case (Done v)
    show ?thesis
    proof (cases v)
      case (Inl e)
      then have "r = Inl e" using Cons.prems(1) first Done by (simp add: try_io_def bind_io_def)
      moreover have "\<exists>e'. e = EAt ''insert on shard'' s e'"
        using first Done Inl leg
        by (auto simp: insert_leg_def try_io_def bind_io_def split: prod.splits outcome.splits sum.splits)
      ultimately show ?thesis using leg by (auto intro!: exI [of _ "[]"])
    next
      case (Inr u)
      then have rest: "for_io (insert_leg row) legs () w1 = (Done r, w')"
        using Cons.prems(1) first Done by (simp add: try_io_def bind_io_def)
      have "guar orders_grow (for_io (insert_leg row) legs ())"
        by (intro grow.guar_for guar_insert_leg)
      then have "orders_grow (nodes w1) (nodes w')"
        using guar(2) rest unfolding guar_def by (metis snd_conv)
      then have here: "has_order k (tabs (nodes w' (p_dsn p)))"
        using insert_leg_Ok [of row p s w w1 k] first Done Inr leg assms(2) has_order_grow by auto
      show ?thesis
      proof (cases r)
        case Inl
        then obtain made p' s' rest e' where "legs = made @ (p', s') # rest"
          "r = Inl (EAt ''insert on shard'' s' e')" "\<forall>(p, s)\<in>set made. has_order k (tabs (nodes w' (p_dsn p)))"
          using Cons.IH [OF rest guar(2)] by auto
        then show ?thesis using here leg by (auto intro!: exI [of _ "leg # made"])
      qed (use Cons.IH [OF rest guar(2)] here leg in auto)
    qed
  qed (use Cons.prems(1) first in \<open>simp_all add: try_io_def bind_io_def\<close>)
qed auto

section \<open>What the fan-outs read\<close>

definition empty_tables :: tables where
  "empty_tables = \<lparr>orders = [], ledger = [], outbox = [], applied = []\<rparr>"

definition tables_of :: "cluster \<Rightarrow> db \<Rightarrow> int \<Rightarrow> tables" where
  "tables_of c d s = (case Pool c s of Inl e \<Rightarrow> empty_tables | Inr p \<Rightarrow> tabs (d (p_dsn p)))"

lemma tables_of_update:
  assumes "wf_cluster c" and "Pool c s = Inr p"
  shows "tables_of c (d(p_dsn p := n)) = (tables_of c d)(s := tabs n)"
proof
  fix s'
  show "tables_of c (d(p_dsn p := n)) s' = ((tables_of c d)(s := tabs n)) s'"
  proof (cases "Pool c s'")
    case (Inr p')
    then have "p_dsn p' = p_dsn p \<longleftrightarrow> s' = s" using Pool_node_inj [OF assms Inr] assms(2) by auto
    then show ?thesis using Inr assms(2) by (simp add: tables_of_def)
  qed (use assms(2) in \<open>auto simp: tables_of_def\<close>)
qed

lemma tables_of_node: "Pool c s = Inr p \<Longrightarrow> tabs (d (p_dsn p)) = tables_of c d s"
  by (simp add: tables_of_def)

text \<open>
  A shard function that only reads, and what its answers say of the shard's tables; this
  holds of every result gathered.
\<close>

definition answers :: "'v shard_fn \<Rightarrow> (int \<Rightarrow> tables \<Rightarrow> 'v \<Rightarrow> gerr option \<Rightarrow> bool) \<Rightarrow> bool" where
  "answers fn Q \<longleftrightarrow> (\<forall>s p. guar (=) (fn s p)) \<and> (\<forall>s p w v e w'. moves_in (=) (script w) \<longrightarrow>
     fn s p w = (Done (v, e), w') \<longrightarrow> Q s (tabs (nodes w (p_dsn p))) v e)"

lemma gather_each:
  assumes "answers fn Q"
    and "moves_in (=) (script w)" and "gather z c fn sched w = (Done out, w')"
    and "fst ` set sched \<subseteq> set (Shards c)"
  shows "nodes w' = nodes w \<and> (\<forall>r\<in>set out. Q (sr_Shard r) (tables_of c (nodes w) (sr_Shard r)) (sr_Value r) (sr_Err r))"
  using assms(2-4)
proof (induction sched arbitrary: w out)
  case (Cons a sched)
  obtain s took where a: "a = (s, took)" by (cases a)
  obtain p where p: "Pool c s = Inr p" using Cons.prems(3) a Pool_Shards by fastforce
  obtain o1 w1 where fn: "fn s p w = (o1, w1)" by (metis surj_pair)
  then obtain v e where o1: "o1 = Done (v, e)"
    using Cons.prems(2) a p by (cases o1) (auto simp: run_shard_def bind_io_def)
  have nodes: "nodes w1 = nodes w" "moves_in (=) (script w1)"
    using assms(1) Cons.prems(1) fn unfolding guar_def answers_def by (metis snd_conv)+
  obtain rs where rs: "gather z c fn sched w1 = (Done rs, w')"
      "out = \<lparr>sr_Shard = s, sr_Value = v, sr_Err = e, sr_Took = took\<rparr> # rs"
    using Cons.prems(2) a p fn o1 by (auto simp: run_shard_def bind_io_def split: prod.splits outcome.splits)
  have "Q s (tables_of c (nodes w) s) v e"
    using assms(1) Cons.prems(1) fn o1 p by (simp add: tables_of_def answers_def)
  moreover have "nodes w' = nodes w1 \<and> (\<forall>r\<in>set rs. Q (sr_Shard r) (tables_of c (nodes w1) (sr_Shard r)) (sr_Value r) (sr_Err r))"
    using Cons.IH [OF nodes(2) rs(1)] Cons.prems(3) by simp
  ultimately show ?case using rs(2) nodes(1) by simp
qed simp

lemma Scatter_each:
  assumes "answers fn Q"
    and "moves_in (=) (script w)" and "Scatter z sched c opts fn w = (Done (rs, err), w')" and "sched_ok c sched"
  shows "nodes w' = nodes w" and "map sr_Shard rs = Shards c"
    and "\<forall>r\<in>set rs. Q (sr_Shard r) (tables_of c (nodes w) (sr_Shard r)) (sr_Value r) (sr_Err r)"
    and "\<not> AllowPartial opts \<Longrightarrow> err = None \<Longrightarrow> \<forall>r\<in>set rs. sr_Err r = None"
    and "AllowPartial opts \<Longrightarrow> err = None"
proof -
  obtain out where out: "gather z c fn sched w = (Done out, w')" "rs = sort_key sr_Shard out"
      "err = (if \<not> AllowPartial opts \<and> join_errors rs \<noteq> [] then Some (EJoin (join_errors rs)) else None)"
    using assms(3) by (auto simp: Scatter_result)
  have "fst ` set sched = set (Shards c)" using assms(4) unfolding sched_ok_def by (metis set_map set_mset_mset)
  then have "nodes w' = nodes w \<and> (\<forall>r\<in>set out. Q (sr_Shard r) (tables_of c (nodes w) (sr_Shard r)) (sr_Value r) (sr_Err r))"
    by (intro gather_each [OF assms(1,2) out(1)]) auto
  then show "nodes w' = nodes w"
    and "\<forall>r\<in>set rs. Q (sr_Shard r) (tables_of c (nodes w) (sr_Shard r)) (sr_Value r) (sr_Err r)"
    using out(2) by simp_all
  show "map sr_Shard rs = Shards c"
    unfolding out(2) by (rule sort_by_shard [OF assms(4) gather_shards [OF out(1)]])
  show "\<not> AllowPartial opts \<Longrightarrow> err = None \<Longrightarrow> \<forall>r\<in>set rs. sr_Err r = None" "AllowPartial opts \<Longrightarrow> err = None"
    using out(3) join_errors_Nil [of rs] by (auto split: if_splits)
qed

text \<open>The results of a fan-out that returned no error.\<close>

lemma values_of_results:
  assumes "map sr_Shard rs = ss" and "\<forall>r\<in>set rs. sr_Value r = g (sr_Shard r)"
  shows "map sr_Value rs = map g ss"
proof -
  have "map sr_Value rs = map (g \<circ> sr_Shard) rs" using assms(2) by simp
  then show ?thesis using assms(1) by (metis map_map)
qed

subsection \<open>Counting by state\<close>

lemma fold_update_distinct:
  "distinct (map fst rows) \<Longrightarrow> fst ` set rows \<inter> fst ` set m = {} \<Longrightarrow>
    fold (\<lambda>(k, v) m. AList.update k v m) rows m = m @ rows"
proof (induction rows arbitrary: m)
  case (Cons a rows)
  obtain k v where a: "a = (k, v)" by (cases a)
  then have "AList.update k v m = m @ [(k, v)]" using Cons.prems by (intro AList_update_new) auto
  moreover have "fold (\<lambda>(k, v) m. AList.update k v m) rows (m @ [(k, v)]) = (m @ [(k, v)]) @ rows"
    using Cons.prems a by (intro Cons.IH) auto
  ultimately show ?case using a by simp
qed simp

lemma state_rows:
  "map fst (map (\<lambda>st. (st, count_state st T)) sts) = sts"
  by (simp add: comp_def)

lemma go_count_update: "go_count (AList.update k v m) j = (if j = k then v else go_count m j)"
  by (simp add: go_count_def map_of_alist_update)

lemma go_count_map: "distinct sts \<Longrightarrow>
    go_count (map (\<lambda>st. (st, f st)) sts) st = (if st \<in> set sts then f st else 0)"
  by (induction sts) (auto simp: go_count_def)

lemma count_state_none: "st \<notin> o_State ` set (orders T) \<Longrightarrow> count_state st T = 0"
  by (auto simp: count_state_def filter_empty_conv)

definition counts_below :: "int \<Rightarrow> tables \<Rightarrow> (string, int) gomap \<Rightarrow> gerr option \<Rightarrow> bool" where
  "counts_below s T m e \<longleftrightarrow> go_map_ok m
     \<and> (\<forall>st. 0 \<le> go_count m st \<and> go_count m st \<le> count_state st T \<and> (e = None \<longrightarrow> go_count m st = count_state st T))"

lemma counts_below_rows:
  assumes "sts = remdups (map o_State (orders T))"
  shows "counts_below s T (map (\<lambda>st. (st, count_state st T)) (take k sts)) e \<or> e = None"
    and "counts_below s T (map (\<lambda>st. (st, count_state st T)) sts) e"
  using count_state_none [of _ T] assms
  by (auto simp: counts_below_def go_map_ok_def comp_def go_count_map, auto simp: count_state_def)

lemma state_counts_fn_each:
  assumes "moves_in (=) (script w)" and "state_counts_fn s p w = (Done (v, e), w')"
  shows "counts_below s (tabs (nodes w (p_dsn p))) v e"
proof (cases "script w")
  case (Cons ev es)
  let ?T = "tabs (nodes w (p_dsn p))"
  let ?sts = "remdups (map o_State (orders ?T))"
  let ?rows = "\<lambda>sts. map (\<lambda>st. (st, count_state st ?T)) sts"
  have move: "ev_move ev (nodes w) = nodes w" using assms(1) Cons by simp
  have rows: "fold (\<lambda>(st, n) m. AList.update st n m) (?rows sts) [] = ?rows sts" if "distinct sts" for sts
    using fold_update_distinct [of "?rows sts" "[]"] that by (simp add: comp_def)
  have no_rows: "counts_below s ?T [] (Some err)" for err
    by (simp add: counts_below_def) (simp add: count_state_def go_count_def)
  note run = state_counts_fn_def bind_io_def query_rows_def query_rows_at_def Let_def sql_state_counts_def move take_map
  show ?thesis
  proof (cases "ev_reply ev")
    case Ack
    then show ?thesis
      using assms(2) Cons counts_below_rows(2) [OF refl, of s ?T] rows [of ?sts] by (simp add: run)
  next
    case (Broken k)
    then show ?thesis
      using assms(2) Cons counts_below_rows(1) [OF refl, of s ?T k "Some EDriver"] rows [of "take k ?sts"]
      by (auto simp: run)
  next
    case Nack
    then have "v = []" "e = Some EDriver" using assms(2) Cons by (auto simp: run)
    then show ?thesis by (simp only: no_rows)
  next
    case AckLost
    then have "v = []" "e = Some EDriver" using assms(2) Cons by (auto simp: run)
    then show ?thesis by (simp only: no_rows)
  qed
qed (use assms in \<open>simp add: state_counts_fn_def bind_io_def query_rows_def query_rows_at_def\<close>)

context rely
begin

lemma guar_state_counts_fn: "guar R (state_counts_fn s p)"
  unfolding state_counts_fn_def
  by (intro guar_bind guar_query_rows) (auto intro: guar_ret split: sum.splits)

end

lemma state_counts_answers: "answers state_counts_fn counts_below"
  using read_only.guar_state_counts_fn state_counts_fn_each by (auto simp: answers_def)

lemma go_count_Cons: "go_count ((k, n) # v) st = (if st = k then n else go_count v st)"
  by (simp add: go_count_def)

lemma go_count_fresh: "k \<notin> fst ` set v \<Longrightarrow> go_count v k = 0"
  by (simp add: go_count_def map_of_eq_None_iff [THEN iffD2])

lemma fold_go_add:
  "go_map_ok v \<Longrightarrow> go_count (fold (\<lambda>(st, n) m. go_add m st n) v m) st = go_count m st + go_count v st"
proof (induction v arbitrary: m)
  case (Cons a v)
  obtain k n where a: "a = (k, n)" by (cases a)
  then have "k \<notin> fst ` set v" "go_map_ok v" using Cons.prems by (simp_all add: go_map_ok_def)
  then show ?case using Cons.IH a by (auto simp: go_count_Cons go_count_fresh)
qed simp

lemma merge_counts_sum:
  "\<forall>r\<in>set rs. go_map_ok (sr_Value r) \<Longrightarrow>
    go_count (merge_counts rs) st = sum_list (map (\<lambda>r. go_count (sr_Value r) st) rs)"
proof -
  have "\<forall>r\<in>set rs. go_map_ok (sr_Value r) \<Longrightarrow>
    go_count (fold (\<lambda>r m. fold (\<lambda>(st, n) m. go_add m st n) (sr_Value r) m) rs m) st
      = go_count m st + sum_list (map (\<lambda>r. go_count (sr_Value r) st) rs)" for m
    by (induction rs arbitrary: m) (simp_all add: fold_go_add)
  then show "\<forall>r\<in>set rs. go_map_ok (sr_Value r) \<Longrightarrow>
    go_count (merge_counts rs) st = sum_list (map (\<lambda>r. go_count (sr_Value r) st) rs)"
    by (simp add: merge_counts_def)
qed

text \<open>The true number of rows in a state, over the whole cluster.\<close>

definition cluster_count :: "cluster \<Rightarrow> db \<Rightarrow> string \<Rightarrow> int" where
  "cluster_count c d st = sum_list (map (\<lambda>s. count_state st (tables_of c d s)) (Shards c))"


lemma page_fn_each:
  assumes "moves_in (=) (script w)" and "page_fn after limit s p w = (Done (v, e), w')"
  shows "e = None \<longrightarrow> 0 \<le> limit
    \<and> v = map (\<lambda>r. r\<lparr>o_Shard := s\<rparr>) (sql_page after (nat limit) (orders (tabs (nodes w (p_dsn p)))))"
proof (cases "script w")
  case (Cons ev es)
  have "ev_move ev (nodes w) = nodes w" using assms(1) Cons by simp
  then show ?thesis
    using assms(2) Cons
    by (auto simp: page_fn_def bind_io_def query_rows_def query_rows_at_def Let_def sql_feed_def split: reply.splits if_splits)
qed (use assms in \<open>simp add: page_fn_def bind_io_def query_rows_def query_rows_at_def\<close>)

context rely
begin

lemma guar_page_fn: "guar R (page_fn after limit s p)"
  unfolding page_fn_def
  by (intro guar_bind guar_query_rows) (auto intro: guar_ret split: sum.splits)

end

lemma sort_feed_map:
  assumes "\<And>r. feed_key (f r) = feed_key r"
  shows "sort_feed (map f rows) = map f (sort_feed rows)"
proof -
  have ins: "insort_key feed_key (f r) (map f rows) = map f (insort_key feed_key r rows)" for r rows
    by (induction rows) (simp_all add: assms)
  show ?thesis by (induction rows) (simp_all add: sort_feed_def ins)
qed

lemma sql_page_shard:
  "sql_page after n (map (\<lambda>r. r\<lparr>o_Shard := s\<rparr>) rows) = map (\<lambda>r. r\<lparr>o_Shard := s\<rparr>) (sql_page after n rows)"
proof -
  have "wanted after (r\<lparr>o_Shard := s\<rparr>) = wanted after r" for r
    by (simp add: wanted_def after_cursor_def)
  then show ?thesis
    by (simp add: sql_page_wanted sort_feed_map feed_key_def take_map filter_map comp_def)
qed

text \<open>All rows of the cluster, each with the shard it is on.\<close>

definition shard_rows :: "cluster \<Rightarrow> db \<Rightarrow> int \<Rightarrow> order list" where
  "shard_rows c d s = map (\<lambda>r. r\<lparr>o_Shard := s\<rparr>) (orders (tables_of c d s))"

definition all_rows :: "cluster \<Rightarrow> db \<Rightarrow> order list" where
  "all_rows c d = concat (map (shard_rows c d) (Shards c))"

lemma PageRecent_exact:
  assumes "moves_in (=) (script w)" and "sched_ok c sched" and "Shards c \<noteq> []"
    and "PageRecent sched c after limit w = (Done (Inr (page, nxt)), w')"
  shows "0 \<le> limit" and "nodes w' = nodes w"
    and "page = sql_page after (nat limit) (all_rows c (nodes w))" and "nxt = next_cursor after page"
proof -
  let ?opts = "\<lparr>PerShardTimeout = 5 * 10 ^ 9, Concurrency = 0, AllowPartial = False\<rparr>"
  let ?Q = "\<lambda>s T v e. e = None \<longrightarrow> 0 \<le> limit \<and> v = map (\<lambda>r. r\<lparr>o_Shard := s\<rparr>) (sql_page after (nat limit) (orders T))"
  obtain rs w1 where scat: "Scatter [] sched c ?opts (page_fn after limit) w = (Done (rs, None), w1)"
      and merge: "MergeDesc (map sr_Value rs) limit = Inr page" "nxt = next_cursor after page" "w' = w1"
    using assms(4)
    by (auto simp: PageRecent_def bind_io_def lift_go_def split: prod.splits outcome.splits option.splits sum.splits)
  have "answers (page_fn after limit) ?Q"
    using read_only.guar_page_fn page_fn_each unfolding answers_def by blast
  note each = Scatter_each [OF this assms(1) scat assms(2)]
  have ok: "\<forall>r\<in>set rs. sr_Err r = None" using each(4) by simp
  have vals: "\<forall>r\<in>set rs. 0 \<le> limit \<and> sr_Value r = sql_page after (nat limit) (shard_rows c (nodes w) (sr_Shard r))"
    using each(3) ok by (simp add: shard_rows_def sql_page_shard)
  have "rs \<noteq> []" using each(2) assms(3) by auto
  then show limit: "0 \<le> limit" using vals by (cases rs) auto
  have "map sr_Value rs = map (\<lambda>s. sql_page after (nat limit) (shard_rows c (nodes w) s)) (Shards c)"
    using vals by (intro values_of_results [OF each(2)]) blast
  then have "map sr_Value rs = map (sql_page after (nat limit)) (map (shard_rows c (nodes w)) (Shards c))"
    by (simp add: comp_def)
  then show "page = sql_page after (nat limit) (all_rows c (nodes w))"
    using merge(1) merge_of_pages [OF limit, of after "map (shard_rows c (nodes w)) (Shards c)"]
    by (simp add: all_rows_def)
  show "nodes w' = nodes w" "nxt = next_cursor after page" using each(1) merge by simp_all
qed

subsection \<open>The audit\<close>

text \<open>The rows on a shard that the topology routes elsewhere.\<close>

definition misplaced_rows :: "cluster \<Rightarrow> db \<Rightarrow> int \<Rightarrow> int" where
  "misplaced_rows c d s =
     int (length (filter (\<lambda>r. RouteRead (topo c) (o_TenantID r) \<noteq> Inr s) (orders (tables_of c d s))))"

lemma wrong_tenants_Inr:
  "wrong_tenants tp s ts = Inr wrong \<Longrightarrow> wrong = filter (\<lambda>t. RouteRead tp t \<noteq> Inr s) ts"
  by (induction ts arbitrary: wrong) (auto simp: bind_go_Inr_iff split: if_splits)

lemma filter_cong_length: "(\<And>x. x \<in> set xs \<Longrightarrow> P x \<Longrightarrow> Q x) \<Longrightarrow> length (filter P xs) \<le> length (filter Q xs)"
  by (induction xs) auto

context rely
begin

lemma guar_audit_shard: "guar R (audit_shard c s out)"
  unfolding audit_shard_def
  by (cases "Pool c s")
     (auto intro!: guar_ret guar_try guar_query_rows guar_bind
        guar_lift guar_query_row)

end

definition unbroken :: "event list \<Rightarrow> bool" where
  "unbroken es \<longleftrightarrow> (\<forall>e\<in>set es. \<forall>k. ev_reply e \<noteq> Broken k)"

lemma audit_shard_exact:
  assumes "moves_in (=) (script w)" and "audit_shard c s out w = (Done (Inr out'), w')"
  shows "\<exists>n. out' = AList.update s n out \<and> 0 \<le> n \<and> n \<le> misplaced_rows c (nodes w) s
    \<and> (unbroken (script w) \<longrightarrow> n = misplaced_rows c (nodes w) s) \<and> (unbroken (script w) \<longrightarrow> unbroken (script w'))"
proof -
  obtain p where p: "Pool c s = Inr p" using assms(2) by (cases "Pool c s") (simp_all add: audit_shard_def)
  let ?T = "tabs (nodes w (p_dsn p))"
  have T: "tables_of c (nodes w) s = ?T" using p by (simp add: tables_of_def)
  obtain tenants err w1 where q: "query_rows p sql_tenants w = (Done (Inr (tenants, err)), w1)"
    using assms(2) p by (auto simp: audit_shard_def try_io_def bind_io_def split: prod.splits outcome.splits sum.splits)
  then obtain ev es where ev: "script w = ev # es" by (cases "script w") (simp_all add: query_rows_def query_rows_at_def)
  have move: "ev_move ev (nodes w) = nodes w" using assms(1) ev by simp
  let ?all = "remdups (map o_TenantID (orders ?T))"
  have w1: "nodes w1 = nodes w" "script w1 = es" "set tenants \<subseteq> o_TenantID ` set (orders ?T)"
    and full: "unbroken (script w) \<Longrightarrow> tenants = ?all"
    using q ev move
    by (auto simp: query_rows_def query_rows_at_def Let_def sql_tenants_def unbroken_def split: reply.splits dest: in_set_takeD)
  obtain wrong where wr: "wrong_tenants (topo c) s tenants = Inr wrong"
    using assms(2) p q
    by (cases "wrong_tenants (topo c) s tenants") (auto simp: audit_shard_def try_io_def bind_io_def lift_go_def)
  note wrong = wrong_tenants_Inr [OF wr]
  let ?cnt = "int (length (filter (\<lambda>r. o_TenantID r \<in> set wrong) (orders ?T)))"
  have below: "?cnt \<le> misplaced_rows c (nodes w) s"
    unfolding misplaced_rows_def T wrong by (auto intro!: filter_cong_length)
  have exact: "?cnt = misplaced_rows c (nodes w) s" if "unbroken (script w)"
  proof -
    have "filter (\<lambda>r. o_TenantID r \<in> set wrong) (orders ?T) = filter (\<lambda>r. RouteRead (topo c) (o_TenantID r) \<noteq> Inr s) (orders ?T)"
      using full [OF that] by (intro filter_cong) (auto simp: wrong)
    then show ?thesis by (simp add: misplaced_rows_def T)
  qed
  show ?thesis
  proof (cases "wrong = []")
    case True
    then have "out' = AList.update s 0 out" "w' = w1"
      using assms(2) p q wr by (auto simp: audit_shard_def try_io_def bind_io_def lift_go_def ret_def)
    moreover have "?cnt = 0" using True by simp
    ultimately show ?thesis using below exact w1(2) ev by (auto simp: unbroken_def)
  next
    case False
    then obtain ev2 es2 where ev2: "es = ev2 # es2"
      using assms(2) p q wr w1(2)
      by (cases es) (auto simp: audit_shard_def try_io_def bind_io_def lift_go_def ret_def query_row_def round_trip_def)
    have move2: "ev_move ev2 (nodes w1) = nodes w1" using assms(1) ev ev2 by simp
    have "out' = AList.update s ?cnt out" "script w' = es2"
      using assms(2) p q wr False w1 ev2 move2
      by (auto simp: audit_shard_def try_io_def bind_io_def lift_go_def ret_def query_row_def round_trip_def Let_def
          split: if_splits)
    then show ?thesis using below exact ev ev2 by (auto simp: unbroken_def)
  qed
qed


lemma audit_loop_exact:
  assumes "moves_in (=) (script w)" and "for_io (audit_shard c) ss out w = (Done (Inr m), w')"
    and "distinct ss" and "go_map_ok out"
  shows "nodes w' = nodes w \<and> go_map_ok m \<and> fst ` set m = fst ` set out \<union> set ss
    \<and> (\<forall>s. s \<notin> set ss \<longrightarrow> go_count m s = go_count out s)
    \<and> (\<forall>s\<in>set ss. 0 \<le> go_count m s \<and> go_count m s \<le> misplaced_rows c (nodes w) s
        \<and> (unbroken (script w) \<longrightarrow> go_count m s = misplaced_rows c (nodes w) s))"
  using assms
proof (induction ss arbitrary: w out)
  case (Cons s ss)
  obtain out1 w1 where step: "audit_shard c s out w = (Done (Inr out1), w1)"
      and rest: "for_io (audit_shard c) ss out1 w1 = (Done (Inr m), w')"
    using Cons.prems(2) by (auto simp: try_io_def bind_io_def split: prod.splits outcome.splits sum.splits)
  obtain n where n: "out1 = AList.update s n out" "0 \<le> n" "n \<le> misplaced_rows c (nodes w) s"
      "unbroken (script w) \<longrightarrow> n = misplaced_rows c (nodes w) s" "unbroken (script w) \<longrightarrow> unbroken (script w1)"
    using audit_shard_exact [OF Cons.prems(1) step] by blast
  have w1: "nodes w1 = nodes w" "moves_in (=) (script w1)"
    using read_only.guar_audit_shard [of c s out] Cons.prems(1) step unfolding guar_def by (metis snd_conv)+
  have "go_map_ok out1" using Cons.prems(4) n(1) by simp
  note IH = Cons.IH [OF w1(2) rest _ this]
  have cnt: "go_count out1 k = (if k = s then n else go_count out k)" for k
    using n(1) by (simp add: go_count_update)
  have keys: "fst ` set out1 = insert s (fst ` set out)" using n(1) by (simp add: dom_update)
  have dist: "distinct ss" "s \<notin> set ss" using Cons.prems(3) by simp_all
  then show ?case using IH cnt keys n w1(1) by auto
qed (simp add: ret_def)

section \<open>Properties\<close>

lemma Insert_Ok:
  assumes "moves_in orders_grow (script w)" and "Insert c k t cents state w = (Done r, w')"
    and "r = Inr () \<or> (\<exists>s e. r = Inl (EAt ''insert on shard'' s e))"
  shows "\<exists>ws. RouteWrite (topo c) t = Inr ws
    \<and> (case r of
        Inr u \<Rightarrow> \<forall>s\<in>set ws. has_order k (tables_of c (nodes w') s)
      | Inl e \<Rightarrow> \<exists>before s after e'. ws = before @ s # after \<and> e = EAt ''insert on shard'' s e'
          \<and> (\<forall>s'\<in>set before. has_order k (tables_of c (nodes w') s')))"
proof -
  obtain ws where ws: "RouteWrite (topo c) t = Inr ws"
    using assms(2) by (cases "RouteWrite (topo c) t") (simp_all add: Insert_def WritePools_def bind_io_def)
  obtain ps where ps: "pools_of c ws = Inr ps"
  proof (cases "pools_of c ws")
    case (Inl e)
    then have "r = Inl e" using assms(2) ws by (simp add: Insert_def WritePools_def)
    moreover obtain s where "e = ENoPool s" using pools_of_Inl [OF Inl] by blast
    ultimately show ?thesis using assms(3) by auto
  qed
  obtain logical where logical: "logicalOf (topo c) t = Inr logical"
    using assms(2) ws ps by (cases "logicalOf (topo c) t") (simp_all add: Insert_def WritePools_def bind_io_def)
  let ?row = "\<lambda>now. mk_order k t logical now cents state"
  have loop: "for_io (insert_leg ?row) (zip ps ws) () w = (Done r, w')"
    using assms(2) ws ps logical by (simp add: Insert_def WritePools_def)
  have pools: "length ps = length ws" "\<forall>i<length ws. Pool c (ws ! i) = Inr (ps ! i)"
    using pools_of_Inr [OF ps] by simp_all
  have leg: "tables_of c d s = tabs (d (p_dsn p))" if "(p, s) \<in> set (zip ps ws)" for p s d
    using that pools by (auto simp: in_set_zip tables_of_def)
  have k: "o_ID (?row now) = k" for now by (simp add: mk_order_def)
  note result = insert_loop_Ok [OF loop k assms(1)]
  show ?thesis
  proof (cases r)
    case (Inr u)
    have all: "\<forall>(p, s)\<in>set (zip ps ws). has_order k (tabs (nodes w' (p_dsn p)))"
      using result Inr by simp
    have "has_order k (tables_of c (nodes w') s)" if s: "s \<in> set ws" for s
    proof -
      obtain i where "i < length ws" "s = ws ! i" using s by (metis in_set_conv_nth)
      then have "zip ps ws ! i = (ps ! i, s)" "i < length (zip ps ws)" using pools(1) by simp_all
      then have "(ps ! i, s) \<in> set (zip ps ws)" by (metis nth_mem)
      then show ?thesis using all leg by auto
    qed
    then show ?thesis using ws Inr by simp
  next
    case (Inl e)
    then obtain made p s rest e' where split: "zip ps ws = made @ (p, s) # rest"
        "e = EAt ''insert on shard'' s e'" "\<forall>(p, s)\<in>set made. has_order k (tabs (nodes w' (p_dsn p)))"
      using result by auto
    have "ws = map snd (zip ps ws)" using pools(1) by simp
    then have "ws = map snd made @ s # map snd rest" by (simp only: split(1)) simp
    moreover have "has_order k (tables_of c (nodes w') s')" if s': "s' \<in> set (map snd made)" for s'
    proof -
      obtain p' where "(p', s') \<in> set made" using s' by auto
      moreover from this have "(p', s') \<in> set (zip ps ws)" by (simp add: split(1))
      ultimately show ?thesis using split(3) leg by auto
    qed
    ultimately show ?thesis using ws Inl split(2) by auto
  qed
qed



text \<open>A small cluster for the examples: a directory with an open window from shard 0 to shard 1.\<close>

definition demo_dir :: directory where
  "demo_dir = \<lparr>LogicalCount = 1, Placement = [0], Migrating = Some [(0, 1)], Pins = None\<rparr>"

definition demo_cluster :: cluster where
  "demo_cluster = \<lparr>pools = [(0, \<lparr>p_handle = 0, p_dsn = ''a''\<rparr>), (1, \<lparr>p_handle = 1, p_dsn = ''b''\<rparr>)],
     topo = TopDirectory demo_dir\<rparr>"

definition demo_world :: "order list \<Rightarrow> event list \<Rightarrow> world" where
  "demo_world rows es = \<lparr>nodes = (\<lambda>s. if s = ''a'' then \<lparr>tabs = empty_tables\<lparr>orders := rows\<rparr>, prepared = []\<rparr>
       else \<lparr>tabs = empty_tables, prepared = []\<rparr>), script = es, open_pools = [0, 1], next_pool = 2\<rparr>"

lemma wf_demo_dir: "wf_dir demo_dir"
  by (simp add: wf_dir_def demo_dir_def go_map_ok_def)

lemma logical_of_demo [simp]: "logical_of demo_dir t = 0"
  by (simp add: logical_of_def demo_dir_def)

lemma demo_routes [simp]:
  "RouteRead (topo demo_cluster) t = Inr 0" "RouteWrite (topo demo_cluster) t = Inr [0, 1]"
  "logicalOf (topo demo_cluster) t = Inr 0"
  by (simp_all add: demo_cluster_def RouteRead_wf [OF wf_demo_dir] RouteWrite_wf [OF wf_demo_dir]
      logicalOf_def Logical_wf [OF wf_demo_dir]) (simp_all add: demo_dir_def logical_of_def)

lemma demo_pools [simp]:
  "Pool demo_cluster 0 = Inr \<lparr>p_handle = 0, p_dsn = ''a''\<rparr>" "Pool demo_cluster 1 = Inr \<lparr>p_handle = 1, p_dsn = ''b''\<rparr>"
  "Shards demo_cluster = [0, 1]" "wf_cluster demo_cluster"
  by (simp_all add: demo_cluster_def Pool_def Shards_def wf_cluster_def go_map_ok_def)

lemma demo_insert:
  "\<exists>w'. Insert demo_cluster 9 5 100 ''new'' (demo_world [] [calm 1, calm 2]) = (Done (Inr ()), w')"
  by (simp add: Insert_def WritePools_def demo_world_def insert_leg_def try_io_def bind_io_def round_trip_def
      sql_insert_order_def Let_def has_order_def empty_tables_def mk_order_def)


text \<open>\<open>Insert\<close> writes its shards in order.  When it returns nil every shard of the write
  route holds the order; when it returns the error of one shard, every shard before that one
  holds it (the copy the verify step of a reshard has to find).\<close>

theorem insert_reaches_write_shards:
  assumes "moves_in orders_grow (script w)" and "Insert c k t cents state w = (Done r, w')"
    and "\<forall>s. r \<noteq> Inl (ENoPool s)"
  shows "\<exists>ws. RouteWrite (topo c) t = Inr ws
    \<and> (case r of
        Inr u \<Rightarrow> \<forall>s\<in>set ws. has_order k (tables_of c (nodes w') s)
      | Inl e \<Rightarrow> \<exists>before s after e'. ws = before @ s # after \<and> e = EAt ''insert on shard'' s e'
          \<and> (\<forall>s'\<in>set before. has_order k (tables_of c (nodes w') s')))"
proof (rule Insert_Ok [OF assms(1,2)])
  show "r = Inr () \<or> (\<exists>s e. r = Inl (EAt ''insert on shard'' s e))"
  proof (cases r)
    case (Inl e)
    obtain ws where ws: "RouteWrite (topo c) t = Inr ws"
      using assms(2) by (cases "RouteWrite (topo c) t") (simp_all add: Insert_def WritePools_def bind_io_def)
    obtain ps where ps: "pools_of c ws = Inr ps"
      using assms(2,3) ws pools_of_Inl [of c ws]
      by (cases "pools_of c ws") (auto simp: Insert_def WritePools_def)
    obtain logical where "logicalOf (topo c) t = Inr logical"
      using assms(2) ws ps by (cases "logicalOf (topo c) t") (simp_all add: Insert_def WritePools_def bind_io_def)
    then have "for_io (insert_leg (\<lambda>now. mk_order k t logical now cents state)) (zip ps ws) () w = (Done r, w')"
      using assms(2) ws ps by (simp add: Insert_def WritePools_def)
    from insert_loop_Ok [OF this _ assms(1), of k] show ?thesis by (auto simp: mk_order_def Inl)
  qed simp
qed

lemma insert_reaches_write_shards_witness:
  "\<exists>w'. Insert demo_cluster 9 5 100 ''new'' (demo_world [] [calm 1, calm 2]) = (Done (Inr ()), w')
    \<and> has_order 9 (tables_of demo_cluster (nodes w') 1)"
proof -
  obtain w' where run: "Insert demo_cluster 9 5 100 ''new'' (demo_world [] [calm 1, calm 2]) = (Done (Inr ()), w')"
    using demo_insert by blast
  have "moves_in orders_grow (script (demo_world [] [calm 1, calm 2]))"
    by (simp add: demo_world_def orders_grow_def)
  from insert_reaches_write_shards [OF this run] run show ?thesis by auto
qed

text \<open>C9: \<open>PageRecent\<close> returns an error or the exact page.  Whatever the network does and in
  whatever order the shards answer, a page that is returned is the first \<open>limit\<close> rows after
  the cursor of all the rows of all the shards, never a page with a shard missing or cut off;
  and the databases are untouched.\<close>

theorem page_recent_exact:
  assumes "moves_in (=) (script w)" and "sched_ok c sched" and "Shards c \<noteq> []"
    and "PageRecent sched c after limit w = (Done (Inr (page, nxt)), w')"
  shows "0 \<le> limit \<and> nodes w' = nodes w \<and> nxt = next_cursor after page
    \<and> page = take (nat limit) (sort_feed (filter (wanted after) (all_rows c (nodes w))))"
  using PageRecent_exact [OF assms] by (simp add: sql_page_wanted)

lemma page_recent_exact_witness:
  "let row = mk_order 3 5 0 77 100 ''new'' in
   \<exists>nxt w'. PageRecent [(1, 4), (0, 9)] demo_cluster zero_cursor 2 (demo_world [row] [calm 1, calm 2])
     = (Done (Inr ([row], nxt)), w')
   \<and> [row] = take 2 (sort_feed (filter (wanted zero_cursor) (all_rows demo_cluster (nodes (demo_world [row] [])))))"
proof -
  let ?row = "mk_order 3 5 0 77 100 ''new''" and ?sched = "[(1, 4), (0, 9)] :: (int \<times> int) list"
  let ?w = "demo_world [?row] [calm 1, calm 2]"
  have row: "o_Shard_update (\<lambda>_. 0) ?row = ?row" by (simp add: mk_order_def)
  obtain nxt w' where run: "PageRecent ?sched demo_cluster zero_cursor 2 ?w = (Done (Inr ([?row], nxt)), w')"
    by (simp add: PageRecent_def Scatter_def gather.simps run_shard_def page_fn_def query_rows_def query_rows_at_def bind_io_def
        demo_world_def Let_def sql_feed_def sql_page_def sql_firstPage_def zero_cursor_def IsZero_def sort_feed_def
        finish_def join_errors_def lift_go_def MergeDesc_nonneg empty_tables_def row)
  have "moves_in (=) (script ?w)" "sched_ok demo_cluster ?sched" "Shards demo_cluster \<noteq> []"
    by (simp_all add: demo_world_def sched_ok_def)
  from page_recent_exact [OF this run] run show ?thesis
    by (auto simp: Let_def demo_world_def)
qed


text \<open>\<open>StateCounts\<close> without \<open>allowPartial\<close> returns, for every state, the exact number of orders
  in that state over the whole cluster, whenever it returns no error.  With \<open>allowPartial\<close> it
  never returns an error, and its numbers never exceed the true ones.\<close>

theorem state_counts_exact:
  assumes "moves_in (=) (script w)" and "sched_ok c sched"
    and "StateCounts sched c allowPartial w = (Done (merged, results, err), w')"
  shows "nodes w' = nodes w \<and> (allowPartial \<longrightarrow> err = None)
    \<and> 0 \<le> go_count merged st \<and> go_count merged st \<le> cluster_count c (nodes w) st
    \<and> (\<not> allowPartial \<longrightarrow> err = None \<longrightarrow> go_count merged st = cluster_count c (nodes w) st)"
proof -
  let ?opts = "\<lparr>PerShardTimeout = 5 * 10 ^ 9, Concurrency = 0, AllowPartial = allowPartial\<rparr>"
  have scat: "Scatter [] sched c ?opts state_counts_fn w = (Done (results, err), w')"
      and merged: "merged = merge_counts results"
    using assms(3) by (auto simp: StateCounts_def bind_io_def split: prod.splits outcome.splits)
  note each = Scatter_each [OF state_counts_answers assms(1) scat assms(2)]
  have cnt: "cluster_count c (nodes w) st = sum_list (map (\<lambda>r. count_state st (tables_of c (nodes w) (sr_Shard r))) results)"
    unfolding cluster_count_def each(2) [symmetric] by (simp add: comp_def)
  have "\<forall>r\<in>set results. go_map_ok (sr_Value r)" using each(3) by (simp add: counts_below_def)
  then have sum: "go_count merged st = sum_list (map (\<lambda>r. go_count (sr_Value r) st) results)"
    unfolding merged by (rule merge_counts_sum)
  have "0 \<le> go_count merged st" "go_count merged st \<le> cluster_count c (nodes w) st"
    unfolding sum cnt using each(3) by (auto simp: counts_below_def intro!: sum_list_nonneg sum_list_mono)
  moreover have "go_count merged st = cluster_count c (nodes w) st" if "\<not> allowPartial" "err = None"
    unfolding sum cnt using each(3,4) that
    by (intro arg_cong [where f = sum_list] map_cong refl) (simp add: counts_below_def)
  moreover have "nodes w' = nodes w" "allowPartial \<longrightarrow> err = None" using each(1,5) by simp_all
  ultimately show ?thesis by blast
qed

lemma state_counts_exact_witness:
  "let row = mk_order 3 5 0 77 100 ''new'' in
   \<exists>merged rs w'. StateCounts [(1, 4), (0, 9)] demo_cluster False (demo_world [row] [calm 1, calm 2])
     = (Done (merged, rs, None), w') \<and> go_count merged ''new'' = cluster_count demo_cluster (nodes (demo_world [row] [])) ''new''"
proof -
  let ?row = "mk_order 3 5 0 77 100 ''new''" and ?sched = "[(1, 4), (0, 9)] :: (int \<times> int) list"
  let ?w = "demo_world [?row] [calm 1, calm 2]"
  obtain merged rs w' where run: "StateCounts ?sched demo_cluster False ?w = (Done (merged, rs, None), w')"
    by (simp add: StateCounts_def Scatter_def gather.simps run_shard_def state_counts_fn_def query_rows_def query_rows_at_def bind_io_def
        demo_world_def Let_def sql_state_counts_def finish_def join_errors_def empty_tables_def)
  have "moves_in (=) (script ?w)" "sched_ok demo_cluster ?sched" by (simp_all add: demo_world_def sched_ok_def)
  from state_counts_exact [OF this run, of "''new''"] run show ?thesis
    by (auto simp: Let_def demo_world_def)
qed

text \<open>The audit never reports a misplaced row that is not one, and where no result stream
  breaks off it is exact: for every shard it reports the number of rows there that the
  topology routes elsewhere.\<close>

theorem misplaced_exact:
  assumes "moves_in (=) (script w)" and "wf_cluster c" and "Misplaced c w = (Done (Inr m), w')"
  shows "nodes w' = nodes w \<and> fst ` set m = set (Shards c)
    \<and> (\<forall>s\<in>set (Shards c). 0 \<le> go_count m s \<and> go_count m s \<le> misplaced_rows c (nodes w) s
        \<and> (unbroken (script w) \<longrightarrow> go_count m s = misplaced_rows c (nodes w) s))"
  using audit_loop_exact [OF assms(1) assms(3) [unfolded Misplaced_def] distinct_Shards [OF assms(2)]] by simp

lemma demo_misplaced:
  "\<exists>m w'. Misplaced demo_cluster (demo_world [mk_order 3 5 0 77 100 ''new''] [calm 1, calm 2]) = (Done (Inr m), w')"
  by (simp add: Misplaced_def audit_shard_def try_io_def query_rows_def query_rows_at_def bind_io_def demo_world_def Let_def
      sql_tenants_def empty_tables_def mk_order_def)

lemma misplaced_exact_witness:
  "\<exists>m w'. Misplaced demo_cluster (demo_world [mk_order 3 5 0 77 100 ''new''] [calm 1, calm 2]) = (Done (Inr m), w')
    \<and> go_count m 0 = misplaced_rows demo_cluster (nodes (demo_world [mk_order 3 5 0 77 100 ''new''] [])) 0"
proof -
  let ?w = "demo_world [mk_order 3 5 0 77 100 ''new''] [calm 1, calm 2]"
  obtain m w' where run: "Misplaced demo_cluster ?w = (Done (Inr m), w')" using demo_misplaced by blast
  have "moves_in (=) (script ?w)" "unbroken (script ?w)" by (simp_all add: demo_world_def unbroken_def)
  from misplaced_exact [OF this(1) _ run] this(2) run show ?thesis by (auto simp: demo_world_def)
qed



end
