(* ===== verification/Txn.thy ===== *)
theory Txn
  imports Orders
begin

text \<open>
  Two-phase commit, \<open>src/internal/shard/txn.go\<close>: \<open>TwoPC.Do\<close> with its rollback, and the
  list of orphaned prepared transactions.  The theorems hold for every script: messages may be
  lost in either direction and the process may be killed between any two of them.
\<close>

section \<open>The code\<close>

type_synonym part = "int \<times> (gerr + unit) tx"

record prepLeg =
  leg_shard :: int
  leg_gid :: string

definition legGID :: "string \<Rightarrow> int \<Rightarrow> string" where
  "legGID gid shardID = gid @ ''-'' @ fmt_d shardID"

text \<open>A request whose effect does not matter here: acquiring a connection, \<open>ROLLBACK\<close>.\<close>

definition request :: "pool \<Rightarrow> (gerr + unit) io" where
  "request p = query_row p (\<lambda>n. ())"

text \<open>
  \<open>PREPARE TRANSACTION\<close> stores what the body did, under a name that must be new; a name
  that is taken is refused and the work is lost.
\<close>

definition sql_prepare :: "string \<Rightarrow> (tables \<Rightarrow> tables) \<Rightarrow> time \<Rightarrow> node \<Rightarrow> sql_error + unit \<times> node" where
  "sql_prepare g eff now n =
     (if g \<in> px_gid ` set (prepared n) then Inl DuplicateGid
      else Inr ((), n\<lparr>prepared := prepared n @ [\<lparr>px_gid = g, px_prepared = now, px_effect = eff\<rparr>]\<rparr>))"

definition sql_commit_prepared :: "string \<Rightarrow> time \<Rightarrow> node \<Rightarrow> sql_error + unit \<times> node" where
  "sql_commit_prepared g now n =
     (case find (\<lambda>px. px_gid px = g) (prepared n) of
        None \<Rightarrow> Inl UndefinedGid
      | Some px \<Rightarrow> Inr ((), n\<lparr>tabs := px_effect px (tabs n), prepared := filter (\<lambda>px. px_gid px \<noteq> g) (prepared n)\<rparr>))"

definition sql_rollback_prepared :: "string \<Rightarrow> time \<Rightarrow> node \<Rightarrow> sql_error + unit \<times> node" where
  "sql_rollback_prepared g now n =
     (case find (\<lambda>px. px_gid px = g) (prepared n) of
        None \<Rightarrow> Inl UndefinedGid
      | Some px \<Rightarrow> Inr ((), n\<lparr>prepared := filter (\<lambda>px. px_gid px \<noteq> g) (prepared n)\<rparr>))"

text \<open>
  The work of one leg on the connection it holds: begin, the part's function, \<open>PREPARE\<close>; the
  errors are those of \<open>begin\<close>, \<open>work\<close> and \<open>prepare\<close>, the last two after a \<open>ROLLBACK\<close>.
\<close>

definition run_leg :: "string \<Rightarrow> pool \<Rightarrow> int \<Rightarrow> (gerr + unit) tx \<Rightarrow> (gerr + unit) io" where
  "run_leg g p s fn = (\<lambda>w. case script w of
     [] \<Rightarrow> (Killed, w)
   | b # es \<Rightarrow>
       let d = ev_move b (nodes w); w1 = w\<lparr>nodes := d, script := es\<rparr>; T = tabs (d (p_dsn p)) in
       if ev_reply b \<noteq> Ack then (Done (Inl (EAt ''begin'' s EDriver)), w1)
       else case fn (T, es) of
           (Killed, _, es1) \<Rightarrow> (Killed, w1\<lparr>script := es1\<rparr>)
         | (Panicked q, _, es1) \<Rightarrow> (Panicked q, w1\<lparr>script := es1\<rparr>)
         | (Done (Inl e), _, es1) \<Rightarrow>
             bind_io (request p) (\<lambda>_. ret (Inl (EAt ''work'' s e))) (w1\<lparr>script := es1\<rparr>)
         | (Done (Inr u), _, es1) \<Rightarrow>
             try_io (round_trip p (sql_prepare g (\<lambda>T. fst (snd (fn (T, es))))))
               (\<lambda>e. bind_io (request p) (\<lambda>_. ret (Inl (EAt ''prepare'' s e))))
               (\<lambda>_. ret (Inr ())) (w1\<lparr>script := es1\<rparr>))"

definition rollback_one :: "cluster \<Rightarrow> prepLeg \<Rightarrow> unit io" where
  "rollback_one c l =
     (case Pool c (leg_shard l) of
        Inl e \<Rightarrow> ret ()
      | Inr p \<Rightarrow> bind_io (round_trip p (sql_rollback_prepared (leg_gid l))) (\<lambda>_. ret ()))"

fun rollbackAll :: "cluster \<Rightarrow> prepLeg list \<Rightarrow> unit io" where
  "rollbackAll c [] = ret ()"
| "rollbackAll c (l # ls) = bind_io (rollback_one c l) (\<lambda>_. rollbackAll c ls)"

fun phase1 :: "cluster \<Rightarrow> string \<Rightarrow> part list \<Rightarrow> prepLeg list \<Rightarrow> (gerr + prepLeg list) io" where
  "phase1 c gid [] legs = ret (Inr legs)"
| "phase1 c gid ((s, fn) # parts) legs =
     (case Pool c s of
        Inl e \<Rightarrow> bind_io (rollbackAll c legs) (\<lambda>_. ret (Inl e))
      | Inr p \<Rightarrow>
          try_io (request p)
            (\<lambda>e. bind_io (rollbackAll c legs) (\<lambda>_. ret (Inl (EAt ''acquire'' s e))))
            (\<lambda>_. try_io (run_leg (legGID gid s) p s fn)
              (\<lambda>e. bind_io (rollbackAll c legs) (\<lambda>_. ret (Inl e)))
              (\<lambda>_. phase1 c gid parts (legs @ [\<lparr>leg_shard = s, leg_gid = legGID gid s\<rparr>]))))"

definition commit_one :: "cluster \<Rightarrow> prepLeg \<Rightarrow> gerr list io" where
  "commit_one c l =
     (case Pool c (leg_shard l) of
        Inl e \<Rightarrow> ret [e]
      | Inr p \<Rightarrow> try_io (round_trip p (sql_commit_prepared (leg_gid l)))
          (\<lambda>e. ret [EAt ''commit prepared'' (leg_shard l) e]) (\<lambda>_. ret []))"

fun phase2 :: "cluster \<Rightarrow> prepLeg list \<Rightarrow> gerr list io" where
  "phase2 c [] = ret []"
| "phase2 c (l # ls) = bind_io (commit_one c l) (\<lambda>e. bind_io (phase2 c ls) (\<lambda>es. ret (e @ es)))"

definition TwoPC_Do :: "cluster \<Rightarrow> string \<Rightarrow> part list \<Rightarrow> (gerr + unit) io" where
  "TwoPC_Do c gid parts =
     try_io (phase1 c gid parts []) (\<lambda>e. ret (Inl e))
       (\<lambda>legs. bind_io (phase2 c legs) (\<lambda>errs. ret (if errs = [] then Inr () else Inl (EJoin errs))))"

record Orphan =
  or_Shard :: int
  or_GID :: string
  or_Prepared :: time
  or_Age :: int

definition sql_orphans :: "int \<Rightarrow> time \<Rightarrow> node \<Rightarrow> sql_error + Orphan list" where
  "sql_orphans s now n = Inr (map (\<lambda>px. \<lparr>or_Shard = s, or_GID = px_gid px, or_Prepared = px_prepared px,
     or_Age = now - px_prepared px\<rparr>) (sort_key px_prepared (prepared n)))"

definition orphans_on :: "cluster \<Rightarrow> int \<Rightarrow> Orphan list \<Rightarrow> (gerr + Orphan list) io" where
  "orphans_on c s out =
     (case Pool c s of
        Inl e \<Rightarrow> ret (Inl e)
      | Inr p \<Rightarrow> try_io (query_rows_at p (sql_orphans s)) (\<lambda>e. ret (Inl e))
          (\<lambda>(rows, err). case err of Some e \<Rightarrow> ret (Inl e) | None \<Rightarrow> ret (Inr (out @ rows))))"

definition Orphans :: "cluster \<Rightarrow> (gerr + Orphan list) io" where
  "Orphans c = for_io (orphans_on c) (Shards c) []"

section \<open>The state of a leg\<close>

text \<open>
  A part on shard \<open>s\<close> is, relative to the node \<open>n0\<close> it started from: untouched; prepared,
  its effect stored under the leg's name; or committed, its effect in the tables.
\<close>

definition part_effect :: "(gerr + unit) tx \<Rightarrow> tables \<Rightarrow> tables \<Rightarrow> bool" where
  "part_effect fn T T' \<longleftrightarrow> (\<exists>es es'. fn (T, es) = (Done (Inr ()), T', es'))"

definition leg_prepared :: "string \<Rightarrow> (gerr + unit) tx \<Rightarrow> node \<Rightarrow> node \<Rightarrow> bool" where
  "leg_prepared g fn n0 n \<longleftrightarrow> (\<exists>t eff. part_effect fn (tabs n0) (eff (tabs n0))
     \<and> n = n0\<lparr>prepared := prepared n0 @ [\<lparr>px_gid = g, px_prepared = t, px_effect = eff\<rparr>]\<rparr>)"

definition leg_committed :: "(gerr + unit) tx \<Rightarrow> node \<Rightarrow> node \<Rightarrow> bool" where
  "leg_committed fn n0 n \<longleftrightarrow> (\<exists>T. part_effect fn (tabs n0) T \<and> n = n0\<lparr>tabs := T\<rparr>)"

lemma find_stored:
  assumes "g \<notin> px_gid ` set ps"
  shows "find (\<lambda>px. px_gid px = g) (ps @ [\<lparr>px_gid = g, px_prepared = t, px_effect = eff\<rparr>])
      = Some \<lparr>px_gid = g, px_prepared = t, px_effect = eff\<rparr>"
    and "filter (\<lambda>px. px_gid px \<noteq> g) ps = ps"
  using assms by (induction ps) auto

lemma commit_of_prepared:
  assumes "leg_prepared g fn n0 n" and "g \<notin> px_gid ` set (prepared n0)"
  shows "\<exists>n'. sql_commit_prepared g now n = Inr ((), n') \<and> leg_committed fn n0 n'"
  using assms by (auto simp: leg_prepared_def sql_commit_prepared_def find_stored leg_committed_def)

lemma rollback_of_prepared:
  assumes "leg_prepared g fn n0 n" and "g \<notin> px_gid ` set (prepared n0)"
  shows "sql_rollback_prepared g now n = Inr ((), n0)"
  using assms by (auto simp: leg_prepared_def sql_rollback_prepared_def find_stored)

lemma rollback_of_untouched:
  assumes "g \<notin> px_gid ` set (prepared n)"
  shows "sql_rollback_prepared g now n = Inl UndefinedGid"
proof -
  have "find (\<lambda>px. px_gid px = g) (prepared n) = None" using assms by (auto simp: find_None_iff)
  then show ?thesis by (simp add: sql_rollback_prepared_def)
qed

section \<open>The state of the cluster\<close>

text \<open>
  Every part's node stands in the relation \<open>P\<close> to the node it started from, and no other node
  changed.
\<close>

definition part_dsns :: "cluster \<Rightarrow> part list \<Rightarrow> string set" where
  "part_dsns c parts = {p_dsn p | s fn p. (s, fn) \<in> set parts \<and> Pool c s = Inr p}"

definition legs_db :: "cluster \<Rightarrow> db \<Rightarrow> (int \<Rightarrow> (gerr + unit) tx \<Rightarrow> node \<Rightarrow> node \<Rightarrow> bool) \<Rightarrow> part list \<Rightarrow> db \<Rightarrow> bool" where
  "legs_db c d0 P parts d \<longleftrightarrow> (\<forall>(s, fn)\<in>set parts. \<forall>p. Pool c s = Inr p \<longrightarrow> P s fn (d0 (p_dsn p)) (d (p_dsn p)))
     \<and> (\<forall>x. x \<notin> part_dsns c parts \<longrightarrow> d x = d0 x)"

lemma legs_db_mono:
  "legs_db c d0 P parts d \<Longrightarrow> (\<And>s fn n0 n. s \<in> fst ` set parts \<Longrightarrow> P s fn n0 n \<Longrightarrow> Q s fn n0 n) \<Longrightarrow> legs_db c d0 Q parts d"
  unfolding legs_db_def by (fastforce simp: image_iff)

lemma legs_db_start: "legs_db c d (\<lambda>s fn n0 n. n = n0) parts d"
  by (auto simp: legs_db_def)

lemma legs_db_at:
  "legs_db c d0 P parts d \<Longrightarrow> (s, fn) \<in> set parts \<Longrightarrow> Pool c s = Inr p \<Longrightarrow> P s fn (d0 (p_dsn p)) (d (p_dsn p))"
  by (auto simp: legs_db_def)

lemma legs_db_update:
  assumes "legs_db c d0 P parts d" and "wf_cluster c" and "distinct (map fst parts)"
    and "(s, fn) \<in> set parts" and "Pool c s = Inr p" and "Q s fn (d0 (p_dsn p)) n"
    and "\<And>s' fn' n0 n. s' \<noteq> s \<Longrightarrow> s' \<in> fst ` set parts \<Longrightarrow> P s' fn' n0 n \<Longrightarrow> Q s' fn' n0 n"
  shows "legs_db c d0 Q parts (d(p_dsn p := n))"
proof (unfold legs_db_def, intro conjI ballI allI impI, clarify)
  fix s' fn' p' assume in_parts: "(s', fn') \<in> set parts" and pool: "Pool c s' = Inr p'"
  show "Q s' fn' (d0 (p_dsn p')) ((d(p_dsn p := n)) (p_dsn p'))"
  proof (cases "s' = s")
    case True
    then have "fn' = fn" using in_parts assms(3,4) by (auto dest: eq_key_imp_eq_value)
    then show ?thesis using True pool assms(5,6) by simp
  next
    case False
    then have "p_dsn p' \<noteq> p_dsn p" using Pool_node_inj [OF assms(2) pool assms(5)] by blast
    moreover have "P s' fn' (d0 (p_dsn p')) (d (p_dsn p'))" using assms(1) in_parts pool by (rule legs_db_at)
    ultimately show ?thesis using assms(7) [OF False] in_parts by (force simp: image_iff)
  qed
next
  fix x assume x: "x \<notin> part_dsns c parts"
  then have "x \<noteq> p_dsn p" using assms(4,5) by (auto simp: part_dsns_def)
  then show "(d(p_dsn p := n)) x = d0 x" using x assms(1) by (simp add: legs_db_def)
qed

text \<open>The names of the legs are new on the nodes they go to.\<close>

definition gids_fresh :: "cluster \<Rightarrow> string \<Rightarrow> part list \<Rightarrow> db \<Rightarrow> bool" where
  "gids_fresh c gid parts d0 \<longleftrightarrow> (\<forall>(s, fn)\<in>set parts. \<forall>p. Pool c s = Inr p \<longrightarrow>
     legGID gid s \<notin> px_gid ` set (prepared (d0 (p_dsn p))))"

text \<open>The possible states of the legs before, between and after the two phases.\<close>

definition undecided :: "string \<Rightarrow> int \<Rightarrow> (gerr + unit) tx \<Rightarrow> node \<Rightarrow> node \<Rightarrow> bool" where
  "undecided gid s fn n0 n \<longleftrightarrow> n = n0 \<or> leg_prepared (legGID gid s) fn n0 n"

definition legs_made :: "string \<Rightarrow> int set \<Rightarrow> int \<Rightarrow> (gerr + unit) tx \<Rightarrow> node \<Rightarrow> node \<Rightarrow> bool" where
  "legs_made gid K s fn n0 n \<longleftrightarrow> (if s \<in> K then leg_prepared (legGID gid s) fn n0 n else n = n0)"

definition legs_decided :: "string \<Rightarrow> int set \<Rightarrow> int set \<Rightarrow> int \<Rightarrow> (gerr + unit) tx \<Rightarrow> node \<Rightarrow> node \<Rightarrow> bool" where
  "legs_decided gid S K s fn n0 n \<longleftrightarrow>
     (if s \<in> S then leg_committed fn n0 n
      else if s \<in> K then leg_prepared (legGID gid s) fn n0 n
      else leg_prepared (legGID gid s) fn n0 n \<or> leg_committed fn n0 n)"

section \<open>Steps of the protocol\<close>

text \<open>A round trip whose statement may change one node, other clients being quiet.\<close>

lemma round_trip_quiet:
  assumes "moves_in (=) (script w)" and "round_trip p stmt w = (r, w')"
  shows "moves_in (=) (script w')"
    and "nodes w' = nodes w \<or> (\<exists>t x n. stmt t (nodes w (p_dsn p)) = Inr (x, n) \<and> nodes w' = (nodes w)(p_dsn p := n))"
    and "r = Done (Inr y) \<Longrightarrow> \<exists>t n. stmt t (nodes w (p_dsn p)) = Inr (y, n) \<and> nodes w' = (nodes w)(p_dsn p := n)"
proof -
  have "moves_in (=) (script w')
    \<and> (nodes w' = nodes w \<or> (\<exists>t x n. stmt t (nodes w (p_dsn p)) = Inr (x, n) \<and> nodes w' = (nodes w)(p_dsn p := n)))
    \<and> (r = Done (Inr y) \<longrightarrow> (\<exists>t n. stmt t (nodes w (p_dsn p)) = Inr (y, n) \<and> nodes w' = (nodes w)(p_dsn p := n)))"
  proof (cases "script w")
    case (Cons e es)
    have quiet: "ev_move e (nodes w) = nodes w" "moves_in (=) es" using assms(1) Cons by simp_all
    show ?thesis
    proof (cases "ev_reply e = Nack \<or> (\<exists>se. stmt (ev_now e) (nodes w (p_dsn p)) = Inl se)")
      case True
      then have "nodes w' = nodes w" "script w' = es" "\<exists>err. r = Done (Inl err)"
        using assms(2) Cons quiet by (auto simp: round_trip_def Let_def split: if_splits)
      then show ?thesis using quiet by auto
    next
      case False
      then obtain x n where stmt: "stmt (ev_now e) (nodes w (p_dsn p)) = Inr (x, n)"
        by (cases "stmt (ev_now e) (nodes w (p_dsn p))") auto
      have "nodes w' = (nodes w)(p_dsn p := n)" "script w' = es" "r = Done (if ev_reply e = Ack then Inr x else Inl EDriver)"
        using assms(2) Cons quiet False stmt by (auto simp: round_trip_def Let_def)
      moreover from this have "r = Done (Inr y) \<Longrightarrow> x = y" by (simp split: if_splits)
      ultimately show ?thesis using quiet stmt by blast
    qed
  qed (use assms in \<open>simp add: round_trip_def\<close>)
  then show "moves_in (=) (script w')"
    and "nodes w' = nodes w \<or> (\<exists>t x n. stmt t (nodes w (p_dsn p)) = Inr (x, n) \<and> nodes w' = (nodes w)(p_dsn p := n))"
    and "r = Done (Inr y) \<Longrightarrow> \<exists>t n. stmt t (nodes w (p_dsn p)) = Inr (y, n) \<and> nodes w' = (nodes w)(p_dsn p := n)"
    by blast+
qed

lemma request_quiet:
  assumes "moves_in (=) (script w)" and "request p w = (r, w')"
  shows "moves_in (=) (script w') \<and> nodes w' = nodes w"
  using read_only.guar_query_row [of p "\<lambda>n. ()"] assms unfolding guar_def request_def by (metis snd_conv)

lemma run_leg_quiet:
  assumes "moves_in (=) (script w)" and "tx_frame fn" and "run_leg g p s fn w = (r, w')"
    and "g \<notin> px_gid ` set (prepared (nodes w (p_dsn p)))"
  shows "moves_in (=) (script w') \<and> ((nodes w' = nodes w \<and> r \<noteq> Done (Inr ()))
    \<or> (\<exists>n. leg_prepared g fn (nodes w (p_dsn p)) n \<and> nodes w' = (nodes w)(p_dsn p := n)))"
proof (cases "script w")
  case (Cons b es)
  let ?n0 = "nodes w (p_dsn p)"
  have quiet: "ev_move b (nodes w) = nodes w" "moves_in (=) es" using assms(1) Cons by simp_all
  obtain o1 T1 es1 where fn: "fn (tabs ?n0, es) = (o1, T1, es1)" by (metis prod_cases3)
  have "\<exists>k. es1 = drop k es" using assms(2) fn unfolding tx_frame_def by (metis snd_conv)
  then have es1: "moves_in (=) es1" using quiet(2) by (auto simp: moves_in_def dest: in_set_dropD)
  let ?w1 = "w\<lparr>script := es1\<rparr>"
  consider "ev_reply b \<noteq> Ack" | "ev_reply b = Ack" "o1 = Killed" | q where "ev_reply b = Ack" "o1 = Panicked q"
    | e where "ev_reply b = Ack" "o1 = Done (Inl e)" | "ev_reply b = Ack" "o1 = Done (Inr ())"
    by (metis old.unit.exhaust outcome.exhaust sum.exhaust)
  then show ?thesis
  proof cases
    case (4 e)
    have run: "bind_io (request p) (\<lambda>_. ret (Inl (EAt ''work'' s e))) ?w1 = (r, w')"
      using assms(3) Cons 4 fn quiet by (simp add: run_leg_def Let_def)
    obtain o2 w2 where req: "request p ?w1 = (o2, w2)" by (metis surj_pair)
    then have "w' = w2" "r \<noteq> Done (Inr ())" using run by (auto simp: bind_io_def split: outcome.splits)
    then show ?thesis using request_quiet [OF _ req] es1 by simp
  next
    case 5
    let ?eff = "\<lambda>T. fst (snd (fn (T, es)))"
    have run: "try_io (round_trip p (sql_prepare g ?eff)) (\<lambda>e. bind_io (request p) (\<lambda>_. ret (Inl (EAt ''prepare'' s e))))
        (\<lambda>_. ret (Inr ())) ?w1 = (r, w')"
      using assms(3) Cons 5 fn quiet by (simp add: run_leg_def Let_def)
    obtain o2 w2 where rt: "round_trip p (sql_prepare g ?eff) ?w1 = (o2, w2)" by (metis surj_pair)
    have stored: "leg_prepared g fn ?n0 n" if "sql_prepare g ?eff t ?n0 = Inr ((), n)" for t n
    proof -
      have "part_effect fn (tabs ?n0) (?eff (tabs ?n0))" using fn 5(2) by (auto simp: part_effect_def)
      then show ?thesis using that assms(4) by (auto simp: sql_prepare_def leg_prepared_def)
    qed
    have quiet1: "moves_in (=) (script ?w1)" using es1 by simp
    note q = round_trip_quiet [OF quiet1 rt, simplified]
    have w2: "nodes w2 = nodes w \<or> (\<exists>n. leg_prepared g fn ?n0 n \<and> nodes w2 = (nodes w)(p_dsn p := n))"
      using q(2) stored by auto
    show ?thesis
    proof (cases "o2 = Done (Inr ())")
      case True
      then show ?thesis using run rt q(1,3) stored by (auto simp: try_io_def bind_io_def)
    next
      case False
      have "moves_in (=) (script w') \<and> nodes w' = nodes w2 \<and> r \<noteq> Done (Inr ())"
      proof (cases o2)
        case (Done v)
        then obtain e where "v = Inl e" using False by (cases v) auto
        then have run2: "bind_io (request p) (\<lambda>_. ret (Inl (EAt ''prepare'' s e))) w2 = (r, w')"
          using run rt Done by (simp add: try_io_def bind_io_def)
        obtain o3 w3 where req: "request p w2 = (o3, w3)" by (metis surj_pair)
        then have "w' = w3" "r \<noteq> Done (Inr ())" using run2 by (auto simp: bind_io_def split: outcome.splits)
        then show ?thesis using request_quiet [OF q(1) req] by simp
      qed (use run rt q(1) in \<open>auto simp: try_io_def bind_io_def\<close>)
      then show ?thesis using w2 by auto
    qed
  qed (use assms(3) Cons quiet es1 fn in \<open>auto simp: run_leg_def Let_def\<close>)
qed (use assms in \<open>auto simp: run_leg_def\<close>)


section \<open>The phases\<close>

text \<open>What the phases assume of the parts: a Go map has distinct keys, bodies are transactions.\<close>

definition parts_ok :: "cluster \<Rightarrow> string \<Rightarrow> part list \<Rightarrow> db \<Rightarrow> bool" where
  "parts_ok c gid parts d0 \<longleftrightarrow> wf_cluster c \<and> distinct (map fst parts) \<and> gids_fresh c gid parts d0
     \<and> (\<forall>(s, fn)\<in>set parts. tx_frame fn)"

lemma parts_ok_fresh:
  "parts_ok c gid parts d0 \<Longrightarrow> (s, fn) \<in> set parts \<Longrightarrow> Pool c s = Inr p \<Longrightarrow>
    legGID gid s \<notin> px_gid ` set (prepared (d0 (p_dsn p)))"
  by (auto simp: parts_ok_def gids_fresh_def)

lemma rollback_one_quiet:
  assumes "parts_ok c gid parts d0" and "moves_in (=) (script w)" and "(s, fn) \<in> set parts"
    and "legs_db c d0 (undecided gid) parts (nodes w)"
    and "rollback_one c \<lparr>leg_shard = s, leg_gid = legGID gid s\<rparr> w = (r, w')"
  shows "moves_in (=) (script w') \<and> legs_db c d0 (undecided gid) parts (nodes w')"
proof (cases "Pool c s")
  case (Inr p)
  let ?stmt = "sql_rollback_prepared (legGID gid s)" and ?n0 = "d0 (p_dsn p)"
  note fresh = parts_ok_fresh [OF assms(1,3) Inr]
  obtain o1 w1 where rt: "round_trip p ?stmt w = (o1, w1)" by (metis surj_pair)
  have "w' = w1" using assms(5) rt Inr by (auto simp: rollback_one_def bind_io_def split: outcome.splits)
  note q = round_trip_quiet [OF assms(2) rt]
  have at: "undecided gid s fn ?n0 (nodes w (p_dsn p))" using assms(4,3) Inr by (rule legs_db_at)
  have "n = ?n0" if "?stmt t (nodes w (p_dsn p)) = Inr (x, n)" for t x n
    using at that rollback_of_prepared [OF _ fresh] rollback_of_untouched [OF fresh]
    by (auto simp: undecided_def)
  then have "nodes w1 = nodes w \<or> nodes w1 = (nodes w)(p_dsn p := ?n0)" using q(2) by blast
  moreover have "legs_db c d0 (undecided gid) parts ((nodes w)(p_dsn p := ?n0))"
    using assms(1) by (intro legs_db_update [OF assms(4) _ _ assms(3) Inr]) (auto simp: parts_ok_def undecided_def)
  ultimately show ?thesis using q(1) \<open>w' = w1\<close> assms(4) by auto
qed (use assms in \<open>auto simp: rollback_one_def\<close>)

definition legs_of :: "string \<Rightarrow> part list \<Rightarrow> prepLeg list" where
  "legs_of gid parts = map (\<lambda>(s, fn). \<lparr>leg_shard = s, leg_gid = legGID gid s\<rparr>) parts"

lemma rollbackAll_quiet:
  assumes "parts_ok c gid parts d0" and "moves_in (=) (script w)" and "set made \<subseteq> set parts"
    and "legs_db c d0 (undecided gid) parts (nodes w)" and "rollbackAll c (legs_of gid made) w = (r, w')"
  shows "moves_in (=) (script w') \<and> legs_db c d0 (undecided gid) parts (nodes w')"
  using assms(2-5)
proof (induction made arbitrary: w)
  case (Cons a made)
  obtain s fn where a: "a = (s, fn)" by (cases a)
  obtain o1 w1 where one: "rollback_one c \<lparr>leg_shard = s, leg_gid = legGID gid s\<rparr> w = (o1, w1)" by (metis surj_pair)
  have w1: "moves_in (=) (script w1) \<and> legs_db c d0 (undecided gid) parts (nodes w1)"
    using rollback_one_quiet [where fn = fn, OF assms(1) Cons.prems(1) _ Cons.prems(3) one] Cons.prems(2) a by simp
  show ?case
  proof (cases o1)
    case (Done u)
    then have "rollbackAll c (legs_of gid made) w1 = (r, w')"
      using Cons.prems(4) one a by (simp add: legs_of_def bind_io_def)
    from Cons.IH [OF _ _ _ this] show ?thesis using w1 Cons.prems(2) by simp
  qed (use Cons.prems(4) one a w1 in \<open>auto simp: legs_of_def bind_io_def\<close>)
qed (simp add: legs_of_def ret_def)

text \<open>
  Phase 1, from the point where \<open>made\<close> is prepared: either it fails and nothing is decided,
  or every leg is prepared.
\<close>

lemma made_undecided:
  "legs_db c d0 (legs_made gid K) parts d \<Longrightarrow> legs_db c d0 (undecided gid) parts d"
  by (erule legs_db_mono) (auto simp: legs_made_def undecided_def split: if_splits)

lemma failing_rollback:
  assumes "bind_io (rollbackAll c legs) (\<lambda>_. ret (Inl e)) w = (r, w')"
  shows "\<exists>o1. rollbackAll c legs w = (o1, w') \<and> (\<forall>x. r \<noteq> Done (Inr x))"
  using assms by (auto simp: bind_io_def split: prod.splits outcome.splits)

lemma run_leg_made:
  assumes "parts_ok c gid parts d0" and "moves_in (=) (script w)" and "(s, fn) \<in> set parts" and "s \<notin> K"
    and "Pool c s = Inr p" and "legs_db c d0 (legs_made gid K) parts (nodes w)"
    and "run_leg (legGID gid s) p s fn w = (r, w')"
  shows "moves_in (=) (script w')" and "legs_db c d0 (undecided gid) parts (nodes w')"
    and "r = Done (Inr ()) \<Longrightarrow> legs_db c d0 (legs_made gid (insert s K)) parts (nodes w')"
proof -
  let ?n0 = "d0 (p_dsn p)"
  have at: "nodes w (p_dsn p) = ?n0"
    using legs_db_at [OF assms(6,3,5)] assms(4) by (simp add: legs_made_def)
  have frame: "tx_frame fn" using assms(1,3) by (auto simp: parts_ok_def)
  note quiet = run_leg_quiet [OF assms(2) frame assms(7), unfolded at, OF parts_ok_fresh [OF assms(1,3,5)]]
  have made: "legs_db c d0 (legs_made gid (insert s K)) parts ((nodes w)(p_dsn p := n))"
    if "leg_prepared (legGID gid s) fn ?n0 n" for n
    using assms(1) that
    by (intro legs_db_update [OF assms(6) _ _ assms(3,5)]) (auto simp: parts_ok_def legs_made_def)
  show "moves_in (=) (script w')" using quiet by blast
  show "legs_db c d0 (undecided gid) parts (nodes w')"
    using quiet made_undecided [OF assms(6)] made_undecided [OF made] by auto
  show "legs_db c d0 (legs_made gid (insert s K)) parts (nodes w')" if "r = Done (Inr ())"
    using quiet that made by auto
qed

lemma phase1_quiet:
  assumes "parts_ok c gid parts d0" and "moves_in (=) (script w)" and "parts = made @ rest"
    and "legs_db c d0 (legs_made gid (fst ` set made)) parts (nodes w)"
    and "phase1 c gid rest (legs_of gid made) w = (r, w')"
  shows "moves_in (=) (script w')
    \<and> (case r of Done (Inr legs) \<Rightarrow> legs = legs_of gid parts \<and> fst ` set parts \<subseteq> set (Shards c) \<union> fst ` set made
          \<and> legs_db c d0 (legs_made gid (fst ` set parts)) parts (nodes w')
        | _ \<Rightarrow> legs_db c d0 (undecided gid) parts (nodes w'))"
  using assms(2-5)
proof (induction rest arbitrary: made w)
  case Nil
  then show ?case by auto
next
  case (Cons a rest)
  obtain s fn where a: "a = (s, fn)" by (cases a)
  have s: "(s, fn) \<in> set parts" "s \<notin> fst ` set made" "set made \<subseteq> set parts"
    using Cons.prems(2) assms(1) a by (auto simp: parts_ok_def)
  note und = made_undecided [OF Cons.prems(3)]
  have fail: ?case if undo: "bind_io (rollbackAll c (legs_of gid made)) (\<lambda>_. ret (Inl e)) w1 = (r, w')"
      and mv: "moves_in (=) (script w1)" and db: "legs_db c d0 (undecided gid) parts (nodes w1)" for e w1
  proof -
    obtain o1 where o1: "rollbackAll c (legs_of gid made) w1 = (o1, w')" "\<forall>x. r \<noteq> Done (Inr x)"
      using failing_rollback [OF undo] by blast
    from rollbackAll_quiet [OF assms(1) mv s(3) db o1(1)] o1(2) show ?thesis
      by (auto split: outcome.splits sum.splits)
  qed
  show ?case
  proof (cases "Pool c s")
    case (Inl e)
    then show ?thesis using fail Cons.prems(1,4) und a by simp
  next
    case (Inr p)
    obtain o1 w1 where req: "request p w = (o1, w1)" by (metis surj_pair)
    note q1 = request_quiet [OF Cons.prems(1) req]
    have run: "try_io (request p) (\<lambda>e. bind_io (rollbackAll c (legs_of gid made)) (\<lambda>_. ret (Inl (EAt ''acquire'' s e))))
            (\<lambda>_. try_io (run_leg (legGID gid s) p s fn)
              (\<lambda>e. bind_io (rollbackAll c (legs_of gid made)) (\<lambda>_. ret (Inl e)))
              (\<lambda>_. phase1 c gid rest (legs_of gid made @ [\<lparr>leg_shard = s, leg_gid = legGID gid s\<rparr>]))) w = (r, w')"
      using Cons.prems(4) a Inr by simp
    show ?thesis
    proof (cases o1)
      case (Done v)
      show ?thesis
      proof (cases v)
        case (Inl e)
        then show ?thesis using run req Done q1 und fail by (simp add: try_io_def bind_io_def)
      next
        case (Inr u)
        obtain o2 w2 where leg: "run_leg (legGID gid s) p s fn w1 = (o2, w2)" by (metis surj_pair)
        have moves1: "moves_in (=) (script w1)" and db1: "legs_db c d0 (legs_made gid (fst ` set made)) parts (nodes w1)"
          using q1 Cons.prems(3) by simp_all
        note q2 = run_leg_made [OF assms(1) moves1 s(1,2) \<open>Pool c s = Inr p\<close> db1 leg]
        have run2: "try_io (run_leg (legGID gid s) p s fn)
              (\<lambda>e. bind_io (rollbackAll c (legs_of gid made)) (\<lambda>_. ret (Inl e)))
              (\<lambda>_. phase1 c gid rest (legs_of gid (made @ [a]))) w1 = (r, w')"
          using run req Done Inr by (simp add: try_io_def bind_io_def legs_of_def a)
        show ?thesis
        proof (cases "o2 = Done (Inr ())")
          case True
          then have rest: "phase1 c gid rest (legs_of gid (made @ [a])) w2 = (r, w')"
            using run2 leg by (simp add: try_io_def bind_io_def)
          have "legs_db c d0 (legs_made gid (fst ` set (made @ [a]))) parts (nodes w2)"
            using q2(3) [OF True] a by simp
          moreover have "s \<in> set (Shards c)" using Pool_Inr [OF \<open>Pool c s = Inr p\<close>] by force
          ultimately show ?thesis
            using Cons.IH [OF _ _ _ rest] q2(1) Cons.prems(2) a by (auto split: outcome.splits sum.splits)
        next
          case False
          show ?thesis
          proof (cases o2)
            case (Done v2)
            then obtain e where "v2 = Inl e" using False by (cases v2) auto
            then show ?thesis using run2 leg Done q2(1,2) fail by (simp add: try_io_def bind_io_def)
          qed (use run2 leg q2(1,2) in \<open>auto simp: try_io_def bind_io_def\<close>)
        qed
      qed
    qed (use run req q1 und in \<open>auto simp: try_io_def bind_io_def\<close>)
  qed
qed


lemma commit_one_quiet:
  assumes "parts_ok c gid parts d0" and "moves_in (=) (script w)" and "(s, fn) \<in> set parts"
    and "s \<notin> S" and "s \<notin> K" and "legs_db c d0 (legs_decided gid S (insert s K)) parts (nodes w)"
    and "commit_one c \<lparr>leg_shard = s, leg_gid = legGID gid s\<rparr> w = (r, w')"
  shows "moves_in (=) (script w') \<and> legs_db c d0 (legs_decided gid S K) parts (nodes w')
    \<and> (r = Done [] \<longrightarrow> legs_db c d0 (legs_decided gid (insert s S) K) parts (nodes w'))"
proof -
  have weaker: "legs_db c d0 (legs_decided gid S K) parts (nodes w)"
    using assms(6) by (rule legs_db_mono) (auto simp: legs_decided_def split: if_splits)
  show ?thesis
  proof (cases "Pool c s")
    case (Inr p)
    let ?n0 = "d0 (p_dsn p)" and ?stmt = "sql_commit_prepared (legGID gid s)"
    note fresh = parts_ok_fresh [OF assms(1,3) Inr]
    obtain o1 w1 where rt: "round_trip p ?stmt w = (o1, w1)" by (metis surj_pair)
    note q = round_trip_quiet [OF assms(2) rt]
    have at: "leg_prepared (legGID gid s) fn ?n0 (nodes w (p_dsn p))"
      using legs_db_at [OF assms(6,3) Inr] assms(4) by (simp add: legs_decided_def)
    have effect: "leg_committed fn ?n0 n" if "?stmt t (nodes w (p_dsn p)) = Inr (x, n)" for t x n
      using commit_of_prepared [OF at fresh, of t] that by auto
    have upd: "legs_db c d0 (legs_decided gid S' K) parts ((nodes w)(p_dsn p := n))"
      if "?stmt t (nodes w (p_dsn p)) = Inr (x, n)" "S' = S \<or> S' = insert s S" for t x n S'
      using assms(1,4,5) that(2) effect [OF that(1)]
      by (intro legs_db_update [OF assms(6) _ _ assms(3) Inr]) (auto simp: parts_ok_def legs_decided_def split: if_splits)
    have w1: "moves_in (=) (script w1)" "legs_db c d0 (legs_decided gid S K) parts (nodes w1)"
      using q(1,2) weaker upd by auto
    have ok: "legs_db c d0 (legs_decided gid (insert s S) K) parts (nodes w1)" if "o1 = Done (Inr ())"
      using q(3) [OF that] upd by auto
    have "w' = w1" "r = Done [] \<Longrightarrow> o1 = Done (Inr ())"
      using assms(7) rt Inr by (auto simp: commit_one_def try_io_def bind_io_def split: outcome.splits sum.splits)
    then show ?thesis using w1 ok by blast
  next
    case (Inl e)
    then have "r = Done [e]" "w' = w" using assms(7) by (simp_all add: commit_one_def)
    then show ?thesis using assms(2) weaker by simp
  qed
qed

lemma phase2_quiet:
  assumes "parts_ok c gid parts d0" and "moves_in (=) (script w)" and "set todo \<subseteq> set parts"
    and "distinct (map fst todo)" and "S \<inter> fst ` set todo = {}"
    and "legs_db c d0 (legs_decided gid S (fst ` set todo)) parts (nodes w)"
    and "phase2 c (legs_of gid todo) w = (r, w')"
  shows "legs_db c d0 (legs_decided gid S {}) parts (nodes w')
    \<and> (r = Done [] \<longrightarrow> legs_db c d0 (legs_decided gid (S \<union> fst ` set todo) {}) parts (nodes w'))"
  using assms(2-7)
proof (induction todo arbitrary: w S r)
  case Nil
  then show ?case by (simp add: legs_of_def ret_def)
next
  case (Cons a todo)
  obtain s fn where a: "a = (s, fn)" by (cases a)
  let ?K = "fst ` set todo"
  have s: "(s, fn) \<in> set parts" "s \<notin> S" "s \<notin> ?K" using Cons.prems(2-4) a by auto
  obtain o1 w1 where one: "commit_one c \<lparr>leg_shard = s, leg_gid = legGID gid s\<rparr> w = (o1, w1)" by (metis surj_pair)
  have start: "legs_db c d0 (legs_decided gid S (insert s ?K)) parts (nodes w)" using Cons.prems(5) a by simp
  note q = commit_one_quiet [OF assms(1) Cons.prems(1) s start one]
  show ?case
  proof (cases o1)
    case (Done e)
    obtain o2 w2 where two: "phase2 c (legs_of gid todo) w1 = (o2, w2)" by (metis surj_pair)
    have run: "w' = w2" "r = Done [] \<longrightarrow> e = [] \<and> o2 = Done []"
      using Cons.prems(6) one two Done a by (auto simp: legs_of_def bind_io_def split: outcome.splits)
    have sub: "set todo \<subseteq> set parts" "distinct (map fst todo)" "S \<inter> ?K = {}" "insert s S \<inter> ?K = {}"
      using Cons.prems(2-4) a by auto
    have mv: "moves_in (=) (script w1)" "legs_db c d0 (legs_decided gid S ?K) parts (nodes w1)" using q by simp_all
    have one_way: "legs_db c d0 (legs_decided gid S {}) parts (nodes w')"
      using Cons.IH [OF mv(1) sub(1-3) mv(2) two [folded run(1)]] by simp
    have other: "legs_db c d0 (legs_decided gid (insert s S \<union> ?K) {}) parts (nodes w')" if "r = Done []"
    proof -
      have "legs_db c d0 (legs_decided gid (insert s S) ?K) parts (nodes w1)" using q run(2) that Done by simp
      from Cons.IH [OF mv(1) sub(1,2,4) this two [folded run(1)]] run(2) that show ?thesis by simp
    qed
    then show ?thesis using one_way a by (simp add: insert_commute)
  qed (use Cons.prems(6) one q a in \<open>auto simp: legs_of_def bind_io_def elim!: legs_db_mono simp: legs_decided_def split: if_splits\<close>)
qed

text \<open>
  A leg is decided when it is committed or prepared with the decision to commit taken, and it
  is undecided when it is untouched or prepared with no such decision.
\<close>

definition decided :: "string \<Rightarrow> int \<Rightarrow> (gerr + unit) tx \<Rightarrow> node \<Rightarrow> node \<Rightarrow> bool" where
  "decided gid s fn n0 n \<longleftrightarrow> leg_prepared (legGID gid s) fn n0 n \<or> leg_committed fn n0 n"

lemma TwoPC_states:
  assumes "parts_ok c gid parts (nodes w)" and "moves_in (=) (script w)"
    and "TwoPC_Do c gid parts w = (r, w')"
  shows "(legs_db c (nodes w) (undecided gid) parts (nodes w') \<and> r \<noteq> Done (Inr ()))
    \<or> (fst ` set parts \<subseteq> set (Shards c) \<and> legs_db c (nodes w) (decided gid) parts (nodes w')
       \<and> (r = Done (Inr ()) \<longrightarrow> legs_db c (nodes w) (\<lambda>s. leg_committed) parts (nodes w')))"
proof -
  obtain o1 w1 where p1: "phase1 c gid parts [] w = (o1, w1)" by (metis surj_pair)
  have start: "legs_db c (nodes w) (legs_made gid (fst ` set [])) parts (nodes w)"
    by (rule legs_db_mono [OF legs_db_start]) (simp add: legs_made_def)
  have "phase1 c gid parts (legs_of gid []) w = (o1, w1)" using p1 by (simp add: legs_of_def)
  note q1 = phase1_quiet [OF assms(1,2) _ start this]
  show ?thesis
  proof (cases "\<exists>legs. o1 = Done (Inr legs)")
    case False
    then have "w' = w1" "r \<noteq> Done (Inr ())" "legs_db c (nodes w) (undecided gid) parts (nodes w1)"
      using assms(3) p1 q1 by (auto simp: TwoPC_Do_def try_io_def bind_io_def split: outcome.splits sum.splits)
    then show ?thesis by simp
  next
    case True
    then obtain legs where legs: "o1 = Done (Inr legs)" by blast
    then have o1: "o1 = Done (Inr (legs_of gid parts))" and pools: "fst ` set parts \<subseteq> set (Shards c)"
      and made: "moves_in (=) (script w1)" "legs_db c (nodes w) (legs_made gid (fst ` set parts)) parts (nodes w1)"
      using q1 by (simp_all del: set_Shards)
    have dec: "legs_db c (nodes w) (legs_decided gid {} (fst ` set parts)) parts (nodes w1)"
      using made(2) by (rule legs_db_mono) (auto simp: legs_made_def legs_decided_def split: if_splits)
    obtain o2 w2 where p2: "phase2 c (legs_of gid parts) w1 = (o2, w2)" by (metis surj_pair)
    have "distinct (map fst parts)" using assms(1) by (simp add: parts_ok_def)
    note q2 = phase2_quiet [OF assms(1) made(1) subset_refl this _ dec p2]
    have run: "w' = w2" "r = Done (Inr ()) \<longrightarrow> o2 = Done []"
      using assms(3) p1 p2 o1
      by (auto simp: TwoPC_Do_def try_io_def bind_io_def split: outcome.splits if_splits)
    have "legs_db c (nodes w) (decided gid) parts (nodes w2)"
      using q2 by (auto elim!: legs_db_mono simp: legs_decided_def decided_def)
    moreover have "legs_db c (nodes w) (\<lambda>s. leg_committed) parts (nodes w2)" if "r = Done (Inr ())"
    proof -
      have "legs_db c (nodes w) (legs_decided gid (fst ` set parts) {}) parts (nodes w2)" using q2 run(2) that by simp
      then show ?thesis by (rule legs_db_mono) (simp add: legs_decided_def)
    qed
    ultimately show ?thesis using pools run(1) by blast
  qed
qed


section \<open>Orphans\<close>

definition orphans_of :: "cluster \<Rightarrow> db \<Rightarrow> int \<Rightarrow> (int \<times> string \<times> time) list" where
  "orphans_of c d s = (case Pool c s of Inl e \<Rightarrow> []
     | Inr p \<Rightarrow> map (\<lambda>px. (s, px_gid px, px_prepared px)) (sort_key px_prepared (prepared (d (p_dsn p)))))"

definition orphan_id :: "Orphan \<Rightarrow> int \<times> string \<times> time" where
  "orphan_id r = (or_Shard r, or_GID r, or_Prepared r)"

context rely
begin

lemma guar_orphans_on: "guar R (orphans_on c s out)"
  unfolding orphans_on_def
  by (cases "Pool c s")
     (auto intro!: guar_ret guar_try guar_query_rows_at split: option.splits)

end

lemma orphans_on_exact:
  assumes "moves_in (=) (script w)" and "orphans_on c s out w = (Done (Inr out'), w')"
  shows "map orphan_id out' = map orphan_id out @ orphans_of c (nodes w) s"
proof -
  obtain p where p: "Pool c s = Inr p" using assms(2) by (cases "Pool c s") (simp_all add: orphans_on_def)
  obtain e es where e: "script w = e # es"
    using assms(2) p
    by (cases "script w") (simp_all add: orphans_on_def try_io_def bind_io_def query_rows_at_def)
  have "ev_move e (nodes w) = nodes w" using assms(1) e by simp
  then show ?thesis
    using assms(2) p e
    by (auto simp: orphans_on_def try_io_def bind_io_def query_rows_at_def Let_def sql_orphans_def orphans_of_def
        orphan_id_def comp_def split: reply.splits)
qed

lemma orphans_loop:
  assumes "moves_in (=) (script w)" and "for_io (orphans_on c) ss out w = (Done (Inr out'), w')"
  shows "nodes w' = nodes w \<and> map orphan_id out' = map orphan_id out @ concat (map (orphans_of c (nodes w)) ss)"
  using assms
proof (induction ss arbitrary: w out)
  case (Cons s ss)
  obtain out1 w1 where step: "orphans_on c s out w = (Done (Inr out1), w1)"
      and rest: "for_io (orphans_on c) ss out1 w1 = (Done (Inr out'), w')"
    using Cons.prems(2) by (auto simp: try_io_def bind_io_def split: prod.splits outcome.splits sum.splits)
  have "nodes w1 = nodes w" "moves_in (=) (script w1)"
    using read_only.guar_orphans_on [of c s out] Cons.prems(1) step unfolding guar_def by (metis snd_conv)+
  with Cons.IH [OF _ rest] orphans_on_exact [OF Cons.prems(1) step] show ?case by simp
qed (simp add: ret_def)

section \<open>Properties\<close>

text \<open>C1: Two-phase commit is all or nothing, whatever is lost and wherever the process is killed.
  Either no leg is visible: every part's node is as it was, or holds the part's work prepared
  and uncommitted, and \<open>Do\<close> did not return nil; or no leg is lost: every part's node has the
  work committed or prepared.  When \<open>Do\<close> returns nil every part is committed and nothing stays
  prepared.  No node outside the parts changes in any case.\<close>

theorem two_pc_atomic:
  assumes "parts_ok c gid parts (nodes w)" and "moves_in (=) (script w)"
    and "TwoPC_Do c gid parts w = (r, w')"
  shows "(legs_db c (nodes w) (undecided gid) parts (nodes w') \<and> r \<noteq> Done (Inr ()))
    \<or> (fst ` set parts \<subseteq> set (Shards c) \<and> legs_db c (nodes w) (decided gid) parts (nodes w')
       \<and> (r = Done (Inr ()) \<longrightarrow> legs_db c (nodes w) (\<lambda>s. leg_committed) parts (nodes w')))"
  using assms by (rule TwoPC_states)

text \<open>A statement that changes the ledger alone, for the examples.\<close>

definition demo_part :: "(gerr + unit) tx" where
  "demo_part = tx_stmt (\<lambda>T. Inr ((), T\<lparr>ledger := AList.update 5 100 (ledger T)\<rparr>))"

lemma demo_parts_ok: "parts_ok demo_cluster ''g'' [(0, demo_part), (1, demo_part)] (nodes (demo_world [] es))"
  by (simp add: parts_ok_def gids_fresh_def demo_world_def demo_part_def tx_frame_stmt)

text \<open>The process is killed after the first of two commits.\<close>

lemma demo_two_pc:
  "\<exists>w'. TwoPC_Do demo_cluster ''g'' [(0, demo_part), (1, demo_part)] (demo_world [] (replicate 9 (calm 1))) = (Killed, w')
    \<and> ledger (tabs (nodes w' ''a'')) = [(5, 100)] \<and> ledger (tabs (nodes w' ''b'')) = []"
  by (simp add: TwoPC_Do_def try_io_def bind_io_def request_def query_row_def round_trip_def run_leg_def demo_part_def
      tx_stmt_def sql_prepare_def Let_def demo_world_def empty_tables_def commit_one_def sql_commit_prepared_def
      numeral_eq_Suc)

lemma two_pc_atomic_witness:
  "\<exists>w'. TwoPC_Do demo_cluster ''g'' [(0, demo_part), (1, demo_part)] (demo_world [] (replicate 9 (calm 1))) = (Killed, w')
    \<and> legs_db demo_cluster (nodes (demo_world [] [])) (decided ''g'') [(0, demo_part), (1, demo_part)] (nodes w')"
proof -
  let ?parts = "[(0, demo_part), (1, demo_part)] :: part list"
  obtain w' where run: "TwoPC_Do demo_cluster ''g'' ?parts (demo_world [] (replicate 9 (calm 1))) = (Killed, w')"
    and a: "ledger (tabs (nodes w' ''a'')) = [(5, 100)]" using demo_two_pc by blast
  have start: "nodes (demo_world [] (replicate 9 (calm 1))) = nodes (demo_world [] [])" by (simp add: demo_world_def)
  have "moves_in (=) (script (demo_world [] (replicate 9 (calm 1))))" by (simp add: demo_world_def moves_in_def)
  note states = two_pc_atomic [OF demo_parts_ok this run, unfolded start]
  have "\<not> legs_db demo_cluster (nodes (demo_world [] [])) (undecided ''g'') ?parts (nodes w')"
  proof
    assume "legs_db demo_cluster (nodes (demo_world [] [])) (undecided ''g'') ?parts (nodes w')"
    from legs_db_at [OF this, of 0 demo_part] have "undecided ''g'' 0 demo_part (nodes (demo_world [] []) ''a'') (nodes w' ''a'')"
      by simp
    then show False using a by (auto simp: undecided_def leg_prepared_def demo_world_def empty_tables_def)
  qed
  with states run show ?thesis by blast
qed

text \<open>\<open>Orphans\<close> returns an error or the complete list: every prepared transaction of every
  shard, by shard and then by age, and it changes nothing.\<close>

theorem orphans_complete:
  assumes "moves_in (=) (script w)" and "Orphans c w = (Done (Inr out), w')"
  shows "nodes w' = nodes w \<and> map orphan_id out = concat (map (orphans_of c (nodes w)) (Shards c))"
  using orphans_loop [OF assms(1) assms(2) [unfolded Orphans_def]] by simp

lemma orphans_complete_witness:
  "\<exists>out w'. Orphans demo_cluster (demo_world [] [calm 1, calm 2]) = (Done (Inr out), w')
    \<and> map orphan_id out = concat (map (orphans_of demo_cluster (nodes (demo_world [] []))) (Shards demo_cluster))"
proof -
  let ?w = "demo_world [] [calm 1, calm 2]"
  obtain out w' where run: "Orphans demo_cluster ?w = (Done (Inr out), w')"
    by (simp add: Orphans_def orphans_on_def try_io_def bind_io_def query_rows_at_def Let_def sql_orphans_def demo_world_def)
  have "moves_in (=) (script ?w)" by (simp add: demo_world_def)
  from orphans_complete [OF this run] run show ?thesis by (auto simp: demo_world_def)
qed

end
