(* ===== verification/Shardctl.thy ===== *)
theory Shardctl
  imports Ids Flags Store Txn
begin

text \<open>
  The command line tool, \<open>src/cmd/shardctl/main.go\<close>: its helpers, how it opens the cluster,
  and the commands that only read.  A command runs on the process: the file system and the
  databases.  What it prints is its result, a value with the numbers of the text; the values
  of its flags are arguments.
\<close>

section \<open>The process\<close>

record process =
  pr_host :: host
  pr_world :: world

type_synonym 'a command = "(process, 'a) prog"

definition on_host :: "'a sys \<Rightarrow> 'a command" where
  "on_host m = (\<lambda>s. case m (pr_host s) of (r, h) \<Rightarrow> (r, s\<lparr>pr_host := h\<rparr>))"

definition on_world :: "'a io \<Rightarrow> 'a command" where
  "on_world m = (\<lambda>s. case m (pr_world s) of (r, w) \<Rightarrow> (r, s\<lparr>pr_world := w\<rparr>))"

text \<open>What \<open>pgxpool\<close> makes of a connection string, and the environment.\<close>

record config =
  env :: "string \<Rightarrow> string"
  parse_dsn :: "string \<Rightarrow> gerr option"
  connect_dsn :: "string \<Rightarrow> gerr option"

section \<open>Helpers\<close>

definition envStr :: "(string \<Rightarrow> string) \<Rightarrow> string \<Rightarrow> string \<Rightarrow> string" where
  "envStr e k def = (if e k \<noteq> [] then e k else def)"

definition envInt :: "(string \<Rightarrow> string) \<Rightarrow> string \<Rightarrow> int \<Rightarrow> int" where
  "envInt e k def = (if e k \<noteq> [] then (case ParseInt (e k) of Inr n \<Rightarrow> n | Inl _ \<Rightarrow> def) else def)"

definition nShards :: "config \<Rightarrow> int" where
  "nShards u = envInt (env u) ''SHARDS'' 4"

definition topoPath :: "config \<Rightarrow> string" where
  "topoPath u = envStr (env u) ''TOPOLOGY_PATH'' ''tmp/topology.json''"

definition note_route :: "string \<Rightarrow> int \<Rightarrow> int \<times> string \<Rightarrow> int \<times> string" where
  "note_route kind p = (\<lambda>(highest, where'). if p > highest then (p, kind) else (highest, where'))"

definition highest_route :: "directory \<Rightarrow> int \<times> string" where
  "highest_route dir =
     fold (\<lambda>(k, p). note_route ''a tenant pin'' p) (gomap_of (Pins dir))
       (fold (\<lambda>(k, p). note_route ''an open migration window'' p) (gomap_of (Migrating dir))
         (fold (note_route ''placement'') (Placement dir) (-1, '''')))"

definition checkPlacementFits :: "int \<Rightarrow> string \<Rightarrow> directory \<Rightarrow> gerr option" where
  "checkPlacementFits n path dir =
     (case highest_route dir of (highest, where') \<Rightarrow>
        if highest < n then None
        else Some (EWrap (path @ '' routes via '' @ where') (EShardRange highest)))"

definition open_cmd :: "config \<Rightarrow> (gerr + cluster \<times> directory) command" where
  "open_cmd u =
     try_io (on_host (LoadOrInitDirectory (topoPath u) 1024 (nShards u))) (\<lambda>e. ret (Inl e)) (\<lambda>dir.
       case checkPlacementFits (nShards u) (topoPath u) dir of
         Some e \<Rightarrow> ret (Inl e)
       | None \<Rightarrow>
           try_io (on_world (Open (parse_dsn u) (connect_dsn u) (DSNsFromEnv (env u) (nShards u)) (TopDirectory dir)))
             (\<lambda>e. ret (Inl e)) (\<lambda>c.
               try_io (on_world (Ping c))
                 (\<lambda>e. bind_io (on_world (Close c)) (\<lambda>_. ret (Inl (EWrap ''(hint: make shards-up shards-init)'' e))))
                 (\<lambda>_. ret (Inr (c, dir)))))"

text \<open>\<open>c, _, err := open(ctx)\<close> with \<open>defer c.Close()\<close> around a command.\<close>

definition with_cluster :: "config \<Rightarrow> (cluster \<times> directory \<Rightarrow> (gerr + 'a) io) \<Rightarrow> (gerr + 'a) command" where
  "with_cluster u body =
     try_io (open_cmd u) (\<lambda>e. ret (Inl e)) (\<lambda>(c, dir).
       bind_io (on_world (body (c, dir))) (\<lambda>r. bind_io (on_world (Close c)) (\<lambda>_. ret r)))"

text \<open>
  How a command ends without a result: with an error, which \<open>main\<close> reports, or with the status
  that parsing its flags exits with.
\<close>

datatype stop = Failed gerr | Exited int

definition with_flags :: "int + 'f \<Rightarrow> ('f \<Rightarrow> (gerr + 'a) command) \<Rightarrow> (stop + 'a) command" where
  "with_flags fl m =
     (case fl of
        Inl code \<Rightarrow> ret (Inl (Exited code))
      | Inr x \<Rightarrow> try_io (m x) (\<lambda>e. ret (Inl (Failed e))) (\<lambda>r. ret (Inr r)))"

text \<open>
  \<open>bytesHuman\<close>: a number of bytes, or the quotient it prints with its unit's index in
  \<open>KMGTPE\<close>.
\<close>

datatype human = Bytes int | Scaled int int nat

function human_loop :: "int \<Rightarrow> int \<Rightarrow> nat \<Rightarrow> int \<times> nat" where
  "human_loop n dv ex = (if n \<ge> 1024 then human_loop (n div 1024) (dv * 1024) (ex + 1) else (dv, ex))"
  by auto
termination by (relation "measure (\<lambda>(n, dv, ex). nat n)") auto

declare human_loop.simps [simp del]

definition bytesHuman :: "int \<Rightarrow> human go" where
  "bytesHuman b =
     (if b < 1024 then Inr (Bytes b)
      else case human_loop (b div 1024) 1024 0 of (dv, ex) \<Rightarrow>
        if ex < 6 then Inr (Scaled b dv ex) else Inl IndexOutOfRange)"

section \<open>shardctl topology\<close>

definition half_up :: "int \<Rightarrow> nat \<Rightarrow> int \<Rightarrow> int" where
  "half_up from l p = (let per = 1024 div from in if int l mod per \<ge> per div 2 then p + from else p)"

definition dirTo :: "int \<Rightarrow> directory \<Rightarrow> directory" where
  "dirTo from d = d\<lparr>Placement := map (\<lambda>(l, p). half_up from l p) (List.enumerate 0 (Placement d))\<rparr>"

record TopologyReport =
  tr_modn :: "int \<times> int"
  tr_ring :: "int \<times> int"
  tr_dir :: "int \<times> int"
  tr_odd :: "int \<times> int"
  tr_balance :: "(int \<times> int \<times> int \<times> int) list"

definition cmdTopology :: "int \<Rightarrow> int \<Rightarrow> TopologyReport go" where
  "cmdTopology from sample =
     (let to = from * 2; modFrom = TopModN \<lparr>mod_N = from\<rparr>; modTo = TopModN \<lparr>mod_N = to\<rparr> in
      if from < 0 then Inl MakeSliceOutOfRange
      else let ringFrom = NewRing [0..from - 1] 200;
               ringTo = fold (\<lambda>i r. Add r i) [from..to - 1] (NewRing [0..from - 1] 200) in
        bind_go (NewDirectory 1024 from) (\<lambda>dirFrom.
        bind_go (Churn modFrom modTo sample) (\<lambda>cm.
        bind_go (Churn (TopRing ringFrom) (TopRing ringTo) sample) (\<lambda>cr.
        bind_go (Churn (TopDirectory dirFrom) (TopDirectory (dirTo from dirFrom)) sample) (\<lambda>cd.
        bind_go (Churn modFrom (TopModN \<lparr>mod_N = from + 1\<rparr>) sample) (\<lambda>co.
        bind_go (Distribution modFrom sample) (\<lambda>dm.
        bind_go (Distribution (TopRing ringFrom) sample) (\<lambda>dr.
        bind_go (Distribution (TopDirectory dirFrom) sample) (\<lambda>dd.
          Inr \<lparr>tr_modn = cm, tr_ring = cr, tr_dir = cd, tr_odd = co,
               tr_balance = map (\<lambda>s. (s, go_count dm s, go_count dr s, go_count dd s)) [0..from - 1]\<rparr>)))))))))"

section \<open>shardctl stats\<close>

fun stats_loop :: "ShardStats list \<Rightarrow> int \<times> int \<times> int \<Rightarrow> int \<times> int \<times> int" where
  "stats_loop [] acc = acc"
| "stats_loop (s # ss) (totalRows, minRows, maxRows) =
     stats_loop ss (totalRows + ss_Rows s,
       if minRows < 0 \<or> ss_Rows s < minRows then ss_Rows s else minRows,
       if ss_Rows s > maxRows then ss_Rows s else maxRows)"

record StatsReport =
  st_lines :: "(int \<times> int \<times> int \<times> human) list"
  st_total :: int
  st_imbalance :: "(int \<times> int) option"

fun stats_lines :: "ShardStats list \<Rightarrow> (int \<times> int \<times> int \<times> human) list go" where
  "stats_lines [] = Inr []"
| "stats_lines (s # ss) =
     bind_go (bytesHuman (ss_Bytes s)) (\<lambda>h.
     bind_go (stats_lines ss) (\<lambda>ls. Inr ((ss_Shard s, ss_Rows s, ss_Tenants s, h) # ls)))"

definition stats_body :: "(int \<times> int) list \<Rightarrow> (tables \<Rightarrow> int) \<Rightarrow> cluster \<Rightarrow> (gerr + StatsReport) io" where
  "stats_body sched relsize c =
     try_io (Stats sched relsize c) (\<lambda>e. ret (Inl e)) (\<lambda>stats.
       bind_io (lift_go (stats_lines stats)) (\<lambda>ls.
         case stats_loop stats (0, -1, 0) of (totalRows, minRows, maxRows) \<Rightarrow>
           ret (Inr \<lparr>st_lines = ls, st_total = totalRows,
             st_imbalance = (if minRows > 0 then Some (maxRows, minRows) else None)\<rparr>)))"

definition cmdStats :: "config \<Rightarrow> (int \<times> int) list \<Rightarrow> (tables \<Rightarrow> int) \<Rightarrow> (gerr + StatsReport) command" where
  "cmdStats u sched relsize = with_cluster u (\<lambda>(c, dir). stats_body sched relsize c)"

section \<open>shardctl tenant\<close>

record TenantReport =
  tn_hash :: u64
  tn_logical :: int
  tn_count :: int
  tn_physical :: int
  tn_write :: "int list"
  tn_summary :: TenantSummary

definition tenant_body :: "u64 \<Rightarrow> cluster \<times> directory \<Rightarrow> (gerr + TenantReport) io" where
  "tenant_body k = (\<lambda>(c, dir).
     bind_io (lift_go (Logical dir k)) (\<lambda>l.
     bind_io (lift_go (Directory_RouteRead dir k)) (\<lambda>p.
     bind_io (lift_go (Directory_RouteWrite dir k)) (\<lambda>ws.
       try_io (SummarizeTenant c k) (\<lambda>e. ret (Inl e)) (\<lambda>s.
         ret (Inr \<lparr>tn_hash = Key k, tn_logical = l, tn_count = LogicalCount dir, tn_physical = p,
                   tn_write = ws, tn_summary = s\<rparr>))))))"

definition cmdTenant :: "config \<Rightarrow> string list \<Rightarrow> (gerr + TenantReport) command" where
  "cmdTenant u args =
     (case args of
        [] \<Rightarrow> ret (Inl (EMsg ''usage: shardctl tenant ID''))
      | a # _ \<Rightarrow>
          (case ParseUint a of
             Inl e \<Rightarrow> ret (Inl (EMsg ''invalid tenant id''))
           | Inr k \<Rightarrow> with_cluster u (tenant_body (of_nat k))))"

section \<open>shardctl count\<close>

record CountReport =
  ct_lines :: "(int \<times> int \<times> gerr option \<times> int) list"
  ct_slowest :: "int \<times> int"
  ct_merged :: "(string \<times> int) list"

definition sum_counts :: "(string, int) gomap \<Rightarrow> int" where
  "sum_counts m = fold (\<lambda>(st, v) n. n + v) m 0"

definition count_report :: "(string, int) gomap \<Rightarrow> (string, int) gomap ShardResult list \<Rightarrow> CountReport" where
  "count_report merged per =
     \<lparr>ct_lines = map (\<lambda>r. (sr_Shard r, sr_Took r, sr_Err r, sum_counts (sr_Value r))) per,
      ct_slowest = SlowestShard per,
      ct_merged = map (\<lambda>st. (st, go_count merged st)) (sort (map fst merged))\<rparr>"

definition count_body :: "(int \<times> int) list \<Rightarrow> bool \<Rightarrow> cluster \<Rightarrow> (gerr + CountReport) io" where
  "count_body sched partial c =
     bind_io (StateCounts sched c partial) (\<lambda>(merged, per, err).
       case err of
         Some e \<Rightarrow> if \<not> partial then ret (Inl e) else ret (Inr (count_report merged per))
       | None \<Rightarrow> ret (Inr (count_report merged per)))"

definition cmdCount :: "config \<Rightarrow> (int \<times> int) list \<Rightarrow> bool \<Rightarrow> (gerr + CountReport) command" where
  "cmdCount u sched partial = with_cluster u (\<lambda>(c, dir). count_body sched partial c)"

section \<open>shardctl page\<close>

text \<open>\<open>scheds\<close> gives the order in which the shards complete for each page still to come.\<close>

fun page_loop :: "cluster \<Rightarrow> int \<Rightarrow> nat \<Rightarrow> (nat \<Rightarrow> (int \<times> int) list) \<Rightarrow> cursor \<Rightarrow> (gerr + (string \<times> order list) list) io" where
  "page_loop c limit 0 scheds cur = ret (Inr [])"
| "page_loop c limit (Suc n) scheds cur =
     try_io (PageRecent (scheds n) c cur limit) (\<lambda>e. ret (Inl e)) (\<lambda>(rows, nxt).
       if rows = [] then ret (Inr [(Encode cur, rows)])
       else try_io (page_loop c limit n scheds nxt) (\<lambda>e. ret (Inl e)) (\<lambda>ps. ret (Inr ((Encode cur, rows) # ps))))"

definition cmdPage :: "config \<Rightarrow> (nat \<Rightarrow> (int \<times> int) list) \<Rightarrow> int \<Rightarrow> int \<Rightarrow> (gerr + (string \<times> order list) list) command" where
  "cmdPage u scheds pages limit = with_cluster u (\<lambda>(c, dir). page_loop c limit (nat pages) scheds zero_cursor)"

section \<open>shardctl ids\<close>

definition cmdIDs :: "int \<Rightarrow> int \<Rightarrow> i64 list \<Rightarrow> id_error + (i64 \<times> i64 \<times> int \<times> int) list option" where
  "cmdIDs n sh clock =
     (case NewIDGen sh of
        Inl e \<Rightarrow> Inl e
      | Inr g \<Rightarrow> Inr (map_option (\<lambda>(ids, g', clock'). map (\<lambda>k. (k, DecodeID k)) ids) (Next_n (nat n) g clock)))"

section \<open>shardctl audit\<close>

definition audit_body :: "cluster \<Rightarrow> (gerr + (int \<times> int) list \<times> int) io" where
  "audit_body c =
     try_io (Misplaced c) (\<lambda>e. ret (Inl e)) (\<lambda>m.
       let keys = sort (map fst m); total = fold (\<lambda>k t. t + go_count m k) keys 0
       in ret (Inr (map (\<lambda>k. (k, go_count m k)) keys, total)))"

definition cmdAudit :: "config \<Rightarrow> (gerr + (int \<times> int) list \<times> int) command" where
  "cmdAudit u = with_cluster u (\<lambda>(c, dir). audit_body c)"

section \<open>The placement check\<close>

text \<open>The physical shards a placement map can name.\<close>

definition route_targets :: "directory \<Rightarrow> int list" where
  "route_targets dir = Placement dir @ map snd (gomap_of (Migrating dir)) @ map snd (gomap_of (Pins dir))"

lemma note_fold:
  "fst (fold (\<lambda>x. note_route kind (f x)) xs acc) = fold max (map f xs) (fst acc)"
  by (induction xs arbitrary: acc) (auto simp: note_route_def max_def split: prod.splits)

lemma highest_route_max: "fst (highest_route dir) = fold max (route_targets dir) (-1)"
  unfolding highest_route_def route_targets_def case_prod_unfold
  using note_fold [of "''placement''" "\<lambda>p. p" "Placement dir"]
  by (simp add: note_fold)

lemma fold_max_less: "fold max xs a < (n :: int) \<longleftrightarrow> a < n \<and> (\<forall>x\<in>set xs. x < n)"
  by (induction xs arbitrary: a) auto

lemma fold_max_in: "fold max xs a = (a :: int) \<or> fold max xs a \<in> set xs"
proof (induction xs arbitrary: a)
  case (Cons x xs)
  then show ?case using Cons.IH [of "max x a"] by (auto simp: max_def split: if_splits)
qed simp

lemma checkPlacementFits_None:
  "checkPlacementFits n path dir = None \<longleftrightarrow> 0 \<le> n \<and> (\<forall>p\<in>set (route_targets dir). p < n)"
proof -
  have "checkPlacementFits n path dir = None \<longleftrightarrow> fst (highest_route dir) < n"
    by (simp add: checkPlacementFits_def split: prod.split)
  then show ?thesis by (simp add: highest_route_max fold_max_less) linarith
qed

lemma RouteWrite_targets:
  assumes "Directory_RouteWrite dir t = Inr ws" and "q \<in> set ws"
  shows "q \<in> set (route_targets dir)"
proof -
  have read: "p \<in> set (route_targets dir)" if "Directory_RouteRead dir t = Inr p" for p
    using that
    by (auto simp: Directory_RouteRead_def route_targets_def bind_go_Inr_iff go_index_def dest!: map_of_SomeD
        split: option.splits if_splits) force
  have mig: "p \<in> set (route_targets dir)" if "map_of (gomap_of (Migrating dir)) l = Some p" for l p
    using that by (force simp: route_targets_def dest!: map_of_SomeD)
  obtain src where src: "Directory_RouteRead dir t = Inr src"
    using assms(1) by (auto simp: Directory_RouteWrite_def bind_go_Inr_iff)
  have "ws = [src] \<or> (\<exists>l dst. map_of (gomap_of (Migrating dir)) l = Some dst \<and> ws = [src, dst])"
    using assms(1) src by (auto simp: Directory_RouteWrite_def bind_go_Inr_iff split: if_split_asm option.split_asm)
  then show ?thesis using assms(2) read [OF src] mig by auto
qed

section \<open>Opening the cluster\<close>

text \<open>A program that opens and closes no pool.\<close>

definition pools_kept :: "'a io \<Rightarrow> bool" where
  "pools_kept m \<longleftrightarrow> (\<forall>w. open_pools (snd (m w)) = open_pools w \<and> next_pool (snd (m w)) = next_pool w)"

lemma pools_kept_ret: "pools_kept (ret x)"
  by (simp add: pools_kept_def)

lemma pools_kept_bind:
  assumes "pools_kept m" and "\<And>x. pools_kept (f x)"
  shows "pools_kept (bind_io m f)"
proof (unfold pools_kept_def, intro allI)
  fix w :: world
  obtain r w1 where run: "m w = (r, w1)" by (metis surj_pair)
  then have "open_pools w1 = open_pools w \<and> next_pool w1 = next_pool w"
    using assms(1) unfolding pools_kept_def by (metis snd_conv)
  then show "open_pools (snd (bind_io m f w)) = open_pools w \<and> next_pool (snd (bind_io m f w)) = next_pool w"
    using run assms(2) by (cases r) (simp_all add: bind_io_def pools_kept_def)
qed

lemma pools_kept_try: "pools_kept m \<Longrightarrow> (\<And>e. pools_kept (h e)) \<Longrightarrow> (\<And>x. pools_kept (f x)) \<Longrightarrow> pools_kept (try_io m h f)"
  unfolding try_io_def by (rule pools_kept_bind) (auto split: sum.splits)

lemma pools_kept_for: "(\<And>x s. pools_kept (body x s)) \<Longrightarrow> pools_kept (for_io body xs s)"
  by (induction xs arbitrary: s) (simp_all del: ret_simp add: pools_kept_ret pools_kept_try)

lemma pools_kept_query_row: "pools_kept (query_row p q)"
  by (auto simp: pools_kept_def query_row_def round_trip_def Let_def split: list.splits)

lemma pools_kept_Ping: "pools_kept (Ping c)"
  unfolding Ping_def ping_def
  by (rule pools_kept_for)
    (auto intro!: pools_kept_try pools_kept_query_row pools_kept_ret simp del: ret_simp split: sum.splits)

lemma open_cmd_result:
  assumes "open_cmd u s = (Done r, s')" and "pools_fresh (pr_world s)" and "nShards u \<le> 2 ^ 63"
  shows "case r of
      Inl e \<Rightarrow> open_pools (pr_world s') = open_pools (pr_world s)
    | Inr (c, dir) \<Rightarrow> topo c = TopDirectory dir \<and> wf_cluster c \<and> Shards c = [0..nShards u - 1]
        \<and> checkPlacementFits (nShards u) (topoPath u) dir = None
        \<and> next_pool (pr_world s) \<le> next_pool (pr_world s')
        \<and> (\<exists>c'' w''. Close c (pr_world s') = (Done c'', w'') \<and> open_pools w'' = open_pools (pr_world s))"
proof -
  obtain r1 h1 where load: "LoadOrInitDirectory (topoPath u) 1024 (nShards u) (pr_host s) = (r1, h1)" by (metis surj_pair)
  let ?s1 = "s\<lparr>pr_host := h1\<rparr>" and ?dsns = "DSNsFromEnv (env u) (nShards u)"
  note run = assms(1) [unfolded open_cmd_def try_io_def bind_io_def on_host_def, simplified load prod.case]
  show ?thesis
  proof (cases "\<exists>dir. r1 = Done (Inr dir) \<and> checkPlacementFits (nShards u) (topoPath u) dir = None")
    case False
    then have "(\<exists>e. r = Inl e) \<and> s' = ?s1" using run by (auto split: outcome.splits sum.splits option.splits)
    then show ?thesis by auto
  next
    case True
    then obtain dir where dir: "r1 = Done (Inr dir)" "checkPlacementFits (nShards u) (topoPath u) dir = None" by blast
    obtain r2 w2 where op: "Open (parse_dsn u) (connect_dsn u) ?dsns (TopDirectory dir) (pr_world s) = (r2, w2)" by (metis surj_pair)
    note result = Open_result [OF assms(2) DSNs_distinct(1) [OF assms(3), of "env u"], of "parse_dsn u" "connect_dsn u" "TopDirectory dir",
        unfolded op prod.case]
    show ?thesis
    proof (cases "\<exists>c. r2 = Done (Inr c)")
      case False
      then obtain e where "r2 = Done (Inl e)" using result by (auto split: outcome.splits sum.splits)
      then have "r = Inl e \<and> pr_world s' = w2" using run dir op by (auto simp: on_world_def)
      then show ?thesis using result \<open>r2 = Done (Inl e)\<close> by auto
    next
      case True
      then obtain c where c: "r2 = Done (Inr c)" by blast
      then have state: "open_state (pr_world s) ?dsns c w2" "topo c = TopDirectory dir" using result by simp_all
      have wf: "wf_cluster c" by (rule open_state_wf [OF state(1) DSNs_distinct [OF assms(3)]])
      have "map fst ?dsns = [0..nShards u - 1]" by (simp add: DSNsFromEnv_def comp_def)
      then have "Shards c = sort [0..nShards u - 1]" using state(1) by (simp add: Shards_def open_state_def)
      then have shards: "Shards c = [0..nShards u - 1]" by (simp add: sorted_sort_id)
      obtain r3 w3 where pg: "Ping c w2 = (r3, w3)" by (metis surj_pair)
      have w3: "open_pools w3 = open_pools w2" "next_pool w3 = next_pool w2"
        using pools_kept_Ping [of c] pg unfolding pools_kept_def by (metis snd_conv)+
      then have grown: "next_pool (pr_world s) \<le> next_pool w3" using state(1) by (simp add: open_state_def)
      have closes: "\<exists>c'' w''. Close c w3 = (Done c'', w'') \<and> open_pools w'' = open_pools (pr_world s)"
        using Close_open_state [OF state(1) assms(2)] by (simp add: Close_def w3)
      show ?thesis
        using run dir op c pg closes grown wf shards state(2)
        by (auto simp: on_world_def try_io_def bind_io_def split: outcome.splits sum.splits prod.splits)
    qed
  qed
qed

section \<open>The fan-outs of the commands\<close>

context rely
begin

lemma guar_gather:
  assumes "\<And>s p. guar R (fn s p)"
  shows "guar R (gather z c fn sched)"
proof (induction sched)
  case (Cons a sched)
  obtain s took where a: "a = (s, took)" by (cases a)
  have "guar R (run_shard z c fn took s)"
    using assms unfolding run_shard_def
    by (cases "Pool c s") (auto intro!: guar_bind guar_ret simp del: ret_simp)
  then show ?case
    using Cons by (auto simp: a intro!: guar_bind guar_ret simp del: ret_simp)
qed (simp add: guar_ret del: ret_simp)

lemma guar_Scatter: "(\<And>s p. guar R (fn s p)) \<Longrightarrow> guar R (Scatter z sched c opts fn)"
  unfolding Scatter_def by (intro guar_bind guar_gather guar_ret)

lemma guar_PageRecent: "guar R (PageRecent sched c after limit)"
  unfolding PageRecent_def
  by (intro guar_bind guar_Scatter guar_page_fn)
    (auto intro!: guar_bind guar_ret guar_lift simp del: ret_simp split: option.splits)

end

lemma page_loop_walk:
  assumes "moves_in (=) (script w)" and "\<And>n. sched_ok c (scheds n)" and "Shards c \<noteq> []"
    and "page_loop c limit n scheds cur w = (Done (Inr ps), w')"
  shows "nodes w' = nodes w \<and> map snd ps = walk n (nat limit) (all_rows c (nodes w)) cur"
  using assms(1,4)
proof (induction n arbitrary: cur w ps)
  case (Suc n)
  obtain page nxt w1 where pg: "PageRecent (scheds n) c cur limit w = (Done (Inr (page, nxt)), w1)"
    using Suc.prems(2) by (auto simp: try_io_def bind_io_def split: prod.splits outcome.splits sum.splits)
  note exact = PageRecent_exact [OF Suc.prems(1) assms(2,3) pg]
  have moves: "moves_in (=) (script w1)"
    using read_only.guar_PageRecent Suc.prems(1) pg unfolding guar_def by (metis snd_conv)
  show ?case
  proof (cases "page = []")
    case True
    then have "ps = [(Encode cur, [])]" "w' = w1" using Suc.prems(2) pg by (simp_all add: try_io_def bind_io_def)
    then show ?thesis using exact True by (simp add: Let_def)
  next
    case False
    then obtain qs where rest: "page_loop c limit n scheds nxt w1 = (Done (Inr qs), w')" "ps = (Encode cur, page) # qs"
      using Suc.prems(2) pg by (auto simp: try_io_def bind_io_def split: prod.splits outcome.splits sum.splits)
    show ?thesis using Suc.IH [OF moves rest(1)] rest(2) exact False by (simp add: Let_def)
  qed
qed (simp add: ret_def)

lemma stats_fn_each:
  assumes "moves_in (=) (script w)" and "stats_fn relsize s p w = (Done (v, e), w')"
  shows "e = None \<longrightarrow> v = sql_stats relsize s \<lparr>tabs = tabs (nodes w (p_dsn p)), prepared = []\<rparr>"
proof (cases "script w")
  case (Cons ev es)
  have "ev_move ev (nodes w) = nodes w" using assms(1) Cons by simp
  then show ?thesis
    using assms(2) Cons
    by (auto simp: stats_fn_def bind_io_def query_row_def round_trip_def Let_def sql_stats_def split: if_splits)
qed (use assms in \<open>simp add: stats_fn_def bind_io_def query_row_def round_trip_def\<close>)

context rely
begin

lemma guar_stats_fn: "guar R (stats_fn relsize s p)"
  unfolding stats_fn_def
  by (intro guar_bind guar_query_row) (auto intro: guar_ret split: sum.splits)

end

lemma Stats_exact:
  assumes "moves_in (=) (script w)" and "sched_ok c sched" and "Stats sched relsize c w = (Done (Inr stats), w')"
  shows "nodes w' = nodes w
    \<and> stats = map (\<lambda>s. sql_stats relsize s \<lparr>tabs = tables_of c (nodes w) s, prepared = []\<rparr>) (Shards c)"
proof -
  let ?opts = "\<lparr>PerShardTimeout = 0, Concurrency = 0, AllowPartial = False\<rparr>"
  let ?Q = "\<lambda>s T v e. e = None \<longrightarrow> v = sql_stats relsize s \<lparr>tabs = T, prepared = []\<rparr>"
  obtain rs where scat: "Scatter (zero_stats 0) sched c ?opts (stats_fn relsize) w = (Done (rs, None), w')"
      and stats: "stats = map sr_Value rs"
    using assms(3) by (auto simp: Stats_def bind_io_def split: prod.splits outcome.splits option.splits)
  have "answers (stats_fn relsize) ?Q" using read_only.guar_stats_fn stats_fn_each unfolding answers_def by blast
  note each = Scatter_each [OF this assms(1) scat assms(2)]
  have "\<forall>r\<in>set rs. sr_Value r = sql_stats relsize (sr_Shard r) \<lparr>tabs = tables_of c (nodes w) (sr_Shard r), prepared = []\<rparr>"
    using each(3,4) by simp
  then have "map sr_Value rs = map (\<lambda>s. sql_stats relsize s \<lparr>tabs = tables_of c (nodes w) s, prepared = []\<rparr>) (Shards c)"
    by (rule values_of_results [OF each(2)])
  then show ?thesis using each(1) stats by simp
qed

text \<open>The totals of the loop: the sum, the least (\<open>-1\<close> before the first) and the greatest.\<close>

lemma stats_loop_result:
  assumes "\<forall>s\<in>set ss. 0 \<le> ss_Rows s"
  shows "stats_loop ss (t, mn, mx) =
    (t + sum_list (map ss_Rows ss),
     if mn < 0 then (if ss = [] then mn else Min (ss_Rows ` set ss)) else Min (insert mn (ss_Rows ` set ss)),
     Max (insert mx (ss_Rows ` set ss)))"
  using assms
proof (induction ss arbitrary: t mn mx)
  case (Cons s ss)
  have max: "(if ss_Rows s > mx then ss_Rows s else mx) = max mx (ss_Rows s)" by (simp add: max_def)
  have mx: "Max (insert (max mx (ss_Rows s)) (ss_Rows ` set ss)) = Max (insert mx (ss_Rows ` set (s # ss)))"
    by (cases "set ss = {}") (simp_all add: max.assoc)
  have mn: "Min (insert (min mn (ss_Rows s)) (ss_Rows ` set ss)) = Min (insert mn (ss_Rows ` set (s # ss)))"
    by (cases "set ss = {}") (simp_all add: min.assoc)
  show ?case
    using Cons mx mn by (auto simp: max min_def not_less)
qed simp

section \<open>Human-readable sizes\<close>

lemma human_loop_result:
  assumes "0 \<le> n"
  shows "\<exists>k. human_loop n dv ex = (dv * 1024 ^ k, ex + k) \<and> (k = 0 \<or> 1024 ^ k \<le> n) \<and> n < 1024 ^ (k + 1)"
  using assms
proof (induction n dv ex rule: human_loop.induct)
  case (1 n dv ex)
  show ?case
  proof (cases "n \<ge> 1024")
    case True
    have "0 \<le> n div 1024" using "1.prems" by (simp add: pos_imp_zdiv_nonneg_iff)
    then obtain k where k: "human_loop (n div 1024) (dv * 1024) (ex + 1) = (dv * 1024 * 1024 ^ k, ex + 1 + k)"
        "k = 0 \<or> 1024 ^ k \<le> n div 1024" "n div 1024 < 1024 ^ (k + 1)"
      using "1.IH" [OF True] by auto
    have "1024 ^ (k + 1) \<le> n"
    proof (cases "k = 0")
      case False
      then have "1024 ^ k * 1024 \<le> n" using k(2) by simp
      then show ?thesis by simp
    qed (use True in simp)
    moreover have "n < 1024 ^ (k + 1 + 1)" using k(3) by simp
    ultimately show ?thesis
      using True k(1) by (subst human_loop.simps) (auto intro!: exI [of _ "k + 1"] simp: mult.assoc)
  next
    case False
    then show ?thesis by (subst human_loop.simps) (auto intro: exI [of _ 0])
  qed
qed

section \<open>The split\<close>

lemma dirTo_routes:
  assumes "0 < n" and "n \<le> 1024" and "NewDirectory 1024 n = Inr d"
  shows "wf_dir d" and "wf_dir (dirTo n d)"
    and "\<exists>s. Directory_RouteRead d t = Inr s \<and> 0 \<le> s \<and> s < n
      \<and> Directory_RouteRead (dirTo n d) t
        = Inr (if logical_of d t mod (1024 div n) \<ge> 1024 div n div 2 then s + n else s)"
proof -
  let ?per = "1024 div n"
  have d: "d = \<lparr>LogicalCount = 1024, Placement = map (range_of ?per n) [0..1023], Migrating = Some [], Pins = Some []\<rparr>"
    using NewDirectory_placement [OF assms(1,2)] assms(3) by simp
  show wf: "wf_dir d" "wf_dir (dirTo n d)" by (simp_all add: d wf_dir_def dirTo_def)
  have no_pins: "gomap_of (Pins d) = []" "gomap_of (Pins (dirTo n d)) = []" by (simp_all add: d dirTo_def)
  have log: "logical_of (dirTo n d) t = logical_of d t" by (simp add: logical_of_def dirTo_def)
  note range = logical_of_range [OF wf(1), of t]
  let ?l = "nat (logical_of d t)"
  have l: "?l < length (Placement d)" by (rule nat_logical_of [OF wf(1)])
  have nth: "map g [0..1023] ! nat L = g L" if "0 \<le> L" "L < 1024" for g :: "int \<Rightarrow> int" and L
    using that by (subst nth_map) (auto simp: nth_upto)
  have "Placement d = map (range_of ?per n) [0..1023]" "logical_of d t < 1024" using range by (simp_all add: d)
  then have at: "Placement d ! ?l = range_of ?per n (logical_of d t)" using nth range by simp
  have "0 \<le> range_of ?per n (logical_of d t)" "range_of ?per n (logical_of d t) < n"
    using range assms(1,2) by (auto simp: range_of_def pos_imp_zdiv_nonneg_iff pos_imp_zdiv_pos_iff)
  moreover have "Directory_RouteRead d t = Inr (range_of ?per n (logical_of d t))"
    using at by (simp add: RouteRead_wf [OF wf(1)] no_pins)
  moreover have "Placement (dirTo n d) ! ?l = half_up n ?l (Placement d ! ?l)"
    using l by (simp add: dirTo_def nth_enumerate_eq)
  then have "Directory_RouteRead (dirTo n d) t = Inr (half_up n ?l (range_of ?per n (logical_of d t)))"
    by (simp add: RouteRead_wf [OF wf(2)] log at no_pins)
  ultimately show "\<exists>s. Directory_RouteRead d t = Inr s \<and> 0 \<le> s \<and> s < n
      \<and> Directory_RouteRead (dirTo n d) t
        = Inr (if logical_of d t mod (1024 div n) \<ge> 1024 div n div 2 then s + n else s)"
    using range by (auto simp: half_up_def Let_def)
qed

section \<open>Properties\<close>

text \<open>The placement check is exact: it passes when, and only when, every shard number that the
  map can route to, window targets and pins included, is below the number of shards the
  process opens (which must not be negative); otherwise its message names the highest.\<close>

theorem placement_check_exact:
  "case checkPlacementFits n path dir of
      None \<Rightarrow> 0 \<le> n \<and> list_all (\<lambda>p. p < n) (route_targets dir)
    | Some e \<Rightarrow> \<exists>kind. e = EWrap (path @ '' routes via '' @ kind) (EShardRange (fold max (route_targets dir) (-1)))
        \<and> n \<le> fold max (route_targets dir) (-1)"
proof (cases "checkPlacementFits n path dir")
  case None
  then show ?thesis using checkPlacementFits_None [of n path dir] by (simp add: list_all_iff)
next
  case (Some e)
  then show ?thesis
    by (auto simp: checkPlacementFits_def highest_route_max [symmetric] split: prod.splits if_splits)
qed

text \<open>C13: A fan-out covers the cluster.  When \<open>open\<close> returns a cluster, it has one pool for each of the
  shards \<open>0\<close> to \<open>nShards - 1\<close>, each on a node of its own, and every shard that any tenant's
  reads or writes are routed to has one (negative placements excepted); closing it leaves no
  pool behind.  When \<open>open\<close> returns an error it has left no pool open.\<close>

theorem open_covers_every_route:
  assumes "pools_fresh (pr_world s)" and "nShards u \<le> 2 ^ 63" and "open_cmd u s = (Done r, s')"
  shows "case r of
      Inl e \<Rightarrow> open_pools (pr_world s') = open_pools (pr_world s)
    | Inr (c, dir) \<Rightarrow> topo c = TopDirectory dir \<and> wf_cluster c \<and> Shards c = [0..nShards u - 1]
        \<and> (\<forall>t ws q. RouteWrite (topo c) t = Inr ws \<longrightarrow> q \<in> set ws \<longrightarrow> 0 \<le> q \<longrightarrow> (\<exists>p. Pool c q = Inr p))
        \<and> (\<exists>c'' w''. Close c (pr_world s') = (Done c'', w'') \<and> open_pools w'' = open_pools (pr_world s))"
proof -
  note result = open_cmd_result [OF assms(3,1,2)]
  show ?thesis
  proof (cases r)
    case (Inr cd)
    obtain c dir where cd: "cd = (c, dir)" by (cases cd)
    have fits: "\<forall>p\<in>set (route_targets dir). p < nShards u" and shards: "Shards c = [0..nShards u - 1]" "topo c = TopDirectory dir"
      using result Inr cd by (simp_all add: checkPlacementFits_None)
    have "\<exists>p. Pool c q = Inr p" if "RouteWrite (topo c) t = Inr ws" "q \<in> set ws" "0 \<le> q" for t ws q
    proof -
      have "q < nShards u" using fits RouteWrite_targets [of dir t ws q] that shards(2) by simp
      then have "q \<in> set (Shards c)" using that(3) unfolding shards(1) by simp
      then show ?thesis by (rule Pool_Shards)
    qed
    then show ?thesis using result Inr cd by (simp del: set_Shards)
  qed (use result in simp)
qed

text \<open>C10: Walking the pages of \<open>shardctl page\<close> reads the feed: with no writes meanwhile, distinct
  positions and a positive limit, the pages put together are the first \<open>pages * limit\<close> rows of
  all shards, newest first: no row is skipped, none is shown twice.\<close>

theorem pages_walk_the_feed:
  assumes "moves_in (=) (script w)" and "\<forall>n. sched_ok c (scheds n)" and "Shards c \<noteq> []" and "0 < limit"
    and "distinct (map feed_key (all_rows c (nodes w)))" and "\<forall>r\<in>set (all_rows c (nodes w)). \<not> IsZero (o_CreatedAt r)"
    and "page_loop c limit n scheds zero_cursor w = (Done (Inr ps), w')"
  shows "nodes w' = nodes w
    \<and> concat (map snd ps) = take (n * nat limit) (sort_feed (all_rows c (nodes w)))"
proof -
  have "map snd ps = walk n (nat limit) (all_rows c (nodes w)) zero_cursor" "nodes w' = nodes w"
    using page_loop_walk [OF assms(1) _ assms(3,7)] assms(2) by simp_all
  moreover have "0 < nat limit" using assms(4) by simp
  from walk_from_prefix [OF assms(5,6) this, of 0 zero_cursor n]
  have "concat (walk n (nat limit) (all_rows c (nodes w)) zero_cursor) = take (n * nat limit) (sort_feed (all_rows c (nodes w)))"
    by simp
  ultimately show ?thesis by simp
qed

text \<open>\<open>bytesHuman\<close> never panics on an \<open>int64\<close>: it prints the number, or a quotient whose divisor is
  the power of 1024 that fits, so the quotient is at least 1 and below 1024, the unit's index
  is below 6 and the divisor never overflows.\<close>

theorem bytes_human_in_range:
  assumes "b < 2 ^ 63"
  shows "\<exists>h. bytesHuman b = Inr h \<and> (case h of
      Bytes n \<Rightarrow> n = b \<and> b < 1024
    | Scaled n dv ex \<Rightarrow> n = b \<and> ex \<le> 5 \<and> dv = 1024 ^ (ex + 1) \<and> dv < 2 ^ 63 \<and> dv \<le> b \<and> b < dv * 1024)"
proof (cases "b < 1024")
  case False
  obtain k where k: "human_loop (b div 1024) 1024 0 = (1024 * 1024 ^ k, 0 + k)"
      "k = 0 \<or> 1024 ^ k \<le> b div 1024" "b div 1024 < 1024 ^ (k + 1)"
    using human_loop_result [of "b div 1024" 1024 0] False by (auto simp: pos_imp_zdiv_nonneg_iff)
  have low: "1024 ^ (k + 1) \<le> b"
  proof (cases "k = 0")
    case nz: False
    then have "1024 ^ k * 1024 \<le> b" using k(2) by simp
    then show ?thesis by simp
  qed (use False in simp)
  have high: "b < 1024 ^ (k + 1) * 1024" using k(3) by simp
  have "(1024 :: int) ^ (k + 1) < 2 ^ 63" using low assms by linarith
  moreover have "(1024 :: int) ^ (k + 1) = 2 ^ (10 * (k + 1))" unfolding power_mult by simp
  ultimately have "(2 :: int) ^ (10 * (k + 1)) < 2 ^ 63" by (simp only:)
  then have "10 * (k + 1) < 63" by (rule power_less_imp_less_exp [rotated]) simp
  then have small: "k \<le> 5" by simp
  show ?thesis
    using False k(1) low high small \<open>(1024 :: int) ^ (k + 1) < 2 ^ 63\<close> by (simp add: bytesHuman_def)
qed (simp add: bytesHuman_def)

text \<open>The split that \<open>shardctl topology\<close> compares moves the second half of each range: of the
  tenants of a shard those whose logical shard is in the second half of its range go to the
  new shard \<open>from\<close> places higher, all others stay, and no tenant moves between old shards.\<close>

theorem split_moves_second_halves:
  assumes "0 < n" and "n \<le> 1024" and "NewDirectory 1024 n = Inr d"
  shows "\<forall>t. \<exists>s. Directory_RouteRead d t = Inr s \<and> 0 \<le> s \<and> s < n
    \<and> Directory_RouteRead (dirTo n d) t
      = Inr (if logical_of d t mod (1024 div n) \<ge> 1024 div n div 2 then s + n else s)"
  using dirTo_routes(3) [OF assms] by blast

text \<open>The report of \<open>shardctl stats\<close> is exact: its total is the number of rows of the whole cluster,
  and it shows an imbalance when no shard is empty, the largest number of rows against the
  smallest.\<close>

theorem stats_report_exact:
  assumes "moves_in (=) (script w)" and "sched_ok c sched" and "Shards c \<noteq> []"
    and "stats_body sched relsize c w = (Done (Inr rep), w')"
    and "rows = map (\<lambda>s. int (length (orders (tables_of c (nodes w) s)))) (Shards c)"
  shows "st_total rep = sum_list rows
    \<and> st_imbalance rep = (if 0 < Min (set rows) then Some (Max (set rows), Min (set rows)) else None)"
proof -
  obtain stats w1 where st: "Stats sched relsize c w = (Done (Inr stats), w1)"
    using assms(4) by (auto simp: stats_body_def try_io_def bind_io_def split: prod.splits outcome.splits sum.splits)
  have "stats = map (\<lambda>s. sql_stats relsize s \<lparr>tabs = tables_of c (nodes w) s, prepared = []\<rparr>) (Shards c)"
    using Stats_exact [OF assms(1,2) st] by simp
  then have rows: "map ss_Rows stats = rows" by (simp add: assms(5) sql_stats_def comp_def)
  have nonneg: "\<forall>s\<in>set stats. 0 \<le> ss_Rows s"
  proof -
    have "\<forall>n\<in>set rows. 0 \<le> n" by (auto simp: assms(5))
    then show ?thesis unfolding rows [symmetric] by simp
  qed
  have set: "ss_Rows ` set stats = set rows" unfolding rows [symmetric] by simp
  have ne: "rows \<noteq> []" "stats \<noteq> []" using assms(3,5) rows by auto
  have "stats_loop stats (0, -1, 0) = (sum_list rows, Min (set rows), Max (insert 0 (set rows)))"
    using stats_loop_result [OF nonneg, of 0 "-1" 0] ne by (simp add: rows set)
  moreover have "Max (insert 0 (set rows)) = Max (set rows)" if "0 < Min (set rows)"
  proof -
    have "hd rows \<in> set rows" using ne by simp
    then have "0 < hd rows" "hd rows \<le> Max (set rows)" using that ne by (simp_all add: Min_gr_iff)
    then have "0 \<le> Max (set rows)" by simp
    then show ?thesis using ne by (simp add: max_def)
  qed
  ultimately show ?thesis
    using assms(4) st
    by (auto simp: stats_body_def try_io_def bind_io_def lift_go_def split: sum.splits)
qed

text \<open>The verdict of \<open>shardctl audit\<close>: where no result stream breaks off, its total is the number of
  rows that the topology routes to another shard than the one they are on, and it prints
  \<open>clean\<close> when, and only when, there is none.\<close>

theorem audit_verdict:
  assumes "moves_in (=) (script w)" and "wf_cluster c" and "unbroken (script w)"
    and "audit_body c w = (Done (Inr (ls, tot)), w')"
  shows "ls = map (\<lambda>s. (s, misplaced_rows c (nodes w) s)) (Shards c)
    \<and> tot = (\<Sum>s\<leftarrow>Shards c. misplaced_rows c (nodes w) s)
    \<and> (tot = 0 \<longleftrightarrow> list_all (\<lambda>s. misplaced_rows c (nodes w) s = 0) (Shards c))"
proof -
  obtain m where m: "Misplaced c w = (Done (Inr m), w')"
    using assms(4) by (auto simp: audit_body_def try_io_def bind_io_def Let_def split: prod.splits outcome.splits sum.splits)
  have loop: "for_io (audit_shard c) (Shards c) [] w = (Done (Inr m), w')" using m by (simp add: Misplaced_def)
  note exact = audit_loop_exact [OF assms(1) loop distinct_Shards [OF assms(2)] go_map_ok_Nil]
  have "set (sort (map fst m)) = set (Shards c)" using exact by simp
  moreover have "distinct (sort (map fst m))" using exact by (simp add: go_map_ok_def)
  ultimately have keys: "sort (map fst m) = Shards c"
    by (intro sorted_distinct_set_unique sorted_sort sorted_Shards distinct_Shards [OF assms(2)]) simp_all
  have count: "go_count m s = misplaced_rows c (nodes w) s" if "s \<in> set (Shards c)" for s
    using exact assms(3) that by (simp del: set_Shards)
  have fold: "fold (\<lambda>k t. t + f k) ks (a :: int) = a + sum_list (map f ks)" for f and ks :: "int list" and a
    by (induction ks arbitrary: a) simp_all
  have lines: "ls = map (\<lambda>k. (k, go_count m k)) (Shards c)" "tot = sum_list (map (go_count m) (Shards c))"
    using assms(4) m by (simp_all add: audit_body_def try_io_def bind_io_def Let_def keys fold)
  have same: "map (go_count m) (Shards c) = map (misplaced_rows c (nodes w)) (Shards c)" using count by (intro map_cong) (simp_all del: set_Shards)
  have zero: "sum_list (map (misplaced_rows c (nodes w)) ss) = 0 \<longleftrightarrow> list_all (\<lambda>s. misplaced_rows c (nodes w) s = 0) ss" for ss
    by (subst sum_list_nonneg_eq_0_iff) (auto simp: misplaced_rows_def list_all_iff)
  have "ls = map (\<lambda>s. (s, misplaced_rows c (nodes w) s)) (Shards c)" using lines(1) count by (simp del: set_Shards)
  then show ?thesis unfolding lines(2) same zero by simp
qed

section \<open>Examples\<close>

definition demo_config :: config where
  "demo_config = \<lparr>env = (\<lambda>k. if k = ''SHARDS'' then ''2'' else []), parse_dsn = (\<lambda>s. None), connect_dsn = (\<lambda>s. None)\<rparr>"

definition demo_process :: process where
  "demo_process = \<lparr>pr_host = \<lparr>files = (\<lambda>p. Some (Doc (MarshalDirectory saved_dir))), os_script = [OsOk]\<rparr>,
     pr_world = demo_world [] [calm 1, calm 2]\<rparr>"

lemma demo_nShards: "nShards demo_config = 2"
proof -
  have "ParseInt ''2'' = Inr 2"
    by (simp add: ParseInt_def ParseUint_def Let_def digit_val_def uint_cutoff_def max_uint64_def)
  then show ?thesis by (simp add: nShards_def envInt_def demo_config_def)
qed

text \<open>The saved placement has an open window to shard 3, and \<open>SHARDS\<close> is 2.\<close>

lemma demo_unfit:
  "\<exists>dir h. LoadOrInitDirectory (topoPath demo_config) 1024 (nShards demo_config) (pr_host demo_process) = (Done (Inr dir), h)
    \<and> 3 \<in> set (route_targets dir)"
proof -
  obtain d where d: "UnmarshalDirectory (MarshalDirectory saved_dir) = Inr d" "dir_equiv saved_dir d"
    using Unmarshal_Marshal [OF saved_dir_fits] by blast
  have "map_of (gomap_of (Migrating d)) 0 = Some 3" using d(2) by (simp add: dir_equiv_def saved_dir_def)
  then have "3 \<in> set (route_targets (fill_nil d))" by (force simp: route_targets_def fill_nil_def dest!: map_of_SomeD)
  moreover have "LoadDirectory (topoPath demo_config) (pr_host demo_process) = (Done (Inr (fill_nil d)), (pr_host demo_process)\<lparr>os_script := []\<rparr>)"
    by (rule LoadDirectory_calm [OF _ _ d(1)]) (simp_all add: demo_process_def)
  ultimately show ?thesis by (simp add: LoadOrInitDirectory_def try_io_def bind_io_def)
qed

lemma open_covers_every_route_witness:
  "\<exists>e s'. open_cmd demo_config demo_process = (Done (Inl e), s') \<and> open_pools (pr_world s') = [0, 1]"
proof -
  obtain dir h where load: "LoadOrInitDirectory (topoPath demo_config) 1024 (nShards demo_config) (pr_host demo_process) = (Done (Inr dir), h)"
      "3 \<in> set (route_targets dir)"
    using demo_unfit by blast
  then obtain e where "checkPlacementFits (nShards demo_config) (topoPath demo_config) dir = Some e"
    using checkPlacementFits_None [of "nShards demo_config" "topoPath demo_config" dir] by (force simp: demo_nShards)
  then obtain s' where run: "open_cmd demo_config demo_process = (Done (Inl e), s')"
    using load(1) by (simp add: open_cmd_def on_host_def try_io_def bind_io_def)
  have "pools_fresh (pr_world demo_process)" by (simp add: demo_process_def demo_world_def pools_fresh_def)
  from open_covers_every_route [OF this _ run] run show ?thesis
    by (simp add: demo_nShards) (simp add: demo_process_def demo_world_def)
qed

lemma pages_walk_the_feed_witness:
  "let row = mk_order 3 5 0 77 100 ''new'' in
   \<exists>ps w'. page_loop demo_cluster 2 1 (\<lambda>n. [(1, 4), (0, 9)]) zero_cursor (demo_world [row] [calm 1, calm 2]) = (Done (Inr ps), w')
     \<and> concat (map snd ps) = take 2 (sort_feed (all_rows demo_cluster (nodes (demo_world [row] []))))"
proof -
  let ?row = "mk_order 3 5 0 77 100 ''new''" and ?sched = "[(1, 4), (0, 9)] :: (int \<times> int) list"
  let ?w = "demo_world [?row] [calm 1, calm 2]"
  have row: "o_Shard_update (\<lambda>_. 0) ?row = ?row" by (simp add: mk_order_def)
  obtain nxt w' where pg: "PageRecent ?sched demo_cluster zero_cursor 2 ?w = (Done (Inr ([?row], nxt)), w')"
    by (simp add: PageRecent_def Scatter_def gather.simps run_shard_def page_fn_def query_rows_def query_rows_at_def bind_io_def
        demo_world_def Let_def sql_feed_def sql_page_def sql_firstPage_def zero_cursor_def IsZero_def sort_feed_def
        finish_def join_errors_def lift_go_def MergeDesc_nonneg empty_tables_def row)
  then have run: "page_loop demo_cluster 2 1 (\<lambda>n. ?sched) zero_cursor ?w = (Done (Inr [(Encode zero_cursor, [?row])]), w')"
    by (simp add: try_io_def bind_io_def)
  have rows: "all_rows demo_cluster (nodes ?w) = [?row]"
    by (simp add: all_rows_def shard_rows_def tables_of_def demo_world_def empty_tables_def row)
  have "moves_in (=) (script ?w)" "\<forall>n. sched_ok demo_cluster ((\<lambda>n. ?sched) n)" "Shards demo_cluster \<noteq> []"
    by (simp_all add: demo_world_def sched_ok_def)
  moreover have "distinct (map feed_key (all_rows demo_cluster (nodes ?w)))"
    "\<forall>r\<in>set (all_rows demo_cluster (nodes ?w)). \<not> IsZero (o_CreatedAt r)"
    unfolding rows by (simp_all add: mk_order_def IsZero_def zero_time_def)
  ultimately show ?thesis
    using pages_walk_the_feed [OF _ _ _ _ _ _ run] run by (simp add: Let_def) (simp add: demo_world_def)
qed

lemma bytes_human_in_range_witness:
  "\<exists>h. bytesHuman 5000000 = Inr h \<and> h = Scaled 5000000 1048576 1"
proof -
  have "bytesHuman 5000000 = Inr (Scaled 5000000 1048576 1)" by code_simp
  moreover have "(5000000 :: int) < 2 ^ 63" by simp
  from bytes_human_in_range [OF this] obtain h where "bytesHuman 5000000 = Inr h" by blast
  ultimately show ?thesis by simp
qed

lemma split_moves_second_halves_witness:
  "\<exists>d. NewDirectory 1024 4 = Inr d \<and> (\<exists>s. Directory_RouteRead d 7 = Inr s \<and> 0 \<le> s \<and> s < 4
    \<and> Directory_RouteRead (dirTo 4 d) 7 = Inr (if logical_of d 7 mod 256 \<ge> 128 then s + 4 else s))"
proof -
  obtain d where d: "NewDirectory 1024 4 = Inr d" using NewDirectory_placement [of 4 1024] by auto
  from split_moves_second_halves [OF _ _ d] d show ?thesis by auto
qed

lemma stats_report_exact_witness:
  "\<exists>rep w'. stats_body [(1, 4), (0, 9)] (\<lambda>T. 8192) demo_cluster (demo_world [mk_order 3 5 0 77 100 ''new''] [calm 1, calm 2])
      = (Done (Inr rep), w') \<and> st_total rep = 1 \<and> st_imbalance rep = None"
proof -
  let ?w = "demo_world [mk_order 3 5 0 77 100 ''new''] [calm 1, calm 2]" and ?sched = "[(1, 4), (0, 9)] :: (int \<times> int) list"
  have human: "bytesHuman 8192 = Inr (Scaled 8192 1024 0)" by code_simp
  obtain rep w' where run: "stats_body ?sched (\<lambda>T. 8192) demo_cluster ?w = (Done (Inr rep), w')"
    by (simp add: stats_body_def try_io_def Stats_def Scatter_def gather.simps run_shard_def stats_fn_def query_row_def
        round_trip_def bind_io_def demo_world_def Let_def finish_def join_errors_def sql_stats_def lift_go_def empty_tables_def human)
  have "moves_in (=) (script ?w)" "sched_ok demo_cluster ?sched" "Shards demo_cluster \<noteq> []"
    by (simp_all add: demo_world_def sched_ok_def)
  from stats_report_exact [OF this run refl] run show ?thesis
    by (simp add: tables_of_def demo_world_def empty_tables_def)
qed

lemma audit_verdict_witness:
  "\<exists>w'. audit_body demo_cluster (demo_world [mk_order 3 5 0 77 100 ''new''] [calm 1, calm 2])
      = (Done (Inr ([(0, 0), (1, 0)], 0)), w')
    \<and> list_all (\<lambda>s. misplaced_rows demo_cluster (nodes (demo_world [mk_order 3 5 0 77 100 ''new''] [])) s = 0) [0, 1]"
proof -
  let ?w = "demo_world [mk_order 3 5 0 77 100 ''new''] [calm 1, calm 2]"
  obtain w' where run: "audit_body demo_cluster ?w = (Done (Inr ([(0, 0), (1, 0)], 0)), w')"
    by (simp add: audit_body_def Misplaced_def audit_shard_def try_io_def query_rows_def query_rows_at_def bind_io_def demo_world_def Let_def
        sql_tenants_def empty_tables_def mk_order_def go_count_def)
  have "moves_in (=) (script ?w)" "unbroken (script ?w)" by (simp_all add: demo_world_def unbroken_def)
  from audit_verdict [OF this(1) _ this(2) run] run show ?thesis by (simp add: demo_world_def)
qed

end
