(* ===== verification/Seed.thy ===== *)
theory Seed
  imports Shardctl
begin

text \<open>
  Seeding: \<open>Seed\<close> of \<open>src/internal/shard/orders.go\<close> and \<open>cmdSeed\<close> of
  \<open>src/cmd/shardctl/main.go\<close>.  Rows are made in memory, in one bucket per shard, and each
  bucket is copied to its shard in one statement.
\<close>

section \<open>Making the rows\<close>

text \<open>
  What the run finds in its environment: \<open>draw k n\<close> is the number below \<open>n\<close> that the
  generator, seeded by the caller, gives at its \<open>k\<close>-th draw; the clock readings of the id
  generators; the time of the call; what a \<open>timestamptz\<close> column keeps of a time; and the order
  in which \<open>range\<close> visits the buckets.
\<close>

record seed_env =
  draw :: "nat \<Rightarrow> int \<Rightarrow> int"
  readings :: "i64 list"
  called :: time
  stamp :: "time \<Rightarrow> time"
  visit :: "(int, order list) gomap \<Rightarrow> (int, order list) gomap"

record seeding =
  sd_gens :: "(int, idgen) gomap"
  sd_clock :: "i64 list"
  sd_draws :: nat
  sd_buckets :: "(int, order list) gomap"

definition states :: "string list" where
  "states = [''new'', ''paid'', ''shipped'', ''refunded'']"

fun seed_gens :: "int list \<Rightarrow> (int, idgen) gomap \<Rightarrow> gerr + (int, idgen) gomap" where
  "seed_gens [] gens = Inr gens"
| "seed_gens (s # ss) gens =
     (case NewIDGen s of Inl e \<Rightarrow> Inl (EShardRange s) | Inr g \<Rightarrow> seed_gens ss (AList.update s g gens))"

text \<open>
  \<open>gens[target].Next()\<close>: there is no generator for a shard with no pool.  A generator whose
  clock stands still waits for as long as the process lives.
\<close>

definition next_id :: "int \<Rightarrow> (seeding, i64) prog" where
  "next_id target = (\<lambda>s. case map_of (sd_gens s) target of
     None \<Rightarrow> (Panicked NilDereference, s)
   | Some g \<Rightarrow>
       (case Next g (sd_clock s) of
          None \<Rightarrow> (Killed, s)
        | Some (k, g', clock) \<Rightarrow> (Done k, s\<lparr>sd_gens := AList.update target g' (sd_gens s), sd_clock := clock\<rparr>)))"

definition draw_below :: "seed_env \<Rightarrow> int \<Rightarrow> (seeding, int) prog" where
  "draw_below en n = (\<lambda>s. (Done (draw en (sd_draws s) n), s\<lparr>sd_draws := sd_draws s + 1\<rparr>))"

definition bucket :: "seeding \<Rightarrow> int \<Rightarrow> order list" where
  "bucket s target = (case map_of (sd_buckets s) target of None \<Rightarrow> [] | Some rows \<Rightarrow> rows)"

definition push_row :: "int \<Rightarrow> order \<Rightarrow> (seeding, unit) prog" where
  "push_row target r = (\<lambda>s. (Done (), s\<lparr>sd_buckets := AList.update target (bucket s target @ [r]) (sd_buckets s)\<rparr>))"

definition seed_row :: "seed_env \<Rightarrow> topology \<Rightarrow> u64 \<Rightarrow> int \<Rightarrow> (seeding, unit) prog" where
  "seed_row en tp tenant target =
     bind_io (next_id target) (\<lambda>k.
     bind_io (lift_go (logicalOf tp tenant)) (\<lambda>logical.
     bind_io (draw_below en (90 * 24 * 3600 * 10 ^ 9)) (\<lambda>age.
     bind_io (draw_below en 20000) (\<lambda>cents.
     bind_io (draw_below en 4) (\<lambda>i.
     bind_io (lift_go (go_index states i)) (\<lambda>state.
       push_row target (mk_order (sint k) tenant logical (stamp en (called en - age)) cents state)))))))"

fun repeat_io :: "nat \<Rightarrow> ('w, unit) prog \<Rightarrow> ('w, unit) prog" where
  "repeat_io 0 m = ret ()"
| "repeat_io (Suc n) m = bind_io m (\<lambda>_. repeat_io n m)"

definition seed_size :: "int \<Rightarrow> int \<Rightarrow> int" where
  "seed_size per t = (if t \<le> 2 then sint (word_of_int (per * 20) :: i64) else per)"

definition seed_tenant :: "seed_env \<Rightarrow> topology \<Rightarrow> int \<Rightarrow> int \<Rightarrow> (seeding, unit) prog" where
  "seed_tenant en tp per t =
     bind_io (lift_go (RouteRead tp (word_of_int t))) (\<lambda>target.
       repeat_io (nat (seed_size per t)) (seed_row en tp (word_of_int t) target))"

fun seed_tenants :: "seed_env \<Rightarrow> topology \<Rightarrow> int \<Rightarrow> int list \<Rightarrow> (seeding, unit) prog" where
  "seed_tenants en tp per [] = ret ()"
| "seed_tenants en tp per (t # ts) = bind_io (seed_tenant en tp per t) (\<lambda>_. seed_tenants en tp per ts)"

section \<open>Copying them\<close>

text \<open>\<open>COPY\<close> is one statement: a repeated id refuses all its rows.\<close>

definition sql_copy :: "order list \<Rightarrow> time \<Rightarrow> node \<Rightarrow> sql_error + int \<times> node" where
  "sql_copy rows now n =
     (if distinct (map o_ID (orders (tabs n) @ rows))
      then Inr (int (length rows), n\<lparr>tabs := (tabs n)\<lparr>orders := orders (tabs n) @ rows\<rparr>\<rparr>)
      else Inl UniqueViolation)"

definition copy_bucket :: "cluster \<Rightarrow> int \<times> order list \<Rightarrow> int \<Rightarrow> (int \<times> gerr + int) io" where
  "copy_bucket c = (\<lambda>(s, rows) total'.
     case Pool c s of
       Inl e \<Rightarrow> ret (Inl (total', e))
     | Inr p \<Rightarrow> try_io (round_trip p (sql_copy rows))
         (\<lambda>e. ret (Inl (total', EAt ''copy into shard'' s e))) (\<lambda>n. ret (Inr (total' + n))))"

text \<open>A computation on the run's own memory.\<close>

definition on_memory :: "('s, 'a) prog \<Rightarrow> 's \<Rightarrow> 's io" where
  "on_memory m s = (\<lambda>w. case m s of
     (Done x, s') \<Rightarrow> (Done s', w) | (Panicked q, s') \<Rightarrow> (Panicked q, w) | (Killed, s') \<Rightarrow> (Killed, w))"

definition Seed :: "seed_env \<Rightarrow> cluster \<Rightarrow> int \<Rightarrow> int \<Rightarrow> (int \<times> gerr option) io" where
  "Seed en c tenants per =
     (case seed_gens (Shards c) [] of
        Inl e \<Rightarrow> ret (0, Some e)
      | Inr gens \<Rightarrow>
          bind_io (on_memory (seed_tenants en (topo c) per [1..tenants])
              \<lparr>sd_gens = gens, sd_clock = readings en, sd_draws = 0, sd_buckets = []\<rparr>) (\<lambda>s.
            try_io (for_io (copy_bucket c) (visit en (sd_buckets s)) 0)
              (\<lambda>(n, e). ret (n, Some e)) (\<lambda>n. ret (n, None))))"

section \<open>shardctl seed\<close>

definition sql_seed_ledger :: "time \<Rightarrow> node \<Rightarrow> sql_error + unit \<times> node" where
  "sql_seed_ledger now n = Inr ((), n\<lparr>tabs := (tabs n)\<lparr>ledger :=
     fold (\<lambda>t l. AList.update t 1000000 l) (remdups (map o_TenantID (orders (tabs n)))) (ledger (tabs n))\<rparr>\<rparr>)"

definition seed_ledger_on :: "cluster \<Rightarrow> int \<Rightarrow> unit \<Rightarrow> (gerr + unit) io" where
  "seed_ledger_on c s _ =
     (case Pool c s of
        Inl e \<Rightarrow> ret (Inl e)
      | Inr p \<Rightarrow> try_io (round_trip p sql_seed_ledger) (\<lambda>e. ret (Inl e)) (\<lambda>_. ret (Inr ())))"

definition seed_body :: "seed_env \<Rightarrow> int \<Rightarrow> int \<Rightarrow> cluster \<Rightarrow> (gerr + int) io" where
  "seed_body en tenants per c =
     bind_io (Seed en c tenants per) (\<lambda>(n, err).
       case err of
         Some e \<Rightarrow> ret (Inl e)
       | None \<Rightarrow> try_io (for_io (seed_ledger_on c) (Shards c) ()) (\<lambda>e. ret (Inl e)) (\<lambda>_. ret (Inr n)))"

definition cmdSeed :: "config \<Rightarrow> seed_env \<Rightarrow> int \<Rightarrow> int \<Rightarrow> (gerr + int) command" where
  "cmdSeed u en tenants per = with_cluster u (\<lambda>(c, dir). seed_body en tenants per c)"

section \<open>The buckets\<close>

definition tenant_count :: "u64 \<Rightarrow> order list \<Rightarrow> nat" where
  "tenant_count t rows = length (filter (\<lambda>r. o_TenantID r = t) rows)"

lemma tenant_count_append [simp]: "tenant_count t (xs @ ys) = tenant_count t xs + tenant_count t ys"
  by (simp add: tenant_count_def)

text \<open>What a step makes: every row in the bucket of its tenant's shard.\<close>

definition filled :: "seeding \<Rightarrow> seeding \<Rightarrow> (int \<Rightarrow> u64 \<Rightarrow> nat) \<Rightarrow> nat \<Rightarrow> bool" where
  "filled s s' new n \<longleftrightarrow> (go_map_ok (sd_buckets s) \<longrightarrow> go_map_ok (sd_buckets s'))
     \<and> (\<forall>k t. tenant_count t (bucket s' k) = tenant_count t (bucket s k) + new k t)
     \<and> (go_map_ok (sd_buckets s) \<longrightarrow>
         sum_list (map (length \<circ> snd) (sd_buckets s')) = sum_list (map (length \<circ> snd) (sd_buckets s)) + n)"

lemma filled_none: "filled s s (\<lambda>k t. 0) 0"
  by (simp add: filled_def)

lemma filled_trans:
  "filled s s1 new1 n1 \<Longrightarrow> filled s1 s2 new2 n2 \<Longrightarrow> filled s s2 (\<lambda>k t. new1 k t + new2 k t) (n1 + n2)"
  by (auto simp: filled_def)

lemma update_length:
  assumes "go_map_ok m"
  shows "sum_list (map (length \<circ> snd) (AList.update k v m)) + (case map_of m k of None \<Rightarrow> 0 | Some u \<Rightarrow> length u)
    = sum_list (map (length \<circ> snd) m) + length v"
  using assms
proof (induction m)
  case (Cons a m)
  obtain j u where a: "a = (j, u)" by (cases a)
  show ?case
  proof (cases "j = k")
    case True
    then show ?thesis using a by simp
  next
    case False
    then show ?thesis using Cons a by (simp add: go_map_ok_def)
  qed
qed simp

lemma push_filled:
  assumes "push_row target r s = (Done u, s')"
  shows "filled s s' (\<lambda>k t. if k = target \<and> t = o_TenantID r then 1 else 0) 1"
proof -
  let ?b = "AList.update target (bucket s target @ [r]) (sd_buckets s)"
  have s': "sd_buckets s' = ?b" using assms by (auto simp: push_row_def)
  have at: "bucket s' k = (if k = target then bucket s target @ [r] else bucket s k)" for k
    by (simp add: bucket_def s' map_of_alist_update)
  have "sum_list (map (length \<circ> snd) ?b) = sum_list (map (length \<circ> snd) (sd_buckets s)) + 1" if "go_map_ok (sd_buckets s)"
    using update_length [OF that, of target "bucket s target @ [r]"] by (simp add: bucket_def split: option.splits)
  then show ?thesis by (simp add: filled_def s' at) (simp add: tenant_count_def)
qed

lemma seed_row_filled:
  assumes "seed_row en tp tenant target s = (Done u, s')"
  shows "filled s s' (\<lambda>k t. if k = target \<and> t = tenant then 1 else 0) 1"
proof -
  obtain k s1 where k: "next_id target s = (Done k, s1)"
    using assms by (auto simp: seed_row_def bind_io_def split: prod.splits outcome.splits)
  then have s1: "sd_buckets s1 = sd_buckets s" by (auto simp: next_id_def split: option.splits prod.splits)
  obtain logical where l: "logicalOf tp tenant = Inr logical"
    using assms k by (cases "logicalOf tp tenant") (simp_all add: seed_row_def bind_io_def lift_go_def)
  let ?row = "\<lambda>st. mk_order (sint k) tenant logical (stamp en (called en - draw en (sd_draws s1) (90 * 24 * 3600 * 10 ^ 9)))
    (draw en (sd_draws s1 + 1) 20000) st"
  obtain st where r: "push_row target (?row st) (s1\<lparr>sd_draws := sd_draws s1 + 1 + 1 + 1\<rparr>) = (Done u, s')"
    using assms k l by (auto simp: seed_row_def bind_io_def lift_go_def draw_below_def split: sum.splits)
  from push_filled [OF r] show ?thesis using s1 by (simp add: filled_def bucket_def mk_order_def)
qed

lemma repeat_filled:
  assumes "\<And>s s' u. m s = (Done u, s') \<Longrightarrow> filled s s' new 1" and "repeat_io n m s = (Done u, s')"
  shows "filled s s' (\<lambda>k t. n * new k t) n"
  using assms(2)
proof (induction n arbitrary: s)
  case (Suc n)
  obtain v s1 where s1: "m s = (Done v, s1)" "repeat_io n m s1 = (Done u, s')"
    using Suc.prems by (auto simp: bind_io_def split: prod.splits outcome.splits)
  from filled_trans [OF assms(1) [OF s1(1)] Suc.IH [OF s1(2)]] show ?case by simp
qed (simp add: filled_none)

lemma seed_tenant_filled:
  assumes "seed_tenant en tp per t s = (Done u, s')"
  shows "filled s s' (\<lambda>k v. if RouteRead tp v = Inr k \<and> v = word_of_int t then nat (seed_size per t) else 0)
    (nat (seed_size per t))"
proof -
  obtain target where target: "RouteRead tp (word_of_int t) = Inr target"
    using assms by (cases "RouteRead tp (word_of_int t)") (simp_all add: seed_tenant_def bind_io_def lift_go_def)
  then have run: "repeat_io (nat (seed_size per t)) (seed_row en tp (word_of_int t) target) s = (Done u, s')"
    using assms by (simp add: seed_tenant_def)
  from repeat_filled [OF seed_row_filled run]
  have "filled s s' (\<lambda>k v. nat (seed_size per t) * (if k = target \<and> v = word_of_int t then 1 else 0)) (nat (seed_size per t))" .
  moreover have "(\<lambda>k v. nat (seed_size per t) * (if k = target \<and> v = word_of_int t then 1 else 0))
      = (\<lambda>k v. if RouteRead tp v = Inr k \<and> v = word_of_int t then nat (seed_size per t) else 0)"
    using target by (auto intro!: ext)
  ultimately show ?thesis by simp
qed

lemma seed_tenants_filled:
  assumes "seed_tenants en tp per ts s = (Done u, s')" and "distinct ts" and "\<forall>t\<in>set ts. 0 \<le> t \<and> t < 2 ^ 64"
  shows "filled s s' (\<lambda>k v. if RouteRead tp v = Inr k \<and> uint v \<in> set ts then nat (seed_size per (uint v)) else 0)
    (\<Sum>t\<leftarrow>ts. nat (seed_size per t))"
  using assms
proof (induction ts arbitrary: s)
  case Nil
  then show ?case by (simp add: filled_none)
next
  case (Cons t ts)
  obtain v s1 where s1: "seed_tenant en tp per t s = (Done v, s1)" "seed_tenants en tp per ts s1 = (Done u, s')"
    using Cons.prems(1) by (auto simp: bind_io_def split: prod.splits outcome.splits)
  have eq: "v = word_of_int t \<longleftrightarrow> uint v = t" for v :: u64
    using Cons.prems(3) by (auto simp: unsigned_of_int take_bit_int_eq_self)
  note both = filled_trans [OF seed_tenant_filled [OF s1(1)] Cons.IH [OF s1(2)]]
  have "(\<lambda>k v. (if RouteRead tp v = Inr k \<and> v = word_of_int t then nat (seed_size per t) else 0)
        + (if RouteRead tp v = Inr k \<and> uint v \<in> set ts then nat (seed_size per (uint v)) else 0))
      = (\<lambda>k v. if RouteRead tp v = Inr k \<and> uint v \<in> set (t # ts) then nat (seed_size per (uint v)) else 0)"
    using Cons.prems(2) by (intro ext) (auto simp: eq)
  then show ?case using both Cons.prems(2,3) by simp
qed

section \<open>The copies\<close>

text \<open>Every row is on the shard the topology routes its tenant to.\<close>

definition rows_placed :: "cluster \<Rightarrow> int \<Rightarrow> order list \<Rightarrow> bool" where
  "rows_placed c s rows \<longleftrightarrow> (\<forall>r\<in>set rows. RouteRead (topo c) (o_TenantID r) = Inr s)"

definition placed :: "cluster \<Rightarrow> db \<Rightarrow> bool" where
  "placed c d \<longleftrightarrow> (\<forall>s. rows_placed c s (orders (tables_of c d s)))"

definition placing :: "cluster \<Rightarrow> db \<Rightarrow> db \<Rightarrow> bool" where
  "placing c d d' \<longleftrightarrow> (placed c d \<longrightarrow> placed c d')"

interpretation place: rely "placing c" for c
  by unfold_locales (auto simp: placing_def)

lemma buckets_placed:
  assumes "filled s s' (\<lambda>k v. if RouteRead (topo c) v = Inr k \<and> Q v then f v else 0) n" and "sd_buckets s = []"
  shows "rows_placed c k (bucket s' k)"
proof (unfold rows_placed_def, intro ballI)
  fix r assume r: "r \<in> set (bucket s' k)"
  have "tenant_count (o_TenantID r) (bucket s' k)
      = (if RouteRead (topo c) (o_TenantID r) = Inr k \<and> Q (o_TenantID r) then f (o_TenantID r) else 0)"
    using assms by (simp add: filled_def bucket_def tenant_count_def)
  moreover have "0 < tenant_count (o_TenantID r) (bucket s' k)"
    using r unfolding tenant_count_def by (metis (mono_tags, lifting) filter_empty_conv length_greater_0_conv)
  ultimately show "RouteRead (topo c) (o_TenantID r) = Inr k" by (auto split: if_splits)
qed

lemma guar_copy_bucket:
  assumes "wf_cluster c" and "rows_placed c s rows"
  shows "guar (placing c) (copy_bucket c (s, rows) n)"
proof (cases "Pool c s")
  case (Inr p)
  have "guar (placing c) (round_trip p (sql_copy rows))"
  proof (rule place.guar_round_trip)
    fix t d x m assume "sql_copy rows t (d (p_dsn p)) = Inr (x, m)"
    then have m: "orders (tabs m) = orders (tables_of c d s) @ rows"
      by (auto simp: sql_copy_def tables_of_node [OF Inr] split: if_splits)
    show "placing c d (d(p_dsn p := m))"
      unfolding placing_def placed_def tables_of_update [OF assms(1) Inr] using assms(2) m by (auto simp: rows_placed_def)
  qed
  then show ?thesis
    unfolding copy_bucket_def Inr prod.case sum.case by (intro place.guar_try place.guar_ret)
qed (simp add: copy_bucket_def place.guar_ret del: ret_simp)

lemma copy_bucket_quiet:
  assumes "moves_in (=) (script w)" and "copy_bucket c (s, rows) n w = (Done (Inr n'), w')"
  shows "\<exists>p m. Pool c s = Inr p \<and> nodes w' = (nodes w)(p_dsn p := m) \<and> moves_in (=) (script w') \<and> n' = n + int (length rows)
    \<and> tabs m = (tables_of c (nodes w) s)\<lparr>orders := orders (tables_of c (nodes w) s) @ rows\<rparr>"
proof -
  obtain p where p: "Pool c s = Inr p" using assms(2) by (cases "Pool c s") (simp_all add: copy_bucket_def)
  obtain x where rt: "round_trip p (sql_copy rows) w = (Done (Inr x), w')" and n': "n' = n + x"
    using assms(2) p by (auto simp: copy_bucket_def try_io_def bind_io_def split: prod.splits outcome.splits sum.splits)
  note q = round_trip_quiet [OF assms(1) rt]
  obtain t m where m: "sql_copy rows t (nodes w (p_dsn p)) = Inr (x, m)" "nodes w' = (nodes w)(p_dsn p := m)"
    using q(3) [OF refl] by blast
  then show ?thesis using p q(1) n' by (auto simp: sql_copy_def tables_of_node [OF p] split: if_splits)
qed

lemma copy_loop:
  assumes "wf_cluster c" and "moves_in (=) (script w)" and "distinct (map fst bs)"
    and "for_io (copy_bucket c) bs n w = (Done (Inr n'), w')"
  shows "n' = n + int (sum_list (map (length \<circ> snd) bs)) \<and> moves_in (=) (script w')
    \<and> (\<forall>s. tables_of c (nodes w') s = (tables_of c (nodes w) s)\<lparr>orders := orders (tables_of c (nodes w) s)
          @ (case map_of bs s of None \<Rightarrow> [] | Some rows \<Rightarrow> rows)\<rparr>)"
  using assms(2-4)
proof (induction bs arbitrary: n w)
  case (Cons b bs)
  obtain s rows where b: "b = (s, rows)" by (cases b)
  obtain n1 w1 where one: "copy_bucket c (s, rows) n w = (Done (Inr n1), w1)" and rest: "for_io (copy_bucket c) bs n1 w1 = (Done (Inr n'), w')"
    using Cons.prems(3) b by (auto simp: try_io_def bind_io_def split: prod.splits outcome.splits sum.splits)
  obtain p m where p: "Pool c s = Inr p" "nodes w1 = (nodes w)(p_dsn p := m)" "moves_in (=) (script w1)"
      "n1 = n + int (length rows)"
      "tabs m = (tables_of c (nodes w) s)\<lparr>orders := orders (tables_of c (nodes w) s) @ rows\<rparr>"
    using copy_bucket_quiet [OF Cons.prems(1) one] by blast
  have "distinct (map fst bs)" "s \<notin> fst ` set bs" using Cons.prems(2) b by simp_all
  then have none: "map_of bs s = None" by (simp add: map_of_eq_None_iff)
  note IH = Cons.IH [OF p(3) \<open>distinct (map fst bs)\<close> rest, unfolded p(2) tables_of_update [OF assms(1) p(1)]]
  show ?case using IH p(4,5) none b by auto
qed (simp add: ret_def)

lemma Seed_run:
  assumes "Seed en c tenants per w = (Done (n, err), w')" and "err = None"
  shows "\<exists>gens s u. seed_gens (Shards c) [] = Inr gens
    \<and> seed_tenants en (topo c) per [1..tenants]
        \<lparr>sd_gens = gens, sd_clock = readings en, sd_draws = 0, sd_buckets = []\<rparr> = (Done u, s)
    \<and> for_io (copy_bucket c) (visit en (sd_buckets s)) 0 w = (Done (Inr n), w')"
proof -
  obtain gens where gens: "seed_gens (Shards c) [] = Inr gens"
    using assms by (cases "seed_gens (Shards c) []") (simp_all add: Seed_def)
  let ?s0 = "\<lparr>sd_gens = gens, sd_clock = readings en, sd_draws = 0, sd_buckets = []\<rparr>"
  obtain r s where rows: "seed_tenants en (topo c) per [1..tenants] ?s0 = (r, s)" by (metis surj_pair)
  obtain u where "r = Done u" using assms gens rows by (cases r) (simp_all add: Seed_def on_memory_def bind_io_def)
  moreover have "for_io (copy_bucket c) (visit en (sd_buckets s)) 0 w = (Done (Inr n), w')"
    using assms gens rows \<open>r = Done u\<close>
    by (auto simp: Seed_def on_memory_def bind_io_def try_io_def split: prod.splits outcome.splits sum.splits)
  ultimately show ?thesis using gens rows by blast
qed

lemma seeds_exact:
  assumes "moves_in (=) (script w)" and "wf_cluster c" and "tenants < 2 ^ 64"
    and "\<And>m. mset (visit en m) = mset m" and "Seed en c tenants per w = (Done (n, None), w')"
  shows "n = (\<Sum>t\<leftarrow>[1..tenants]. int (nat (seed_size per t))) \<and> moves_in (=) (script w')
    \<and> (\<forall>s t. ledger (tables_of c (nodes w') s) = ledger (tables_of c (nodes w) s)
      \<and> tenant_count t (orders (tables_of c (nodes w') s)) = tenant_count t (orders (tables_of c (nodes w) s))
        + (if RouteRead (topo c) t = Inr s \<and> 1 \<le> uint t \<and> uint t \<le> tenants then nat (seed_size per (uint t)) else 0))"
proof -
  obtain gens s u where run: "seed_tenants en (topo c) per [1..tenants]
        \<lparr>sd_gens = gens, sd_clock = readings en, sd_draws = 0, sd_buckets = []\<rparr> = (Done u, s)"
      and copies: "for_io (copy_bucket c) (visit en (sd_buckets s)) 0 w = (Done (Inr n), w')"
    using Seed_run [OF assms(5) refl] by blast
  let ?bs = "visit en (sd_buckets s)"
  have "filled \<lparr>sd_gens = gens, sd_clock = readings en, sd_draws = 0, sd_buckets = []\<rparr> s
      (\<lambda>k v. if RouteRead (topo c) v = Inr k \<and> uint v \<in> set [1..tenants] then nat (seed_size per (uint v)) else 0)
      (\<Sum>t\<leftarrow>[1..tenants]. nat (seed_size per t))"
    using assms(3) by (intro seed_tenants_filled [OF run]) auto
  then have made: "go_map_ok (sd_buckets s)"
      "\<And>k t. tenant_count t (bucket s k) = (if RouteRead (topo c) t = Inr k \<and> uint t \<in> set [1..tenants] then nat (seed_size per (uint t)) else 0)"
      "sum_list (map (length \<circ> snd) (sd_buckets s)) = (\<Sum>t\<leftarrow>[1..tenants]. nat (seed_size per t))"
    by (simp_all add: filled_def) (simp add: bucket_def tenant_count_def)
  have keys: "distinct (map fst ?bs)"
    using made(1) assms(4) [of "sd_buckets s"] unfolding go_map_ok_def by (metis mset_eq_imp_distinct_iff mset_map)
  have "map_of ?bs = map_of (sd_buckets s)"
    using keys made(1) assms(4) [of "sd_buckets s"] unfolding go_map_ok_def by (metis map_of_inject_set set_mset_mset)
  then have "(case map_of ?bs k of None \<Rightarrow> [] | Some rows \<Rightarrow> rows) = bucket s k" for k by (simp add: bucket_def)
  moreover have "sum_list (map (length \<circ> snd) ?bs) = sum_list (map (length \<circ> snd) (sd_buckets s))"
    using assms(4) [of "sd_buckets s"] by (metis mset_map sum_mset_sum_list)
  moreover have "int (\<Sum>t\<leftarrow>ts. nat (f t)) = (\<Sum>t\<leftarrow>ts. int (nat (f t)))" for f and ts :: "int list" by (induction ts) simp_all
  ultimately show ?thesis using copy_loop [OF assms(2,1) keys copies] made(2,3) by auto
qed

lemma guar_copies:
  assumes "wf_cluster c" and "\<forall>(s, rows)\<in>set bs. rows_placed c s rows"
  shows "guar (placing c) (for_io (copy_bucket c) bs n)"
  by (rule place.guar_for_in) (use guar_copy_bucket [OF assms(1)] assms(2) in auto)

lemma guar_Seed:
  assumes "wf_cluster c" and "tenants < 2 ^ 64" and "\<And>m. mset (visit en m) = mset m"
  shows "guar (placing c) (Seed en c tenants per)"
proof (cases "seed_gens (Shards c) []")
  case (Inr gens)
  let ?s0 = "\<lparr>sd_gens = gens, sd_clock = readings en, sd_draws = 0, sd_buckets = []\<rparr>"
  let ?m = "seed_tenants en (topo c) per [1..tenants]"
  obtain r s where run: "?m ?s0 = (r, s)" by (metis surj_pair)
  show ?thesis
  proof (cases r)
    case (Done u)
    have ts: "\<forall>t\<in>set [1..tenants]. 0 \<le> t \<and> t < 2 ^ 64" using assms(2) by auto
    have "filled ?s0 s (\<lambda>k v. if RouteRead (topo c) v = Inr k \<and> uint v \<in> set [1..tenants] then nat (seed_size per (uint v)) else 0)
        (\<Sum>t\<leftarrow>[1..tenants]. nat (seed_size per t))"
      by (rule seed_tenants_filled [OF run [unfolded Done] _ ts]) simp
    note filled = this
    from buckets_placed [OF filled] have at: "rows_placed c k (bucket s k)" for k by simp
    have "rows_placed c k rows" if "(k, rows) \<in> set (visit en (sd_buckets s))" for k rows
    proof -
      have "(k, rows) \<in> set (sd_buckets s)" using that assms(3) [of "sd_buckets s"] by (metis set_mset_mset)
      moreover have "go_map_ok (sd_buckets s)" using filled by (simp add: filled_def)
      ultimately have "bucket s k = rows" by (simp add: bucket_def go_map_ok_def)
      then show ?thesis using at [of k] by simp
    qed
    then have "guar (placing c) (for_io (copy_bucket c) (visit en (sd_buckets s)) 0)"
      by (intro guar_copies [OF assms(1)]) auto
    then have "guar (placing c) (try_io (for_io (copy_bucket c) (visit en (sd_buckets s)) 0)
        (\<lambda>(n, e). ret (n, Some e)) (\<lambda>n. ret (n, None)))"
      by (intro place.guar_try place.guar_ret) (auto simp: place.guar_ret simp del: ret_simp)
    then show ?thesis using Inr run Done by (simp add: Seed_def on_memory_def bind_io_def guar_def)
  qed (use Inr run in \<open>simp_all add: Seed_def on_memory_def bind_io_def guar_def place.R_refl\<close>)
qed (simp add: Seed_def place.guar_ret del: ret_simp)

section \<open>The ledger\<close>

lemma fold_credit: "go_count (fold (\<lambda>t l. AList.update t v l) ts l) k = (if k \<in> set ts then v else go_count l k)"
  by (induction ts arbitrary: l) (simp_all add: go_count_update)

lemma seed_ledger_loop:
  assumes "wf_cluster c" and "moves_in (=) (script w)" and "distinct ss"
    and "for_io (seed_ledger_on c) ss () w = (Done (Inr ()), w')"
  shows "orders (tables_of c (nodes w') s) = orders (tables_of c (nodes w) s)
    \<and> go_count (ledger (tables_of c (nodes w') s)) t
      = (if s \<in> set ss \<and> t \<in> o_TenantID ` set (orders (tables_of c (nodes w) s)) then 1000000
         else go_count (ledger (tables_of c (nodes w) s)) t)"
  using assms(2-4)
proof (induction ss arbitrary: w)
  case (Cons a ss)
  obtain w1 where one: "seed_ledger_on c a () w = (Done (Inr ()), w1)" and rest: "for_io (seed_ledger_on c) ss () w1 = (Done (Inr ()), w')"
    using Cons.prems(3) by (auto simp: try_io_def bind_io_def split: prod.splits outcome.splits sum.splits)
  obtain p where p: "Pool c a = Inr p" using one by (cases "Pool c a") (simp_all add: seed_ledger_on_def)
  obtain u where rt: "round_trip p sql_seed_ledger w = (Done (Inr u), w1)"
    using one p by (auto simp: seed_ledger_on_def try_io_def bind_io_def split: prod.splits outcome.splits sum.splits)
  note q = round_trip_quiet [OF Cons.prems(1) rt]
  obtain x n where n: "sql_seed_ledger x (nodes w (p_dsn p)) = Inr (u, n)" "nodes w1 = (nodes w)(p_dsn p := n)"
    using q(3) [OF refl] by blast
  have tabs: "tabs n = (tables_of c (nodes w) a)\<lparr>ledger :=
      fold (\<lambda>t l. AList.update t 1000000 l) (remdups (map o_TenantID (orders (tables_of c (nodes w) a)))) (ledger (tables_of c (nodes w) a))\<rparr>"
    using n(1) by (auto simp: sql_seed_ledger_def tables_of_node [OF p])
  have after: "tables_of c (nodes w1) = (tables_of c (nodes w))(a := tabs n)"
    unfolding n(2) by (rule tables_of_update [OF assms(1) p])
  have "distinct ss" "a \<notin> set ss" using Cons.prems(2) by simp_all
  note IH = Cons.IH [OF q(1) this(1) rest, unfolded after]
  show ?case using IH \<open>a \<notin> set ss\<close> by (cases "s = a") (simp_all add: tabs fold_credit)
qed (simp add: ret_def)

section \<open>Properties\<close>

text \<open>C27: Seeding puts no row on a wrong shard: where every row is on the shard that the topology routes
  its tenant to, this is still so after \<open>Seed\<close> returns, fails half way, panics or is killed,
  while other clients keep to the same rule.\<close>

theorem seed_places_rows:
  assumes "wf_cluster c" and "tenants < 2 ^ 64" and "\<And>m. mset (visit en m) = mset m"
    and "moves_in (placing c) (script w)" and "placed c (nodes w)" and "Seed en c tenants per w = (r, w')"
  shows "placed c (nodes w') \<and> misplaced_rows c (nodes w') s = 0"
proof -
  have "placing c (nodes w) (nodes w')"
    using guar_Seed [OF assms(1-3)] assms(4,6) unfolding guar_def by (metis snd_conv)
  then have "placed c (nodes w')" using assms(5) by (simp add: placing_def)
  then show ?thesis by (auto simp: placed_def rows_placed_def misplaced_rows_def)
qed

text \<open>C26: A \<open>Seed\<close> that succeeds has given every tenant from 1 to \<open>tenants\<close> its number of orders on its
  shard, 20 times as many to tenants 1 and 2, and no other row, and it returns the total.\<close>

theorem seed_exact:
  assumes "moves_in (=) (script w)" and "wf_cluster c" and "tenants < 2 ^ 64"
    and "\<And>m. mset (visit en m) = mset m" and "Seed en c tenants per w = (Done (n, None), w')"
    and "0 \<le> per" and "20 * per < 2 ^ 63"
  shows "n = (\<Sum>t\<leftarrow>[1..tenants]. if t \<le> 2 then 20 * per else per)
    \<and> int (tenant_count t (orders (tables_of c (nodes w') s))) = int (tenant_count t (orders (tables_of c (nodes w) s)))
        + (if RouteRead (topo c) t = Inr s \<and> 1 \<le> uint t \<and> uint t \<le> tenants
           then (if uint t \<le> 2 then 20 * per else per) else 0)"
proof -
  have size: "int (nat (seed_size per t)) = (if t \<le> 2 then 20 * per else per)" for t
    using assms(6,7) sint_word_of_int_64 [of "per * 20"] by (simp add: seed_size_def)
  note exact = seeds_exact [OF assms(1-5)]
  have "int (tenant_count t (orders (tables_of c (nodes w') s))) = int (tenant_count t (orders (tables_of c (nodes w) s)))
      + (if RouteRead (topo c) t = Inr s \<and> 1 \<le> uint t \<and> uint t \<le> tenants then int (nat (seed_size per (uint t))) else 0)"
    using exact by simp
  then show ?thesis using exact unfolding size by blast
qed

text \<open>\<open>shardctl seed\<close> gives every tenant that has an order on a shard the balance 1000000 there,
  whatever it held before, and changes no other balance; tenants it seeded with at least one
  order are among them.\<close>

theorem seed_ledger_exact:
  assumes "moves_in (=) (script w)" and "wf_cluster c" and "tenants < 2 ^ 64"
    and "\<And>m. mset (visit en m) = mset m" and "seed_body en tenants per c w = (Done (Inr n), w')"
    and "s \<in> set (Shards c)"
  shows "go_count (ledger (tables_of c (nodes w') s)) t
    = (if t \<in> o_TenantID ` set (orders (tables_of c (nodes w) s))
          \<or> (RouteRead (topo c) t = Inr s \<and> 1 \<le> uint t \<and> uint t \<le> tenants \<and> 0 < seed_size per (uint t))
       then 1000000 else go_count (ledger (tables_of c (nodes w) s)) t)"
proof -
  obtain w1 where seed: "Seed en c tenants per w = (Done (n, None), w1)"
      and loop: "for_io (seed_ledger_on c) (Shards c) () w1 = (Done (Inr ()), w')"
    using assms(5)
    by (auto simp: seed_body_def try_io_def bind_io_def split: prod.splits outcome.splits sum.splits option.splits)
  note exact = seeds_exact [OF assms(1-4) seed]
  have has: "t \<in> o_TenantID ` set rows \<longleftrightarrow> 0 < tenant_count t rows" for rows
    by (auto simp: tenant_count_def filter_empty_conv)
  have moves: "moves_in (=) (script w1)" using exact by blast
  note ledger = seed_ledger_loop [OF assms(2) moves distinct_Shards [OF assms(2)] loop, of s t]
  show ?thesis
    using conjunct2 [OF ledger] exact assms(6) unfolding has by (auto simp del: set_Shards)
qed

section \<open>Examples\<close>

text \<open>One tenant with twenty orders, made within one millisecond.\<close>

definition demo_env :: seed_env where
  "demo_env = \<lparr>draw = (\<lambda>k n. 0), readings = replicate 20 1704067200001, called = 5, stamp = (\<lambda>t. t), visit = (\<lambda>m. m)\<rparr>"

definition demo_start :: seeding where
  "demo_start = \<lparr>sd_gens = [(0, \<lparr>g_shard = 0, g_lastMs = 0, g_seq = 0\<rparr>), (1, \<lparr>g_shard = 1, g_lastMs = 0, g_seq = 0\<rparr>)],
     sd_clock = readings demo_env, sd_draws = 0, sd_buckets = []\<rparr>"

definition demo_rows :: "order list" where
  "demo_rows = map (\<lambda>i. mk_order (2 ^ 22 + int i) 1 0 5 0 ''new'') [0..<20]"

lemma demo_fill:
  "case seed_tenants demo_env (topo demo_cluster) 1 [1..1] demo_start of
     (r, s) \<Rightarrow> r = Done () \<and> sd_buckets s = [(0, demo_rows)]"
  by code_simp

lemma demo_rows_distinct: "distinct (map o_ID demo_rows)"
  by (simp add: demo_rows_def comp_def mk_order_def distinct_map inj_on_def)

lemma demo_gens: "seed_gens (Shards demo_cluster) [] = Inr (sd_gens demo_start)"
  by (simp add: NewIDGen_def demo_start_def id_consts)

lemma demo_copy:
  "\<exists>w'. for_io (copy_bucket demo_cluster) [(0, demo_rows)] 0 (demo_world [] (replicate 3 (calm 1))) = (Done (Inr 20), w')
    \<and> script w' = replicate 2 (calm 1)"
proof -
  have "length demo_rows = 20" by (simp add: demo_rows_def)
  then show ?thesis
    using demo_rows_distinct
    by (simp add: try_io_def bind_io_def copy_bucket_def round_trip_def sql_copy_def demo_world_def empty_tables_def Let_def
        numeral_eq_Suc)
qed

lemma demo_seed:
  "\<exists>w'. Seed demo_env demo_cluster 1 1 (demo_world [] (replicate 3 (calm 1))) = (Done (20, None), w')
    \<and> script w' = replicate 2 (calm 1)"
proof -
  let ?start = "\<lparr>sd_gens = sd_gens demo_start, sd_clock = readings demo_env, sd_draws = 0, sd_buckets = []\<rparr>"
  have "?start = demo_start" by (simp add: demo_start_def)
  then obtain s where s: "seed_tenants demo_env (topo demo_cluster) 1 [1..1] ?start = (Done (), s)" "sd_buckets s = [(0, demo_rows)]"
    using demo_fill by (auto split: prod.splits)
  have "visit demo_env (sd_buckets s) = [(0, demo_rows)]" using s(2) by (simp add: demo_env_def)
  moreover obtain w' where copies: "for_io (copy_bucket demo_cluster) [(0, demo_rows)] 0 (demo_world [] (replicate 3 (calm 1))) = (Done (Inr 20), w')"
      "script w' = replicate 2 (calm 1)"
    using demo_copy by blast
  ultimately have "Seed demo_env demo_cluster 1 1 (demo_world [] (replicate 3 (calm 1))) = (Done (20, None), w')"
    unfolding Seed_def demo_gens sum.case bind_io_def on_memory_def s(1) prod.case outcome.case try_io_def by simp
  then show ?thesis using copies(2) by blast
qed

lemma demo_seed_facts:
  "moves_in R (script (demo_world [] (replicate 3 (calm 1)))) \<longleftrightarrow> (\<forall>d. R d d)"
  "mset (visit demo_env m) = mset m" "(1 :: int) < 2 ^ 64"
  by (simp_all add: demo_world_def demo_env_def numeral_eq_Suc)

lemma seed_places_rows_witness:
  "\<exists>w'. Seed demo_env demo_cluster 1 1 (demo_world [] (replicate 3 (calm 1))) = (Done (20, None), w')
    \<and> misplaced_rows demo_cluster (nodes w') 0 = 0"
proof -
  let ?w = "demo_world [] (replicate 3 (calm 1))"
  obtain w' where run: "Seed demo_env demo_cluster 1 1 ?w = (Done (20, None), w')" using demo_seed by blast
  have "moves_in (placing demo_cluster) (script ?w)" by (simp only: demo_seed_facts place.R_refl simp_thms)
  moreover have "placed demo_cluster (nodes ?w)"
    by (simp add: placed_def rows_placed_def tables_of_def demo_world_def empty_tables_def split: sum.splits)
  ultimately show ?thesis
    using seed_places_rows [OF demo_pools(4) demo_seed_facts(3,2) _ _ run] run by blast
qed

lemma seed_exact_witness:
  "\<exists>w'. Seed demo_env demo_cluster 1 1 (demo_world [] (replicate 3 (calm 1))) = (Done (20, None), w')
    \<and> tenant_count 1 (orders (tables_of demo_cluster (nodes w') 0)) = 20"
proof -
  let ?w = "demo_world [] (replicate 3 (calm 1))"
  obtain w' where run: "Seed demo_env demo_cluster 1 1 ?w = (Done (20, None), w')" using demo_seed by blast
  have "moves_in (=) (script ?w)" by (simp only: demo_seed_facts simp_thms)
  from seed_exact [OF this demo_pools(4) demo_seed_facts(3,2) run, of 1 0] run show ?thesis
    by (simp add: tables_of_def demo_world_def empty_tables_def tenant_count_def)
qed

lemma seed_ledger_exact_witness:
  "\<exists>w'. seed_body demo_env 1 1 demo_cluster (demo_world [] (replicate 3 (calm 1))) = (Done (Inr 20), w')
    \<and> go_count (ledger (tables_of demo_cluster (nodes w') 0)) 1 = 1000000"
proof -
  let ?w = "demo_world [] (replicate 3 (calm 1))"
  obtain w1 where seed: "Seed demo_env demo_cluster 1 1 ?w = (Done (20, None), w1)" "script w1 = replicate 2 (calm 1)"
    using demo_seed by blast
  have "\<exists>w'. for_io (seed_ledger_on demo_cluster) (Shards demo_cluster) () w1 = (Done (Inr ()), w')"
    using seed(2) by (simp add: try_io_def bind_io_def seed_ledger_on_def round_trip_def sql_seed_ledger_def Let_def numeral_eq_Suc)
  then obtain w' where run: "seed_body demo_env 1 1 demo_cluster ?w = (Done (Inr 20), w')"
    using seed(1) by (auto simp: seed_body_def bind_io_def try_io_def)
  have "moves_in (=) (script ?w)" by (simp only: demo_seed_facts simp_thms)
  from seed_ledger_exact [OF this demo_pools(4) demo_seed_facts(3,2) run, of 0 1] run show ?thesis
    by (simp add: seed_size_def)
qed

end
