(* ===== verification/Outbox.thy ===== *)
theory Outbox
  imports Txn
begin

text \<open>
  The transactional outbox, \<open>src/internal/shard/outbox.go\<close>: a transfer debits its source
  shard and records the credit there in one local transaction; a relay, which may run many
  times and be killed anywhere, applies the recorded credits to their target shards.  The
  abstract specification is a bank whose transfers happen at one moment; the theorems
  show that the shards with their outboxes and \<open>applied\<close> tables implement it.
\<close>

section \<open>The code\<close>

definition in_bigint :: "int \<Rightarrow> bool" where
  "in_bigint x \<longleftrightarrow> - (2 ^ 63) \<le> x \<and> x < 2 ^ 63"

text \<open>
  \<open>UPDATE ledger ... WHERE tenant_id = $1 AND balance_cents >= $2 RETURNING balance_cents\<close>:
  the new balance, or no row.
\<close>

definition sql_debit :: "u64 \<Rightarrow> int \<Rightarrow> tables \<Rightarrow> sql_error + int option \<times> tables" where
  "sql_debit from cents T =
     (case map_of (ledger T) from of
        None \<Rightarrow> Inr (None, T)
      | Some b \<Rightarrow>
          if b < cents then Inr (None, T)
          else if in_bigint (b - cents)
          then Inr (Some (b - cents), T\<lparr>ledger := AList.update from (b - cents) (ledger T)\<rparr>)
          else Inl NumericOutOfRange)"

definition credit_row :: "int \<Rightarrow> int \<Rightarrow> u64 \<Rightarrow> u64 \<Rightarrow> int \<Rightarrow> outbox_row" where
  "credit_row k target from to cents =
     \<lparr>ob_id = k, ob_target_shard = target, ob_kind = ''credit'',
      ob_payload = \<lparr>pl_tenant_id = to, pl_cents = cents, pl_from = from\<rparr>, ob_delivered = False\<rparr>"

definition sql_insert_outbox :: "outbox_row \<Rightarrow> tables \<Rightarrow> sql_error + unit \<times> tables" where
  "sql_insert_outbox row T =
     (if ob_id row \<in> ob_id ` set (outbox T) then Inl UniqueViolation
      else Inr ((), T\<lparr>outbox := outbox T @ [row]\<rparr>))"

definition transfer_tx :: "int \<Rightarrow> int \<Rightarrow> int \<Rightarrow> u64 \<Rightarrow> u64 \<Rightarrow> int \<Rightarrow> (gerr + unit) tx" where
  "transfer_tx srcShard dstShard eventID from to cents =
     (let debit_err = (\<lambda>e. tx_ret (Inl (EAt (''debit tenant '' @ fmt_d (uint from) @ '' on shard'') srcShard e))) in
      tx_try (tx_stmt (sql_debit from cents)) debit_err (\<lambda>balance.
        case balance of
          None \<Rightarrow> debit_err ENoRows
        | Some b \<Rightarrow> tx_stmt (sql_insert_outbox (credit_row eventID dstShard from to cents))))"

definition Transfer :: "cluster \<Rightarrow> int \<Rightarrow> u64 \<Rightarrow> u64 \<Rightarrow> int \<Rightarrow> (gerr + unit) io" where
  "Transfer c eventID from to cents =
     bind_io (lift_go (ReadPool c from)) (\<lambda>(r, srcShard).
       case r of
         Inl e \<Rightarrow> ret (Inl e)
       | Inr srcPool \<Rightarrow>
           bind_io (lift_go (RouteRead (topo c) to)) (\<lambda>dstShard.
             begin_func srcPool (transfer_tx srcShard dstShard eventID from to cents)))"

definition sql_pending :: "int \<Rightarrow> node \<Rightarrow> sql_error + outbox_row list" where
  "sql_pending batch n =
     (if batch < 0 then Inl NegativeLimit
      else Inr (take (nat batch) (sort_key ob_id (filter (\<lambda>r. \<not> ob_delivered r) (outbox (tabs n))))))"

text \<open>\<open>INSERT INTO applied ... ON CONFLICT DO NOTHING\<close>, answering whether it added the row.\<close>

definition sql_insert_applied :: "int \<Rightarrow> tables \<Rightarrow> sql_error + bool \<times> tables" where
  "sql_insert_applied k T =
     (if k \<in> set (applied T) then Inr (False, T) else Inr (True, T\<lparr>applied := applied T @ [k]\<rparr>))"

definition sql_credit :: "payload \<Rightarrow> tables \<Rightarrow> sql_error + unit \<times> tables" where
  "sql_credit pl T =
     (let b = go_count (ledger T) (pl_tenant_id pl) + pl_cents pl in
      if in_bigint b then Inr ((), T\<lparr>ledger := AList.update (pl_tenant_id pl) b (ledger T)\<rparr>)
      else Inl NumericOutOfRange)"

definition apply_event :: "outbox_row \<Rightarrow> (gerr + unit) tx" where
  "apply_event e =
     tx_try (tx_stmt (sql_insert_applied (ob_id e))) (\<lambda>err. tx_ret (Inl err)) (\<lambda>added.
       if \<not> added then tx_ret (Inr ()) else tx_stmt (sql_credit (ob_payload e)))"

definition sql_mark_delivered :: "int \<Rightarrow> time \<Rightarrow> node \<Rightarrow> sql_error + unit \<times> node" where
  "sql_mark_delivered k now n = Inr ((), n\<lparr>tabs := (tabs n)\<lparr>outbox :=
     map (\<lambda>r. if ob_id r = k then r\<lparr>ob_delivered := True\<rparr> else r) (outbox (tabs n))\<rparr>\<rparr>)"

definition relay_event :: "cluster \<Rightarrow> pool \<Rightarrow> outbox_row \<Rightarrow> int \<Rightarrow> ((int \<times> gerr) + int) io" where
  "relay_event c src e delivered =
     (case Pool c (ob_target_shard e) of
        Inl err \<Rightarrow> ret (Inl (delivered, err))
      | Inr dst \<Rightarrow>
          try_io (begin_func dst (apply_event e))
            (\<lambda>err. ret (Inl (delivered, EAt (''apply event '' @ fmt_d (ob_id e) @ '' on shard'') (ob_target_shard e) err)))
            (\<lambda>_. try_io (round_trip src (sql_mark_delivered (ob_id e)))
              (\<lambda>err. ret (Inl (delivered, err)))
              (\<lambda>_. ret (Inr (delivered + 1)))))"

definition RelayOnce :: "cluster \<Rightarrow> int \<Rightarrow> int \<Rightarrow> (int \<times> gerr option) io" where
  "RelayOnce c srcShard batch =
     (case Pool c srcShard of
        Inl e \<Rightarrow> ret (0, Some e)
      | Inr src \<Rightarrow>
          try_io (query_rows src (sql_pending batch)) (\<lambda>e. ret (0, Some e)) (\<lambda>(evs, err).
            case err of
              Some e \<Rightarrow> ret (0, Some e)
            | None \<Rightarrow> try_io (for_io (relay_event c src) evs 0)
                (\<lambda>(delivered, e). ret (delivered, Some e)) (\<lambda>delivered. ret (delivered, None))))"

definition pending_on :: "cluster \<Rightarrow> int \<Rightarrow> (int, int) gomap \<Rightarrow> (gerr + (int, int) gomap) io" where
  "pending_on c s out =
     (case Pool c s of
        Inl e \<Rightarrow> ret (Inl e)
      | Inr p \<Rightarrow> try_io (query_row p (\<lambda>n. int (length (filter (\<lambda>r. \<not> ob_delivered r) (outbox (tabs n))))))
          (\<lambda>e. ret (Inl e)) (\<lambda>k. ret (Inr (AList.update s k out))))"

definition PendingOutbox :: "cluster \<Rightarrow> (gerr + (int, int) gomap) io" where
  "PendingOutbox c = for_io (pending_on c) (Shards c) []"

section \<open>The abstract bank\<close>

text \<open>
  Accounts are kept per shard and tenant.  The settled balance of an account is what its
  ledger row holds and every credit recorded for it in some outbox and not yet applied.
\<close>

type_synonym bank = "int \<times> u64 \<Rightarrow> int"

definition move_money :: "int \<times> u64 \<Rightarrow> int \<times> u64 \<Rightarrow> int \<Rightarrow> bank \<Rightarrow> bank" where
  "move_money x y cents b = (let b' = b(x := b x - cents) in b'(y := b' y + cents))"

definition bank_step :: "bank \<Rightarrow> bank \<Rightarrow> bool" where
  "bank_step b b' \<longleftrightarrow> (\<exists>x y cents. b' = move_money x y cents b)"

definition owes :: "outbox_row list \<Rightarrow> int list \<Rightarrow> int \<times> u64 \<Rightarrow> int" where
  "owes rows done x = sum_list (map (\<lambda>r.
     if ob_target_shard r = fst x \<and> pl_tenant_id (ob_payload r) = snd x \<and> ob_id r \<notin> set done
     then pl_cents (ob_payload r) else 0) rows)"

definition settled :: "int set \<Rightarrow> (int \<Rightarrow> tables) \<Rightarrow> bank" where
  "settled K S x = go_count (ledger (S (fst x))) (snd x)
     + (\<Sum>s\<in>K. owes (outbox (S s)) (applied (S (fst x))) x)"

text \<open>
  The invariant.  \<open>own\<close> says which shard an event id was made for, so that ids are unique in
  the cluster: an applied event has its record on that shard, and a record is marked delivered
  only when its target has applied it.
\<close>

definition recorded :: "(int \<Rightarrow> tables) \<Rightarrow> int \<Rightarrow> int \<Rightarrow> int \<Rightarrow> bool" where
  "recorded S src k target \<longleftrightarrow> (\<exists>r\<in>set (outbox (S src)). ob_id r = k \<and> ob_target_shard r = target)"

definition outbox_ok :: "(int \<Rightarrow> int) \<Rightarrow> (int \<Rightarrow> tables) \<Rightarrow> int \<Rightarrow> bool" where
  "outbox_ok own S s \<longleftrightarrow> distinct (map ob_id (outbox (S s)))
     \<and> (\<forall>r\<in>set (outbox (S s)). own (ob_id r) = s
         \<and> (ob_delivered r \<longrightarrow> ob_id r \<in> set (applied (S (ob_target_shard r)))))
     \<and> (\<forall>k\<in>set (applied (S s)). recorded S (own k) k s)"

definition outboxes_ok :: "(int \<Rightarrow> int) \<Rightarrow> (int \<Rightarrow> tables) \<Rightarrow> bool" where
  "outboxes_ok own S \<longleftrightarrow> (\<forall>s. outbox_ok own S s)"

text \<open>What stays: records, marks and applied events.\<close>

definition stays :: "outbox_row \<Rightarrow> outbox_row \<Rightarrow> bool" where
  "stays r r' \<longleftrightarrow> ob_id r' = ob_id r \<and> ob_target_shard r' = ob_target_shard r \<and> ob_payload r' = ob_payload r
     \<and> (ob_delivered r \<longrightarrow> ob_delivered r')"

definition keeps :: "tables \<Rightarrow> tables \<Rightarrow> bool" where
  "keeps T T' \<longleftrightarrow> set (applied T) \<subseteq> set (applied T') \<and> (\<forall>r\<in>set (outbox T). \<exists>r'\<in>set (outbox T'). stays r r')"

text \<open>
  How the nodes may move: the invariant is kept, records, marks and applied events stay, and
  the abstract bank moves by \<open>B\<close>: by any number of transfers, or not at all.
\<close>

definition evolves :: "(bank \<Rightarrow> bank \<Rightarrow> bool) \<Rightarrow> (int \<Rightarrow> int) \<Rightarrow> cluster \<Rightarrow> db \<Rightarrow> db \<Rightarrow> bool" where
  "evolves B own c d d' \<longleftrightarrow> (let S = tables_of c d; S' = tables_of c d'; K = set (Shards c) in
     outboxes_ok own S \<longrightarrow> outboxes_ok own S' \<and> B (settled K S) (settled K S') \<and> (\<forall>s. keeps (S s) (S' s)))"

lemma bank_step_move: "bank_step\<^sup>*\<^sup>* b (move_money x y cents b)"
  unfolding bank_step_def by (rule r_into_rtranclp) blast

lemma stays_refl [simp]: "stays r r"
  by (simp add: stays_def)

lemma stays_trans: "stays r r1 \<Longrightarrow> stays r1 r2 \<Longrightarrow> stays r r2"
  by (simp add: stays_def)

lemma keeps_refl [simp]: "keeps T T"
  by (auto simp: keeps_def intro: stays_refl)

lemma keeps_trans:
  assumes "keeps T T1" and "keeps T1 T2"
  shows "keeps T T2"
proof (unfold keeps_def, intro conjI ballI)
  show "set (applied T) \<subseteq> set (applied T2)" using assms by (auto simp: keeps_def)
  fix r assume "r \<in> set (outbox T)"
  then obtain r1 where r1: "r1 \<in> set (outbox T1)" "stays r r1" using assms(1) by (auto simp: keeps_def)
  then obtain r2 where "r2 \<in> set (outbox T2)" "stays r1 r2" using assms(2) by (auto simp: keeps_def)
  with r1 show "\<exists>r2\<in>set (outbox T2). stays r r2" using stays_trans by blast
qed

locale bank_relation =
  fixes B :: "bank \<Rightarrow> bank \<Rightarrow> bool"
  assumes B_refl: "B b b"
    and B_trans: "B b b1 \<Longrightarrow> B b1 b2 \<Longrightarrow> B b b2"
begin

lemma evolves_refl: "evolves B own c d d"
  by (simp add: evolves_def B_refl)

lemma evolves_trans: "evolves B own c d d1 \<Longrightarrow> evolves B own c d1 d2 \<Longrightarrow> evolves B own c d d2"
  unfolding evolves_def Let_def using B_trans keeps_trans by blast

end

sublocale bank_relation \<subseteq> bank: rely "evolves B own c" for own c
  by unfold_locales (rule evolves_refl, rule evolves_trans)

interpretation still: bank_relation "(=)"
  by unfold_locales simp_all

interpretation busy: bank_relation "bank_step\<^sup>*\<^sup>*"
  by unfold_locales simp_all

lemma Pool_set: "Pool c s = Inr p \<Longrightarrow> s \<in> set (Shards c)"
  by (force dest: Pool_Inr)

section \<open>What the statements do to the bank\<close>

lemma owes_simps [simp]:
  "owes [] done x = 0"
  "owes (r # rows) done x = (if ob_target_shard r = fst x \<and> pl_tenant_id (ob_payload r) = snd x \<and> ob_id r \<notin> set done
     then pl_cents (ob_payload r) else 0) + owes rows done x"
  "owes (rows @ [r]) done x = owes rows done x
     + (if ob_target_shard r = fst x \<and> pl_tenant_id (ob_payload r) = snd x \<and> ob_id r \<notin> set done
        then pl_cents (ob_payload r) else 0)"
  by (simp_all add: owes_def)

lemma owes_apply_other: "k \<notin> ob_id ` set rows \<Longrightarrow> owes rows (done @ [k]) x = owes rows done x"
  unfolding owes_def by (intro arg_cong [where f = sum_list] map_cong) auto

lemma owes_apply:
  assumes "r \<in> set rows" and "distinct (map ob_id rows)" and "ob_target_shard r = fst x" and "ob_id r \<notin> set done"
  shows "owes rows (done @ [ob_id r]) x
    = owes rows done x - (if pl_tenant_id (ob_payload r) = snd x then pl_cents (ob_payload r) else 0)"
  using assms(1,2)
proof (induction rows)
  case (Cons a rows)
  show ?case
  proof (cases "a = r")
    case True
    then have "ob_id r \<notin> ob_id ` set rows" using Cons.prems(2) by simp
    then show ?thesis using True assms(3,4) by (simp add: owes_apply_other)
  next
    case False
    then have "r \<in> set rows" "distinct (map ob_id rows)" "ob_id a \<noteq> ob_id r" using Cons.prems by auto
    then show ?thesis using Cons.IH by simp
  qed
qed simp

lemma owes_mark:
  "owes (map (\<lambda>r. if ob_id r = k then r\<lparr>ob_delivered := True\<rparr> else r) rows) done x = owes rows done x"
  unfolding owes_def by (simp add: comp_def if_distrib cong: if_cong)

lemma sum_fun_upd:
  assumes "finite K" and "s \<in> K"
  shows "(\<Sum>i\<in>K. g i ((S(s := T)) i)) = (\<Sum>i\<in>K. g i (S i)) - g s (S s) + (g s T :: int)"
proof -
  have "(\<Sum>i\<in>K - {s}. g i ((S(s := T)) i)) = (\<Sum>i\<in>K - {s}. g i (S i))" by (rule sum.cong) auto
  then show ?thesis using assms by (simp add: sum.remove [OF assms])
qed

lemma go_count_Some: "map_of m k = Some v \<Longrightarrow> go_count m k = v"
  by (simp add: go_count_def)

text \<open>A transfer's transaction moves the money at once in the abstract bank.\<close>

lemma settled_transfer:
  assumes "outboxes_ok own S" and "finite K" and "s \<in> K" and "map_of (ledger (S s)) from = Some b"
    and "k \<notin> ob_id ` set (outbox (S s))" and "own k = s"
    and "T = (S s)\<lparr>ledger := AList.update from (b - cents) (ledger (S s)),
      outbox := outbox (S s) @ [credit_row k dst from to cents]\<rparr>"
  shows "settled K (S(s := T)) = move_money (s, from) (dst, to) cents (settled K S)"
proof
  fix x
  have fresh: "k \<notin> set (applied (S t))" for t
    using assms(1,5,6) by (fastforce simp: outboxes_ok_def outbox_ok_def recorded_def)
  have app: "applied ((S(s := T)) t) = applied (S t)" for t by (simp add: assms(7))
  have "(\<Sum>i\<in>K. owes (outbox ((S(s := T)) i)) (applied (S (fst x))) x)
      = (\<Sum>i\<in>K. owes (outbox (S i)) (applied (S (fst x))) x) + (if x = (dst, to) then cents else 0)"
    using sum_fun_upd [OF assms(2,3), of "\<lambda>i T. owes (outbox T) (applied (S (fst x))) x" S T] fresh [of "fst x"]
    by (cases x) (simp add: assms(7) credit_row_def)
  moreover have "go_count (ledger ((S(s := T)) (fst x))) (snd x)
      = go_count (ledger (S (fst x))) (snd x) - (if x = (s, from) then cents else 0)"
    using assms(4) by (cases x) (auto simp: assms(7) go_count_update go_count_Some)
  ultimately show "settled K (S(s := T)) x = move_money (s, from) (dst, to) cents (settled K S) x"
    unfolding settled_def app by (auto simp: move_money_def settled_def Let_def)
qed

text \<open>Applying an event turns a recorded credit into a ledger balance.\<close>

lemma settled_apply:
  assumes "outboxes_ok own S" and "finite K" and "src \<in> K" and "r \<in> set (outbox (S src))"
    and "ob_id r \<notin> set (applied (S (ob_target_shard r)))"
    and "T = (S (ob_target_shard r))\<lparr>applied := applied (S (ob_target_shard r)) @ [ob_id r],
      ledger := AList.update (pl_tenant_id (ob_payload r))
        (go_count (ledger (S (ob_target_shard r))) (pl_tenant_id (ob_payload r)) + pl_cents (ob_payload r))
        (ledger (S (ob_target_shard r)))\<rparr>"
  shows "settled K (S(ob_target_shard r := T)) = settled K S"
proof
  fix x
  let ?t = "ob_target_shard r" and ?p = "ob_payload r"
  have rows: "outbox ((S(?t := T)) i) = outbox (S i)" for i by (simp add: assms(6))
  have own: "\<forall>r\<in>set (outbox (S i)). own (ob_id r) = i" "distinct (map ob_id (outbox (S i)))" for i
    using assms(1) by (simp_all add: outboxes_ok_def outbox_ok_def)
  show "settled K (S(?t := T)) x = settled K S x"
  proof (cases "fst x = ?t")
    case True
    have other: "owes (outbox (S i)) (applied (S ?t) @ [ob_id r]) x = owes (outbox (S i)) (applied (S ?t)) x"
      if "i \<noteq> src" for i
      using own(1) [of i] own(1) [of src] assms(4) that by (intro owes_apply_other) auto
    have "(\<Sum>i\<in>K. owes (outbox (S i)) (applied (S ?t) @ [ob_id r]) x)
        = (\<Sum>i\<in>K. owes (outbox (S i)) (applied (S ?t)) x) - (if pl_tenant_id ?p = snd x then pl_cents ?p else 0)"
      using owes_apply [OF assms(4) own(2) _ assms(5), of x] True other
      by (simp add: sum.remove [OF assms(2,3)])
    then show ?thesis
      unfolding settled_def rows using True by (simp add: assms(6) go_count_update)
  next
    case False
    then show ?thesis unfolding settled_def rows by simp
  qed
qed

lemma settled_mark:
  "settled K (S(s := (S s)\<lparr>outbox := map (\<lambda>r. if ob_id r = k then r\<lparr>ob_delivered := True\<rparr> else r) (outbox (S s))\<rparr>))
    = settled K S"
proof
  fix x
  let ?S = "S(s := (S s)\<lparr>outbox := map (\<lambda>r. if ob_id r = k then r\<lparr>ob_delivered := True\<rparr> else r) (outbox (S s))\<rparr>)"
  have "owes (outbox (?S i)) a x = owes (outbox (S i)) a x" for i a by (simp add: owes_mark)
  then show "settled K ?S x = settled K S x" by (simp add: settled_def)
qed

section \<open>What the statements do to the invariant\<close>

text \<open>A row added, an event applied, a row marked.\<close>

lemma recorded_keeps: "recorded S src k t \<Longrightarrow> keeps (S src) (S' src) \<Longrightarrow> recorded S' src k t"
  by (fastforce simp: recorded_def keeps_def stays_def)

lemma recorded_upd: "recorded S src k t \<Longrightarrow> keeps (S s) T \<Longrightarrow> recorded (S(s := T)) src k t"
  by (erule recorded_keeps) (simp add: keeps_refl)

lemma keeps_map:
  assumes "outbox T' = map f rows" and "rows = outbox T" and "set (applied T) \<subseteq> set (applied T')" and "\<And>q. stays q (f q)"
  shows "keeps T T'"
  using assms by (auto simp: keeps_def)

lemma outboxes_transfer:
  assumes "outboxes_ok own S" and "k \<notin> ob_id ` set (outbox (S s))" and "own k = s"
    and "applied T = applied (S s)" and "outbox T = outbox (S s) @ [credit_row k dst from to cents]"
  shows "outboxes_ok own (S(s := T))" and "keeps (S s) T"
proof -
  show keeps: "keeps (S s) T" using assms(4,5) by (auto simp: keeps_def intro: stays_refl)
  show "outboxes_ok own (S(s := T))"
  proof (unfold outboxes_ok_def, intro allI)
    fix i
    have ok: "outbox_ok own S j" for j using assms(1) by (simp add: outboxes_ok_def)
    have app: "applied ((S(s := T)) j) = applied (S j)" for j by (simp add: assms(4))
    have "recorded (S(s := T)) (own q) q i" if "q \<in> set (applied (S i))" for q
      by (rule recorded_upd [where S = S and s = s and T = T, OF _ keeps]) (use ok [of i] that in \<open>unfold outbox_ok_def, blast\<close>)
    moreover have "distinct (map ob_id (outbox ((S(s := T)) i)))"
      using ok [of i] ok [of s] assms(2,5) by (auto simp: outbox_ok_def credit_row_def)
    moreover have "own (ob_id r) = i \<and> (ob_delivered r \<longrightarrow> ob_id r \<in> set (applied (S (ob_target_shard r))))"
      if "r \<in> set (outbox ((S(s := T)) i))" for r
    proof (cases "r \<in> set (outbox (S i))")
      case True
      then show ?thesis using ok [of i] by (simp add: outbox_ok_def)
    next
      case False
      then have "i = s" "r = credit_row k dst from to cents" using that assms(5) by (auto split: if_splits)
      then show ?thesis using assms(3) by (simp add: credit_row_def)
    qed
    ultimately show "outbox_ok own (S(s := T)) i" unfolding outbox_ok_def app by blast
  qed
qed

lemma outboxes_apply:
  assumes "outboxes_ok own S" and "r \<in> set (outbox (S src))" and "t = ob_target_shard r"
    and "set (applied T) = insert (ob_id r) (set (applied (S t)))" and "outbox T = outbox (S t)"
  shows "outboxes_ok own (S(t := T))" and "keeps (S t) T"
proof -
  show keeps: "keeps (S t) T" using assms(4,5) by (auto simp: keeps_def intro: stays_refl)
  have ok: "outbox_ok own S j" for j using assms(1) by (simp add: outboxes_ok_def)
  have rows: "outbox ((S(t := T)) j) = outbox (S j)" for j by (simp add: assms(5))
  have rec: "recorded (S(t := T)) a b c = recorded S a b c" for a b c
    unfolding recorded_def rows ..
  have "own (ob_id r) = src" using ok [of src] assms(2) by (simp add: outbox_ok_def)
  then have "recorded S (own (ob_id r)) (ob_id r) t" using assms(2,3) by (auto simp: recorded_def)
  then show "outboxes_ok own (S(t := T))"
    using ok assms(4) unfolding outboxes_ok_def outbox_ok_def rec rows by auto
qed

lemma outboxes_mark:
  assumes "outboxes_ok own S" and "r \<in> set (outbox (S s))" and "ob_id r \<in> set (applied (S (ob_target_shard r)))"
    and "T = (S s)\<lparr>outbox := map (\<lambda>q. if ob_id q = ob_id r then q\<lparr>ob_delivered := True\<rparr> else q) (outbox (S s))\<rparr>"
  shows "outboxes_ok own (S(s := T))" and "keeps (S s) T"
proof -
  have ok: "outbox_ok own S j" for j using assms(1) by (simp add: outboxes_ok_def)
  have app: "applied ((S(s := T)) j) = applied (S j)" for j by (simp add: assms(4))
  have ids: "map ob_id (outbox T) = map ob_id (outbox (S s))" by (simp add: assms(4) comp_def if_distrib cong: if_cong)
  show keeps: "keeps (S s) T" by (rule keeps_map [of T "\<lambda>q. if ob_id q = ob_id r then q\<lparr>ob_delivered := True\<rparr> else q" "outbox (S s)"])
    (simp_all add: assms(4) stays_def)
  have marked: "q = r" if "q \<in> set (outbox (S s))" "ob_id q = ob_id r" for q
    using ok [of s] assms(2) that by (auto simp: outbox_ok_def distinct_map dest: inj_onD)
  show "outboxes_ok own (S(s := T))"
  proof (unfold outboxes_ok_def, intro allI)
    fix i
    have "recorded (S(s := T)) (own q) q i" if "q \<in> set (applied (S i))" for q
      by (rule recorded_upd [where S = S and s = s and T = T, OF _ keeps]) (use ok [of i] that in \<open>unfold outbox_ok_def, blast\<close>)
    moreover have "distinct (map ob_id (outbox ((S(s := T)) i)))"
      using ok [of i] ids by (cases "i = s") (simp_all add: outbox_ok_def)
    moreover have "own (ob_id q) = i \<and> (ob_delivered q \<longrightarrow> ob_id q \<in> set (applied (S (ob_target_shard q))))"
      if q: "q \<in> set (outbox ((S(s := T)) i))" for q
    proof -
      have "q \<in> set (outbox (S i)) \<or> (i = s \<and> q = r\<lparr>ob_delivered := True\<rparr>)"
        using q marked by (auto simp: assms(4) split: if_splits)
      then show ?thesis
      proof
        assume "q \<in> set (outbox (S i))"
        then show ?thesis using ok [of i] unfolding outbox_ok_def by blast
      next
        assume "i = s \<and> q = r\<lparr>ob_delivered := True\<rparr>"
        moreover have "own (ob_id r) = s" using ok [of s] assms(2) unfolding outbox_ok_def by blast
        ultimately show ?thesis using assms(3) by simp
      qed
    qed
    ultimately show "outbox_ok own (S(s := T)) i" unfolding outbox_ok_def app by blast
  qed
qed

section \<open>The programs\<close>

lemma evolves_update:
  assumes "wf_cluster c" and "Pool c s = Inr p"
    and "outboxes_ok own (tables_of c d) \<Longrightarrow> outboxes_ok own ((tables_of c d)(s := tabs n))
      \<and> B (settled (set (Shards c)) (tables_of c d)) (settled (set (Shards c)) ((tables_of c d)(s := tabs n)))
      \<and> keeps (tables_of c d s) (tabs n)"
  shows "evolves B own c d (d(p_dsn p := n))"
  unfolding evolves_def Let_def tables_of_update [OF assms(1,2)] using assms(3) by auto

lemma transfer_tx_Done:
  assumes "transfer_tx src dst k from to cents (T, es) = (Done (Inr u), T', es')"
  shows "\<exists>b. map_of (ledger T) from = Some b \<and> cents \<le> b \<and> k \<notin> ob_id ` set (outbox T)
    \<and> T' = T\<lparr>ledger := AList.update from (b - cents) (ledger T), outbox := outbox T @ [credit_row k dst from to cents]\<rparr>"
  using assms
  by (auto simp: transfer_tx_def Let_def tx_try_def tx_bind_def tx_stmt_def tx_ret_def sql_debit_def
      sql_insert_outbox_def credit_row_def split: list.splits if_splits option.splits sum.splits)

lemma tx_frame_transfer: "tx_frame (transfer_tx src dst k from to cents)"
  unfolding transfer_tx_def Let_def
  by (intro wf_intros) (auto intro!: wf_intros split: option.splits)

lemma apply_event_Done:
  assumes "apply_event e (T, es) = (Done (Inr u), T', es')"
  shows "(ob_id e \<in> set (applied T) \<and> T' = T) \<or> (ob_id e \<notin> set (applied T)
    \<and> T' = T\<lparr>applied := applied T @ [ob_id e],
        ledger := AList.update (pl_tenant_id (ob_payload e))
          (go_count (ledger T) (pl_tenant_id (ob_payload e)) + pl_cents (ob_payload e)) (ledger T)\<rparr>)"
  using assms
  by (auto simp: apply_event_def Let_def tx_try_def tx_bind_def tx_stmt_def tx_ret_def sql_insert_applied_def
      sql_credit_def split: list.splits if_splits sum.splits)

lemma tx_frame_apply: "tx_frame (apply_event e)"
  unfolding apply_event_def by (intro wf_intros) (auto intro!: wf_intros)

text \<open>The effect of a transfer's transaction, and that it is one step of the bank.\<close>

lemma transfer_effect:
  assumes "wf_cluster c" and "Pool c s = Inr p" and "own k = s" and "outboxes_ok own (tables_of c d)"
    and "transfer_tx s dst k from to cents (tabs (d (p_dsn p)), es) = (Done (Inr u), T, es')"
  shows "outboxes_ok own ((tables_of c d)(s := T))" and "keeps (tables_of c d s) T"
    and "settled (set (Shards c)) ((tables_of c d)(s := T))
      = move_money (s, from) (dst, to) cents (settled (set (Shards c)) (tables_of c d))"
proof -
  let ?S = "tables_of c d"
  obtain b where b: "map_of (ledger (?S s)) from = Some b" "k \<notin> ob_id ` set (outbox (?S s))"
    and T: "T = (?S s)\<lparr>ledger := AList.update from (b - cents) (ledger (?S s)),
      outbox := outbox (?S s) @ [credit_row k dst from to cents]\<rparr>"
    using transfer_tx_Done [OF assms(5)] unfolding tables_of_node [OF assms(2)] by blast
  have "applied T = applied (?S s)" "outbox T = outbox (?S s) @ [credit_row k dst from to cents]" by (simp_all add: T)
  from outboxes_transfer [OF assms(4) b(2) assms(3) this]
  show "outboxes_ok own (?S(s := T))" and "keeps (?S s) T" .
  show "settled (set (Shards c)) (?S(s := T)) = move_money (s, from) (dst, to) cents (settled (set (Shards c)) ?S)"
    by (rule settled_transfer [OF assms(4) _ Pool_set [OF assms(2)] b assms(3) T]) simp
qed

lemma guar_Transfer:
  assumes "wf_cluster c" and "\<And>s. RouteRead (topo c) from = Inr s \<Longrightarrow> own k = s"
  shows "guar (evolves bank_step\<^sup>*\<^sup>* own c) (Transfer c k from to cents)"
proof (cases "RouteRead (topo c) from")
  case (Inr s)
  show ?thesis
  proof (cases "Pool c s")
    case (Inr p)
    have "guar (evolves bank_step\<^sup>*\<^sup>* own c) (begin_func p (transfer_tx s dst k from to cents))" for dst
    proof (rule busy.bank.guar_begin_func [OF tx_frame_transfer])
      fix d :: db and es u T es'
      assume body: "transfer_tx s dst k from to cents (tabs (d (p_dsn p)), es) = (Done (Inr u), T, es')"
      note eff = transfer_effect [where own = own and k = k and d = d, OF assms(1) Inr assms(2) [OF \<open>RouteRead (topo c) from = Inr s\<close>] _ body]
      show "evolves bank_step\<^sup>*\<^sup>* own c d (d(p_dsn p := (d (p_dsn p))\<lparr>tabs := T\<rparr>))"
        by (rule evolves_update [OF assms(1) Inr]) (use eff bank_step_move in auto)
    qed
    then show ?thesis
      using \<open>RouteRead (topo c) from = Inr s\<close> Inr
      by (cases "RouteRead (topo c) to") (simp_all add: Transfer_def ReadPool_def busy.bank.guar_panic bind_io_def)
  qed (use Inr in \<open>simp add: Transfer_def ReadPool_def guar_def busy.evolves_refl\<close>)
qed (simp add: Transfer_def ReadPool_def guar_def bind_io_def busy.evolves_refl)

text \<open>The record of an event on its source shard, and that it is marked delivered.\<close>

definition on_record :: "cluster \<Rightarrow> int \<Rightarrow> outbox_row \<Rightarrow> db \<Rightarrow> bool" where
  "on_record c src e d \<longleftrightarrow> (\<exists>r\<in>set (outbox (tables_of c d src)). stays (e\<lparr>ob_delivered := False\<rparr>) r)"

definition marked :: "cluster \<Rightarrow> int \<Rightarrow> int \<Rightarrow> db \<Rightarrow> bool" where
  "marked c src k d \<longleftrightarrow> (\<exists>r\<in>set (outbox (tables_of c d src)). ob_id r = k \<and> ob_delivered r)"

definition outbox_inv :: "(int \<Rightarrow> int) \<Rightarrow> cluster \<Rightarrow> db \<Rightarrow> bool" where
  "outbox_inv own c d \<longleftrightarrow> outboxes_ok own (tables_of c d)"

lemma evolves_inv: "evolves B own c d d' \<Longrightarrow> outbox_inv own c d \<Longrightarrow> outbox_inv own c d'"
  by (simp add: evolves_def outbox_inv_def Let_def)

lemma evolves_keeps: "evolves B own c d d' \<Longrightarrow> outbox_inv own c d \<Longrightarrow> keeps (tables_of c d s) (tables_of c d' s)"
  by (simp add: evolves_def outbox_inv_def Let_def)

lemma keeps_applied: "keeps T T' \<Longrightarrow> k \<in> set (applied T) \<Longrightarrow> k \<in> set (applied T')"
  by (auto simp: keeps_def)

lemma keeps_row:
  assumes "keeps T T'" and "r \<in> set (outbox T)"
  obtains r' where "r' \<in> set (outbox T')" and "stays r r'"
  using assms by (auto simp: keeps_def)

lemma on_record_keeps:
  assumes "keeps (tables_of c d src) (tables_of c d' src)" and "on_record c src e d"
  shows "on_record c src e d'"
  using assms stays_trans unfolding on_record_def by (blast elim: keeps_row)

lemma marked_keeps:
  assumes "keeps (tables_of c d src) (tables_of c d' src)" and "marked c src k d"
  shows "marked c src k d'"
proof -
  obtain r where "r \<in> set (outbox (tables_of c d src))" "ob_id r = k" "ob_delivered r"
    using assms(2) by (auto simp: marked_def)
  then show ?thesis using keeps_row [OF assms(1)] unfolding marked_def stays_def by metis
qed

text \<open>While the relay works on the events \<open>rest\<close>, having delivered \<open>n\<close>.\<close>

definition relay_state :: "(int \<Rightarrow> int) \<Rightarrow> cluster \<Rightarrow> int \<Rightarrow> outbox_row list \<Rightarrow> int \<Rightarrow> db \<Rightarrow> bool" where
  "relay_state own c src rest n d \<longleftrightarrow> outbox_inv own c d \<and> (\<forall>e\<in>set rest. on_record c src e d)
     \<and> (\<exists>ks. distinct (ks @ map ob_id rest) \<and> int (length ks) = n \<and> (\<forall>k\<in>set ks. marked c src k d))"

lemma relay_state_evolves:
  assumes "evolves B own c d d'" and "relay_state own c src rest n d"
  shows "relay_state own c src rest n d'"
proof -
  have inv: "outbox_inv own c d" using assms(2) by (simp add: relay_state_def)
  have keeps: "keeps (tables_of c d src) (tables_of c d' src)" by (rule evolves_keeps [OF assms(1) inv])
  show ?thesis
    using assms(2) evolves_inv [OF assms(1) inv] on_record_keeps [OF keeps] marked_keeps [OF keeps]
    unfolding relay_state_def by blast
qed

lemma relay_state_less: "relay_state own c src (e # rest) n d \<Longrightarrow> relay_state own c src rest n d"
  unfolding relay_state_def by (auto intro: exI)

lemma relay_state_marked:
  assumes "relay_state own c src (e # rest) n d" and "marked c src (ob_id e) d"
  shows "relay_state own c src rest (n + 1) d"
proof -
  obtain ks where ks: "distinct (ks @ map ob_id (e # rest))" "int (length ks) = n" "\<forall>k\<in>set ks. marked c src k d"
    using assms(1) by (auto simp: relay_state_def)
  then have "distinct ((ks @ [ob_id e]) @ map ob_id rest)" "int (length (ks @ [ob_id e])) = n + 1"
    "\<forall>k\<in>set (ks @ [ob_id e]). marked c src k d" using assms(2) by auto
  moreover have "outbox_inv own c d" "\<forall>e\<in>set rest. on_record c src e d" using assms(1) by (auto simp: relay_state_def)
  ultimately show ?thesis unfolding relay_state_def by blast
qed

lemma on_record_row:
  assumes "on_record c src e d"
  obtains r where "r \<in> set (outbox (tables_of c d src))" and "ob_id r = ob_id e"
    and "ob_target_shard r = ob_target_shard e" and "ob_payload r = ob_payload e"
  using assms by (auto simp: on_record_def stays_def)

lemma apply_effect:
  assumes "Pool c (ob_target_shard e) = Inr p" and "Pool c src = Inr q"
    and "outbox_inv own c d" and "on_record c src e d"
    and "apply_event e (tabs (d (p_dsn p)), es) = (Done (Inr u), T, es')"
  shows "outboxes_ok own ((tables_of c d)(ob_target_shard e := T))"
    and "keeps (tables_of c d (ob_target_shard e)) T"
    and "settled (set (Shards c)) ((tables_of c d)(ob_target_shard e := T)) = settled (set (Shards c)) (tables_of c d)"
    and "ob_id e \<in> set (applied T)"
proof -
  let ?S = "tables_of c d" and ?t = "ob_target_shard e"
  have ok: "outboxes_ok own ?S" using assms(3) by (simp add: outbox_inv_def)
  obtain r where r: "r \<in> set (outbox (?S src))" "ob_id r = ob_id e" "ob_target_shard r = ?t" "ob_payload r = ob_payload e"
    using on_record_row [OF assms(4)] by blast
  note cases = apply_event_Done [OF assms(5), unfolded tables_of_node [OF assms(1)]]
  have T: "set (applied T) = insert (ob_id r) (set (applied (?S ?t)))" "outbox T = outbox (?S ?t)"
    using cases r(2) by auto
  from outboxes_apply [OF ok r(1) r(3) [symmetric] T]
  show "outboxes_ok own (?S(?t := T))" and "keeps (?S ?t) T" .
  show "ob_id e \<in> set (applied T)" using T(1) r(2) by simp
  show "settled (set (Shards c)) (?S(?t := T)) = settled (set (Shards c)) ?S"
  proof (cases "ob_id e \<in> set (applied (?S ?t))")
    case True
    then have "?S(?t := T) = ?S" using cases by auto
    then show ?thesis by simp
  next
    case False
    have "settled (set (Shards c)) (?S(ob_target_shard r := T)) = settled (set (Shards c)) ?S"
      by (rule settled_apply [OF ok _ Pool_set [OF assms(2)] r(1)]) (use False cases r(2-4) in simp_all)
    then show ?thesis unfolding r(3) .
  qed
qed

lemma mark_effect:
  assumes "Pool c src = Inr p" and "outbox_inv own c d" and "on_record c src e d"
    and "ob_id e \<in> set (applied (tables_of c d (ob_target_shard e)))"
    and "sql_mark_delivered (ob_id e) t (d (p_dsn p)) = Inr (u, n)"
  shows "outboxes_ok own ((tables_of c d)(src := tabs n))" and "keeps (tables_of c d src) (tabs n)"
    and "settled (set (Shards c)) ((tables_of c d)(src := tabs n)) = settled (set (Shards c)) (tables_of c d)"
    and "\<exists>r\<in>set (outbox (tabs n)). ob_id r = ob_id e \<and> ob_delivered r"
proof -
  let ?S = "tables_of c d"
  obtain r where r: "r \<in> set (outbox (?S src))" "ob_id r = ob_id e" "ob_target_shard r = ob_target_shard e"
    using on_record_row [OF assms(3)] by blast
  have n: "tabs n = (?S src)\<lparr>outbox := map (\<lambda>q. if ob_id q = ob_id r then q\<lparr>ob_delivered := True\<rparr> else q) (outbox (?S src))\<rparr>"
    using assms(5) by (auto simp: sql_mark_delivered_def tables_of_node [OF assms(1)] r(2))
  have "outboxes_ok own ?S" "ob_id r \<in> set (applied (?S (ob_target_shard r)))"
    using assms(2,4) r(2,3) by (simp_all add: outbox_inv_def)
  from outboxes_mark [OF this(1) r(1) this(2) n]
  show "outboxes_ok own (?S(src := tabs n))" and "keeps (?S src) (tabs n)" .
  show "settled (set (Shards c)) (?S(src := tabs n)) = settled (set (Shards c)) ?S"
    unfolding n by (rule settled_mark)
  have "r\<lparr>ob_delivered := True\<rparr> \<in> set (outbox (tabs n))" using r(1) unfolding n by force
  then show "\<exists>r\<in>set (outbox (tabs n)). ob_id r = ob_id e \<and> ob_delivered r" by (rule bexI [rotated]) (simp add: r(2))
qed

lemma relay_start:
  assumes "Pool c src = Inr p" and "outbox_inv own c d" and "sql_pending batch (d (p_dsn p)) = Inr rows"
  shows "relay_state own c src rows 0 d"
proof -
  let ?sorted = "sort_key ob_id (filter (\<lambda>r. \<not> ob_delivered r) (outbox (tables_of c d src)))"
  have rows: "rows = take (nat batch) ?sorted"
    using assms(3) by (auto simp: sql_pending_def tables_of_node [OF assms(1)] split: if_splits)
  have "on_record c src e d" if "e \<in> set rows" for e
    using that by (auto simp: rows on_record_def stays_def dest!: in_set_takeD)
  moreover have "distinct (map ob_id rows)"
  proof -
    have "distinct (map ob_id (outbox (tables_of c d src)))"
      using assms(2) by (simp add: outbox_inv_def outboxes_ok_def outbox_ok_def)
    then have "distinct (map ob_id ?sorted)" by (simp add: distinct_map inj_on_subset subset_iff inj_on_def)
    then show ?thesis unfolding rows by (simp only: take_map [symmetric] distinct_take)
  qed
  ultimately show ?thesis using assms(2) by (auto simp: relay_state_def)
qed

text \<open>The relay under any bank relation: its statements leave the bank alone.\<close>

context bank_relation
begin

lemma relay_stable: "stable (evolves B own c) (relay_state own c src rest n)"
  using relay_state_evolves by (auto simp: stable_def)

lemma applied_stable:
  "stable (evolves B own c) (\<lambda>d. relay_state own c src rest n d \<and> k \<in> set (applied (tables_of c d t)))"
proof (unfold stable_def, intro allI impI)
  fix d d' assume e: "evolves B own c d d'" and p: "relay_state own c src rest n d \<and> k \<in> set (applied (tables_of c d t))"
  then have "keeps (tables_of c d t) (tables_of c d' t)" by (intro evolves_keeps [OF e]) (simp add: relay_state_def)
  then show "relay_state own c src rest n d' \<and> k \<in> set (applied (tables_of c d' t))"
    using p relay_state_evolves [OF e] keeps_applied by blast
qed

lemma triple_apply:
  assumes "wf_cluster c" and "Pool c (ob_target_shard e) = Inr p" and "Pool c src = Inr q"
  shows "triple (evolves B own c) (relay_state own c src (e # rest) n) (begin_func p (apply_event e))
    (\<lambda>r d. relay_state own c src (e # rest) n d
      \<and> (\<forall>u. r = Inr u \<longrightarrow> ob_id e \<in> set (applied (tables_of c d (ob_target_shard e)))))"
proof (rule bank.triple_begin_func [OF relay_stable tx_frame_apply])
  fix d :: db and es u T es'
  assume P: "relay_state own c src (e # rest) n d" and body: "apply_event e (tabs (d (p_dsn p)), es) = (Done (Inr u), T, es')"
  let ?d = "d(p_dsn p := (d (p_dsn p))\<lparr>tabs := T\<rparr>)"
  have "outbox_inv own c d" "on_record c src e d" using P by (simp_all add: relay_state_def)
  note eff = apply_effect [OF assms(2,3) this body]
  have evolves: "evolves B own c d ?d"
    by (rule evolves_update [OF assms(1,2)]) (use eff B_refl in auto)
  moreover have "ob_id e \<in> set (applied (tables_of c ?d (ob_target_shard e)))"
    unfolding tables_of_update [OF assms(1,2)] using eff(4) by simp
  ultimately show "let d' = ?d in evolves B own c d d'
      \<and> (relay_state own c src (e # rest) n d' \<and> (\<forall>v. Inr u = Inr v \<longrightarrow> ob_id e \<in> set (applied (tables_of c d' (ob_target_shard e)))))
      \<and> (relay_state own c src (e # rest) n d' \<and> (\<forall>v. Inl EDriver = Inr v \<longrightarrow> ob_id e \<in> set (applied (tables_of c d' (ob_target_shard e)))))"
    using relay_state_evolves [OF evolves P] by (simp add: Let_def)
qed simp

lemma triple_mark:
  assumes "wf_cluster c" and "Pool c src = Inr p"
  shows "triple (evolves B own c)
    (\<lambda>d. relay_state own c src (e # rest) n d \<and> ob_id e \<in> set (applied (tables_of c d (ob_target_shard e))))
    (round_trip p (sql_mark_delivered (ob_id e)))
    (\<lambda>r d. relay_state own c src rest n d \<and> (\<forall>u. r = Inr u \<longrightarrow> relay_state own c src rest (n + 1) d))"
proof (rule bank.triple_round_trip [OF applied_stable])
  fix t u m and d :: db
  assume P: "relay_state own c src (e # rest) n d \<and> ob_id e \<in> set (applied (tables_of c d (ob_target_shard e)))"
    and stmt: "sql_mark_delivered (ob_id e) t (d (p_dsn p)) = Inr (u, m)"
  let ?d = "d(p_dsn p := m)"
  have "outbox_inv own c d" "on_record c src e d" using P by (simp_all add: relay_state_def)
  note eff = mark_effect [OF assms(2) this conjunct2 [OF P] stmt]
  have evolves: "evolves B own c d ?d"
    by (rule evolves_update [OF assms]) (use eff B_refl in auto)
  have state: "relay_state own c src (e # rest) n ?d" using relay_state_evolves [OF evolves] P by blast
  have "marked c src (ob_id e) ?d"
    unfolding marked_def tables_of_update [OF assms] using eff(4) by simp
  with state have "relay_state own c src rest (n + 1) ?d" by (rule relay_state_marked)
  then show "evolves B own c d ?d
      \<and> (relay_state own c src rest n ?d \<and> (\<forall>v. Inr u = Inr v \<longrightarrow> relay_state own c src rest (n + 1) ?d))
      \<and> (relay_state own c src rest n ?d \<and> (\<forall>v. Inl EDriver = Inr v \<longrightarrow> relay_state own c src rest (n + 1) ?d))"
    using evolves relay_state_less [OF state] by simp
qed (use relay_state_less in auto)

lemma triple_relay_event:
  assumes "wf_cluster c" and "Pool c src = Inr p"
  shows "triple (evolves B own c) (relay_state own c src (e # rest) n) (relay_event c p e n)
    (\<lambda>r d. case r of Inl (k, err) \<Rightarrow> relay_state own c src [] k d | Inr k \<Rightarrow> relay_state own c src rest k d)"
proof -
  have stop: "relay_state own c src xs n d \<Longrightarrow> relay_state own c src [] n d" for xs d
    unfolding relay_state_def by auto
  show ?thesis
  proof (cases "Pool c (ob_target_shard e)")
    case (Inl err)
    then show ?thesis unfolding relay_event_def by (simp del: ret_simp) (rule bank.triple_ret, auto intro: stop)
  next
    case (Inr q)
    show ?thesis
      unfolding relay_event_def Inr sum.case
      by (rule bank.triple_try [OF triple_apply [OF assms(1) Inr assms(2)]],
          rule bank.triple_ret, use stop in force,
          rule bank.triple_try [OF triple_weaken [OF triple_mark [OF assms]]], force, assumption,
          (rule bank.triple_ret, use stop in force)+)
  qed
qed

lemma triple_RelayOnce:
  assumes "wf_cluster c"
  shows "triple (evolves B own c) (outbox_inv own c) (RelayOnce c src batch)
    (\<lambda>(n, err) d. relay_state own c src [] n d)"
proof (cases "Pool c src")
  case (Inl e)
  then show ?thesis
    unfolding RelayOnce_def by (simp del: ret_simp) (rule bank.triple_ret, simp add: relay_state_def)
next
  case (Inr p)
  have stable: "stable (evolves B own c) (outbox_inv own c)"
    using evolves_inv by (auto simp: stable_def)
  have query: "triple (evolves B own c) (outbox_inv own c) (query_rows p (sql_pending batch))
      (\<lambda>r d. outbox_inv own c d \<and> (\<forall>rows. r = Inr (rows, None) \<longrightarrow> relay_state own c src rows 0 d))"
    by (rule bank.triple_query_rows [OF stable]) (use relay_start [OF Inr] in auto)
  have loop: "triple (evolves B own c) (relay_state own c src evs 0) (for_io (relay_event c p) evs 0)
      (\<lambda>r d. case r of Inl (k, err) \<Rightarrow> relay_state own c src [] k d | Inr k \<Rightarrow> relay_state own c src [] k d)" for evs
    by (rule bank.triple_for [where I = "relay_state own c src", OF triple_weaken [OF triple_relay_event [OF assms Inr]]])
      (auto split: sum.splits)
  show ?thesis
    unfolding RelayOnce_def Inr sum.case
  proof (rule bank.triple_try [OF query])
    show "triple (evolves B own c) (\<lambda>d. outbox_inv own c d \<and> (\<forall>rows. Inl e = Inr (rows, None) \<longrightarrow> relay_state own c src rows 0 d))
        (ret (0, Some e)) (\<lambda>(n, err) d. relay_state own c src [] n d)" for e
      by (rule bank.triple_ret) (simp add: relay_state_def)
    fix x :: "outbox_row list \<times> gerr option"
    obtain evs err where x: "x = (evs, err)" by (cases x)
    show "triple (evolves B own c) (\<lambda>d. outbox_inv own c d \<and> (\<forall>rows. Inr x = Inr (rows, None) \<longrightarrow> relay_state own c src rows 0 d))
        (case x of (evs, Some e) \<Rightarrow> ret (0, Some e)
         | (evs, None) \<Rightarrow> try_io (for_io (relay_event c p) evs 0) (\<lambda>(delivered, e). ret (delivered, Some e))
             (\<lambda>delivered. ret (delivered, None))) (\<lambda>(n, err) d. relay_state own c src [] n d)"
    proof (cases err)
      case None
      show ?thesis
        unfolding x None prod.case option.case
      proof (rule bank.triple_try [OF triple_weaken [OF loop]], blast, assumption)
        show "triple (evolves B own c) (\<lambda>d. case Inl e of Inl (k, err) \<Rightarrow> relay_state own c src [] k d | Inr k \<Rightarrow> relay_state own c src [] k d)
            (case e of (delivered, e) \<Rightarrow> ret (delivered, Some e)) (\<lambda>(n, err) d. relay_state own c src [] n d)" for e :: "int \<times> gerr"
          by (cases e) (simp del: ret_simp, rule bank.triple_ret, simp)
        show "triple (evolves B own c) (\<lambda>d. case Inr n of Inl (k, err) \<Rightarrow> relay_state own c src [] k d | Inr k \<Rightarrow> relay_state own c src [] k d)
            (ret (n, None)) (\<lambda>(n, err) d. relay_state own c src [] n d)" for n :: int
          by (rule bank.triple_ret) simp
      qed
    next
      case (Some e)
      show ?thesis
        unfolding x Some prod.case option.case by (rule bank.triple_ret) (simp add: relay_state_def)
    qed
  qed
qed

end

section \<open>A transfer on its own\<close>

text \<open>What a local transaction leaves, with no other client at work.\<close>

lemma begin_func_quiet:
  assumes "moves_in (=) (script w)" and "begin_func p body w = (r, w')"
  shows "(\<exists>x es T es'. body (tabs (nodes w (p_dsn p)), es) = (Done (Inr x), T, es')
        \<and> nodes w' = (nodes w)(p_dsn p := (nodes w (p_dsn p))\<lparr>tabs := T\<rparr>) \<and> (r = Done (Inr x) \<or> r = Done (Inl EDriver)))
    \<or> (nodes w' = nodes w \<and> (r = Killed \<or> r = Done (Inl EDriver)
        \<or> (\<exists>es r' T es'. body (tabs (nodes w (p_dsn p)), es) = (r', T, es')
             \<and> ((\<exists>q. r' = Panicked q \<and> r = Panicked q) \<or> (\<exists>e. r' = Done (Inl e) \<and> r = Done (Inl e))))))"
proof (cases "script w")
  case (Cons b es)
  have quiet: "ev_move b (nodes w) = nodes w" using assms(1) Cons by simp
  obtain o1 T es1 where body: "body (tabs (nodes w (p_dsn p)), es) = (o1, T, es1)" by (metis prod_cases3)
  show ?thesis
  proof (cases "ev_reply b = Ack")
    case True
    note run = assms(2) [unfolded begin_func_def Let_def, simplified Cons list.case, simplified quiet True body, simplified]
    show ?thesis
    proof (cases o1)
      case (Done v)
      show ?thesis
      proof (cases es1)
        case (Cons e es2)
        show ?thesis
        proof (cases v)
          case (Inl e)
          then have "nodes w' = nodes w" "r = Done (Inl e)" using run Done Cons by auto
          then show ?thesis using body Done Inl by blast
        next
          case (Inr x)
          show ?thesis
          proof (cases "ev_reply e = Nack")
            case False
            then have "nodes w' = (nodes w)(p_dsn p := (nodes w (p_dsn p))\<lparr>tabs := T\<rparr>)" "r = Done (Inr x) \<or> r = Done (Inl EDriver)"
              using run Done Cons Inr by (auto split: if_splits)
            then show ?thesis using body Done Inr by blast
          qed (use run Done Cons Inr in auto)
        qed
      qed (use run Done in auto)
    next
      case (Panicked q)
      then have "nodes w' = nodes w" "r = Panicked q" using run by auto
      then show ?thesis using body Panicked by blast
    qed (use run in auto)
  qed (use assms(2) Cons quiet in \<open>auto simp: begin_func_def Let_def\<close>)
qed (use assms(2) in \<open>auto simp: begin_func_def\<close>)

text \<open>The errors of a transfer's transaction and what each one says of the tables.\<close>

definition debit_err :: "u64 \<Rightarrow> int \<Rightarrow> gerr \<Rightarrow> gerr" where
  "debit_err from s e = EAt (''debit tenant '' @ fmt_d (uint from) @ '' on shard'') s e"

definition transfer_error :: "tables \<Rightarrow> int \<Rightarrow> int \<Rightarrow> u64 \<Rightarrow> int \<Rightarrow> gerr \<Rightarrow> bool" where
  "transfer_error T s k from cents e \<longleftrightarrow> e = EDriver \<or> e = debit_err from s EDriver
     \<or> (e = ESql UniqueViolation \<and> k \<in> ob_id ` set (outbox T))
     \<or> (e = debit_err from s ENoRows \<and> (\<forall>b. map_of (ledger T) from = Some b \<longrightarrow> b < cents))
     \<or> (e = debit_err from s (ESql NumericOutOfRange)
         \<and> (\<exists>b. map_of (ledger T) from = Some b \<and> cents \<le> b \<and> \<not> in_bigint (b - cents)))"

lemma transfer_tx_error:
  assumes "transfer_tx s dst k from to cents (T, es) = (Done (Inl e), T', es')"
  shows "transfer_error T s k from cents e"
  using assms
  by (auto simp: transfer_tx_def Let_def tx_try_def tx_bind_def tx_stmt_def tx_ret_def sql_debit_def transfer_error_def
      sql_insert_outbox_def credit_row_def debit_err_def split: list.splits if_splits option.splits sum.splits)

lemma transfer_tx_panic: "transfer_tx s dst k from to cents (T, es) \<noteq> (Panicked q, x)"
  by (auto simp: transfer_tx_def Let_def tx_try_def tx_bind_def tx_stmt_def tx_ret_def
      split: list.splits if_splits option.splits sum.splits)

lemma Transfer_run:
  assumes "RouteRead (topo c) from = Inr s" and "RouteRead (topo c) to = Inr dst"
  shows "Transfer c k from to cents = (case Pool c s of Inl e \<Rightarrow> ret (Inl e)
    | Inr p \<Rightarrow> begin_func p (transfer_tx s dst k from to cents))"
  using assms by (simp add: Transfer_def ReadPool_def ret_def split: sum.split)

lemma Transfer_quiet:
  assumes "wf_cluster c" and "outbox_inv own c (nodes w)" and "own k = s"
    and "RouteRead (topo c) from = Inr s" and "RouteRead (topo c) to = Inr dst"
    and "moves_in (=) (script w)" and "Transfer c k from to cents w = (r, w')"
  shows "outbox_inv own c (nodes w') \<and>
     ((settled (set (Shards c)) (tables_of c (nodes w'))
          = move_money (s, from) (dst, to) cents (settled (set (Shards c)) (tables_of c (nodes w)))
        \<and> (\<exists>b. map_of (ledger (tables_of c (nodes w) s)) from = Some b \<and> cents \<le> b) \<and> (r = Done (Inr ()) \<or> r = Done (Inl EDriver)))
      \<or> (nodes w' = nodes w \<and> (r = Killed \<or> r = Done (Inl (ENoPool s))
          \<or> (\<exists>e. r = Done (Inl e) \<and> transfer_error (tables_of c (nodes w) s) s k from cents e))))"
proof -
  let ?S = "tables_of c (nodes w)" and ?tx = "transfer_tx s dst k from to cents"
  show ?thesis
  proof (cases "Pool c s")
    case (Inl e)
    then show ?thesis
      using assms(2,7) Pool_Inl [OF Inl] by (simp add: Transfer_run [OF assms(4,5)])
  next
    case (Inr p)
    have "begin_func p ?tx w = (r, w')" using assms(7) Inr by (simp add: Transfer_run [OF assms(4,5)])
    note run = begin_func_quiet [OF assms(6) this]
    have committed: ?thesis
      if body: "?tx (tabs (nodes w (p_dsn p)), es) = (Done (Inr u), T, es')"
        and n: "nodes w' = (nodes w)(p_dsn p := (nodes w (p_dsn p))\<lparr>tabs := T\<rparr>)"
        and r: "r = Done (Inr u) \<or> r = Done (Inl EDriver)" for u es T es'
    proof -
      note eff = transfer_effect [where own = own and k = k and d = "nodes w", OF assms(1) Inr assms(3) assms(2) [unfolded outbox_inv_def] body]
      have S': "tables_of c (nodes w') = ?S(s := T)" unfolding n tables_of_update [OF assms(1) Inr] by simp
      show ?thesis
        using eff r transfer_tx_Done [OF body] unfolding outbox_inv_def S' tables_of_node [OF Inr] by auto
    qed
    from run show ?thesis
    proof (elim disjE exE conjE)
      fix u es T es'
      assume "?tx (tabs (nodes w (p_dsn p)), es) = (Done (Inr u), T, es')" "r = Done (Inr u)"
        "nodes w' = (nodes w)(p_dsn p := (nodes w (p_dsn p))\<lparr>tabs := T\<rparr>)"
      then show ?thesis using committed by blast
    next
      fix u es T es'
      assume "?tx (tabs (nodes w (p_dsn p)), es) = (Done (Inr u), T, es')" "r = Done (Inl EDriver)"
        "nodes w' = (nodes w)(p_dsn p := (nodes w (p_dsn p))\<lparr>tabs := T\<rparr>)"
      then show ?thesis using committed by blast
    next
      assume "nodes w' = nodes w" "r = Killed"
      then show ?thesis using assms(2) by simp
    next
      assume "nodes w' = nodes w" "r = Done (Inl EDriver)"
      then show ?thesis using assms(2) by (simp add: transfer_error_def)
    next
      fix es r' T es' q
      assume "?tx (tabs (nodes w (p_dsn p)), es) = (r', T, es')" "r' = Panicked q" "nodes w' = nodes w" "r = Panicked q"
      then show ?thesis using transfer_tx_panic by metis
    next
      fix es r' T es' e
      assume body: "?tx (tabs (nodes w (p_dsn p)), es) = (r', T, es')" and r': "r' = Done (Inl e)" and "r = Done (Inl e)" "nodes w' = nodes w"
      then show ?thesis
        using transfer_tx_error [OF body [unfolded r' tables_of_node [OF Inr]]] assms(2) by simp
    qed
  qed
qed

section \<open>The relay in fair weather\<close>

definition all_calm :: "nat \<Rightarrow> world \<Rightarrow> bool" where
  "all_calm k w \<longleftrightarrow> (\<exists>ts. script w = map calm ts \<and> k \<le> length ts)"

definition pending_rows :: "tables \<Rightarrow> outbox_row list" where
  "pending_rows T = filter (\<lambda>r. \<not> ob_delivered r) (outbox T)"

text \<open>Amounts are not negative and no account can leave the range of \<open>bigint\<close>.\<close>

definition amounts_ok :: "cluster \<Rightarrow> db \<Rightarrow> bool" where
  "amounts_ok c d \<longleftrightarrow> (\<forall>s. \<forall>r\<in>set (outbox (tables_of c d s)). 0 \<le> pl_cents (ob_payload r))
     \<and> (\<forall>s t. 0 \<le> go_count (ledger (tables_of c d s)) t)
     \<and> (\<forall>x. in_bigint (settled (set (Shards c)) (tables_of c d) x))"

lemma owes_nonneg: "(\<And>r. r \<in> set rows \<Longrightarrow> 0 \<le> pl_cents (ob_payload r)) \<Longrightarrow> 0 \<le> owes rows done x"
  unfolding owes_def by (rule sum_list_nonneg) auto

lemma owes_member:
  assumes "\<And>r. r \<in> set rows \<Longrightarrow> 0 \<le> pl_cents (ob_payload r)" and "r \<in> set rows" and "ob_id r \<notin> set done"
  shows "pl_cents (ob_payload r) \<le> owes rows done (ob_target_shard r, pl_tenant_id (ob_payload r))"
  using assms
proof (induction rows)
  case (Cons a rows)
  show ?case
  proof (cases "a = r")
    case True
    then show ?thesis using Cons.prems owes_nonneg [of rows] by simp
  next
    case False
    then show ?thesis using Cons.prems Cons.IH by (auto intro: order_trans)
  qed
qed simp

lemma credit_fits:
  assumes "amounts_ok c d" and "src \<in> set (Shards c)" and "r \<in> set (outbox (tables_of c d src))"
    and "ob_id r \<notin> set (applied (tables_of c d (ob_target_shard r)))"
  shows "in_bigint (go_count (ledger (tables_of c d (ob_target_shard r))) (pl_tenant_id (ob_payload r)) + pl_cents (ob_payload r))"
proof -
  let ?S = "tables_of c d" and ?x = "(ob_target_shard r, pl_tenant_id (ob_payload r))"
  have nonneg: "0 \<le> pl_cents (ob_payload r)" if "r \<in> set (outbox (?S s))" for r s
    using assms(1) that by (auto simp: amounts_ok_def)
  have "pl_cents (ob_payload r) \<le> owes (outbox (?S src)) (applied (?S (fst ?x))) ?x"
    using owes_member [OF nonneg assms(3)] assms(4) by simp
  also have "\<dots> \<le> (\<Sum>s\<in>set (Shards c). owes (outbox (?S s)) (applied (?S (fst ?x))) ?x)"
    by (rule member_le_sum [OF assms(2)]) (use owes_nonneg nonneg in auto)
  finally have "go_count (ledger (?S (fst ?x))) (snd ?x) + pl_cents (ob_payload r) \<le> settled (set (Shards c)) ?S ?x"
    by (simp add: settled_def)
  moreover have "in_bigint (settled (set (Shards c)) ?S ?x)" "0 \<le> go_count (ledger (?S (fst ?x))) (snd ?x)"
    using assms(1) by (simp_all add: amounts_ok_def)
  ultimately show ?thesis using nonneg [OF assms(3)] by (simp add: in_bigint_def)
qed

text \<open>The tables after one event has been relayed.\<close>

definition credited :: "outbox_row \<Rightarrow> tables \<Rightarrow> tables" where
  "credited e T = (if ob_id e \<in> set (applied T) then T
     else T\<lparr>applied := applied T @ [ob_id e],
            ledger := AList.update (pl_tenant_id (ob_payload e))
              (go_count (ledger T) (pl_tenant_id (ob_payload e)) + pl_cents (ob_payload e)) (ledger T)\<rparr>)"

definition mark_row :: "int \<Rightarrow> tables \<Rightarrow> tables" where
  "mark_row k T = T\<lparr>outbox := map (\<lambda>r. if ob_id r = k then r\<lparr>ob_delivered := True\<rparr> else r) (outbox T)\<rparr>"

definition relayed :: "int \<Rightarrow> outbox_row \<Rightarrow> (int \<Rightarrow> tables) \<Rightarrow> int \<Rightarrow> tables" where
  "relayed src e S = (let S1 = S(ob_target_shard e := credited e (S (ob_target_shard e))) in S1(src := mark_row (ob_id e) (S1 src)))"

lemma all_calm_less: "all_calm k w \<Longrightarrow> j \<le> k \<Longrightarrow> all_calm j w"
  by (auto simp: all_calm_def)

lemma apply_calm:
  assumes "wf_cluster c" and "Pool c (ob_target_shard e) = Inr q" and "all_calm (k + 4) w"
    and "ob_id e \<notin> set (applied (tables_of c (nodes w) (ob_target_shard e))) \<Longrightarrow>
      in_bigint (go_count (ledger (tables_of c (nodes w) (ob_target_shard e))) (pl_tenant_id (ob_payload e)) + pl_cents (ob_payload e))"
  shows "\<exists>w'. begin_func q (apply_event e) w = (Done (Inr ()), w') \<and> all_calm k w'
    \<and> tables_of c (nodes w') = (tables_of c (nodes w))(ob_target_shard e := credited e (tables_of c (nodes w) (ob_target_shard e)))"
proof -
  let ?t = "ob_target_shard e"
  obtain t1 t2 t3 t4 ts where ts: "script w = calm t1 # calm t2 # calm t3 # calm t4 # map calm ts" "k \<le> length ts"
    using assms(3) by (auto simp: all_calm_def eval_nat_numeral Suc_le_length_iff)
  have T: "tabs (nodes w (p_dsn q)) = tables_of c (nodes w) ?t" by (rule tables_of_node [OF assms(2)])
  have long: "all_calm k (w'\<lparr>script := map calm ts\<rparr>)" "all_calm k (w'\<lparr>script := calm t4 # map calm ts\<rparr>)" for w'
    using ts(2) unfolding all_calm_def by (auto intro: exI [of _ ts] exI [of _ "t4 # ts"])
  have self: "(tables_of c (nodes w))(?t := T') = tables_of c (nodes w)" if "T' = tables_of c (nodes w) ?t" for T'
    using that by simp
  show ?thesis
    using assms(4) ts(1) long
    by (auto simp: begin_func_def apply_event_def tx_try_def tx_bind_def tx_stmt_def tx_ret_def sql_insert_applied_def
        sql_credit_def Let_def credited_def T tables_of_update [OF assms(1,2)] intro!: self)
qed

lemma relay_event_calm:
  assumes "wf_cluster c" and "Pool c src = Inr p" and "ob_target_shard e \<in> set (Shards c)" and "all_calm (k + 5) w"
    and "on_record c src e (nodes w)" and "amounts_ok c (nodes w)"
  shows "\<exists>w'. relay_event c p e n w = (Done (Inr (n + 1)), w') \<and> all_calm k w'
    \<and> tables_of c (nodes w') = relayed src e (tables_of c (nodes w))"
proof -
  let ?t = "ob_target_shard e"
  obtain q where q: "Pool c ?t = Inr q" using Pool_Shards [OF assms(3)] by blast
  obtain r where r: "r \<in> set (outbox (tables_of c (nodes w) src))" "ob_id r = ob_id e" "ob_target_shard r = ?t"
      "ob_payload r = ob_payload e"
    using on_record_row [OF assms(5)] by blast
  have fits: "ob_id e \<notin> set (applied (tables_of c (nodes w) ?t)) \<Longrightarrow>
      in_bigint (go_count (ledger (tables_of c (nodes w) ?t)) (pl_tenant_id (ob_payload e)) + pl_cents (ob_payload e))"
    using credit_fits [OF assms(6) Pool_set [OF assms(2)] r(1)] r(2-4) by simp
  have "all_calm (k + 1 + 4) w" using assms(4) by (rule all_calm_less) simp
  from apply_calm [OF assms(1) q this fits] obtain w1 where w1: "begin_func q (apply_event e) w = (Done (Inr ()), w1)"
      "all_calm (k + 1) w1" "tables_of c (nodes w1) = (tables_of c (nodes w))(?t := credited e (tables_of c (nodes w) ?t))"
    by blast
  obtain t ts where ts: "script w1 = calm t # map calm ts" "k \<le> length ts"
    using w1(2) by (auto simp: all_calm_def Suc_le_length_iff)
  have node: "tabs (nodes w1 (p_dsn p)) = tables_of c (nodes w1) src" by (rule tables_of_node [OF assms(2)])
  have "\<exists>w'. round_trip p (sql_mark_delivered (ob_id e)) w1 = (Done (Inr ()), w') \<and> all_calm k w'
      \<and> tables_of c (nodes w') = (tables_of c (nodes w1))(src := mark_row (ob_id e) (tables_of c (nodes w1) src))"
    using ts
    by (auto simp: round_trip_def Let_def sql_mark_delivered_def tables_of_update [OF assms(1,2)] node mark_row_def all_calm_def)
  then obtain w2 where w2: "round_trip p (sql_mark_delivered (ob_id e)) w1 = (Done (Inr ()), w2)" "all_calm k w2"
      "tables_of c (nodes w2) = (tables_of c (nodes w1))(src := mark_row (ob_id e) (tables_of c (nodes w1) src))" by blast
  have "tables_of c (nodes w2) = relayed src e (tables_of c (nodes w))"
    unfolding w2(3) w1(3) relayed_def Let_def ..
  moreover have "relay_event c p e n w = (Done (Inr (n + 1)), w2)"
    using w1(1) w2(1) by (simp add: relay_event_def q try_io_def bind_io_def)
  ultimately show ?thesis using w2(2) by blast
qed

lemma mark_payloads: "ob_payload ` set (outbox (mark_row k T)) = ob_payload ` set (outbox T)"
proof -
  have "map ob_payload (outbox (mark_row k T)) = map ob_payload (outbox T)" by (simp add: mark_row_def)
  then show ?thesis by (metis set_map)
qed

lemma pending_mark:
  "filter (\<lambda>r. \<not> ob_delivered r) (outbox (mark_row k T)) = filter (\<lambda>r. ob_id r \<noteq> k) (filter (\<lambda>r. \<not> ob_delivered r) (outbox T))"
proof -
  have "filter (\<lambda>r. \<not> ob_delivered r) (map (\<lambda>r. if ob_id r = k then r\<lparr>ob_delivered := True\<rparr> else r) rows)
      = filter (\<lambda>r. ob_id r \<noteq> k) (filter (\<lambda>r. \<not> ob_delivered r) rows)" for rows :: "outbox_row list"
    by (induction rows) simp_all
  then show ?thesis by (simp add: mark_row_def)
qed

lemma calm_moves: "all_calm k w \<Longrightarrow> moves_in (evolves (=) own c) (script w)"
  by (auto simp: all_calm_def moves_in_def still.evolves_refl)

lemma amounts_ok_relayed:
  assumes "amounts_ok c d" and "on_record c src e d" and "tables_of c d' = relayed src e (tables_of c d)"
    and "settled (set (Shards c)) (tables_of c d') = settled (set (Shards c)) (tables_of c d)"
  shows "amounts_ok c d'"
proof -
  let ?S = "tables_of c d" and ?S' = "tables_of c d'"
  obtain r where "r \<in> set (outbox (?S src))" "ob_payload r = ob_payload e" using on_record_row [OF assms(2)] by blast
  then have e: "0 \<le> pl_cents (ob_payload e)" using assms(1) unfolding amounts_ok_def by metis
  have "outbox (?S' s) = outbox (?S s) \<or> outbox (?S' s) = outbox (mark_row (ob_id e) (?S s))" for s
    by (simp add: assms(3) relayed_def Let_def mark_row_def credited_def)
  then have same: "ob_payload ` set (outbox (?S' s)) = ob_payload ` set (outbox (?S s))" for s
    using mark_payloads [of "ob_id e" "?S s"] by metis
  have "\<forall>p\<in>ob_payload ` set (outbox (?S s)). 0 \<le> pl_cents p" for s using assms(1) by (simp add: amounts_ok_def)
  then have "\<forall>p\<in>ob_payload ` set (outbox (?S' s)). 0 \<le> pl_cents p" for s unfolding same .
  then have "\<forall>r\<in>set (outbox (?S' s)). 0 \<le> pl_cents (ob_payload r)" for s by simp
  moreover have "0 \<le> go_count (ledger (?S' s)) t" for s t
  proof -
    have old: "0 \<le> go_count (ledger (?S s)) t" for s t using assms(1) by (simp add: amounts_ok_def)
    have "ledger (?S' s) = (if s = ob_target_shard e then ledger (credited e (?S s)) else ledger (?S s))"
      by (simp add: assms(3) relayed_def Let_def mark_row_def)
    then show ?thesis using old [of s t] old [of s "pl_tenant_id (ob_payload e)"] e
      by (auto simp: credited_def go_count_update)
  qed
  ultimately show ?thesis using assms(1,4) by (simp add: amounts_ok_def)
qed

lemma relay_loop_calm:
  assumes "wf_cluster c" and "Pool c src = Inr p" and "\<forall>e\<in>set evs. ob_target_shard e \<in> set (Shards c)"
    and "all_calm (5 * length evs) w" and "relay_state own c src evs n (nodes w)" and "amounts_ok c (nodes w)"
  shows "\<exists>w'. for_io (relay_event c p) evs n w = (Done (Inr (n + int (length evs))), w')
    \<and> pending_rows (tables_of c (nodes w') src)
      = filter (\<lambda>r. ob_id r \<notin> ob_id ` set evs) (pending_rows (tables_of c (nodes w) src))"
  using assms(3-6)
proof (induction evs arbitrary: n w)
  case (Cons e evs)
  have target: "ob_target_shard e \<in> set (Shards c)" and rec: "on_record c src e (nodes w)"
    using Cons.prems(1,3) by (simp_all add: relay_state_def)
  have "all_calm (5 * length evs + 5) w" using Cons.prems(2) by (rule all_calm_less) simp
  from relay_event_calm [OF assms(1,2) target this rec Cons.prems(4)]
  obtain w1 where w1: "relay_event c p e n w = (Done (Inr (n + 1)), w1)" "all_calm (5 * length evs) w1"
      "tables_of c (nodes w1) = relayed src e (tables_of c (nodes w))" by blast
  note after = tripleD [OF still.triple_relay_event [OF assms(1,2)] calm_moves [OF Cons.prems(2)] Cons.prems(3) w1(1)]
  have state: "relay_state own c src evs (n + 1) (nodes w1)" using after(3) by simp
  have "outbox_inv own c (nodes w)" using Cons.prems(3) by (simp add: relay_state_def)
  then have "settled (set (Shards c)) (tables_of c (nodes w1)) = settled (set (Shards c)) (tables_of c (nodes w))"
    using after(1) by (simp add: evolves_def outbox_inv_def Let_def)
  from amounts_ok_relayed [OF Cons.prems(4) rec w1(3) this] have amounts: "amounts_ok c (nodes w1)" .
  from Cons.IH [OF _ w1(2) state amounts] Cons.prems(1)
  obtain w' where w': "for_io (relay_event c p) evs (n + 1) w1 = (Done (Inr (n + 1 + int (length evs))), w')"
      "pending_rows (tables_of c (nodes w') src)
        = filter (\<lambda>r. ob_id r \<notin> ob_id ` set evs) (pending_rows (tables_of c (nodes w1) src))" by auto
  have "outbox (tables_of c (nodes w1) src) = outbox (mark_row (ob_id e) (tables_of c (nodes w) src))"
    by (simp add: w1(3) relayed_def Let_def mark_row_def credited_def)
  then have "pending_rows (tables_of c (nodes w1) src) = filter (\<lambda>r. ob_id r \<noteq> ob_id e) (pending_rows (tables_of c (nodes w) src))"
    by (simp only: pending_rows_def pending_mark)
  then have "pending_rows (tables_of c (nodes w') src)
      = filter (\<lambda>r. ob_id r \<notin> ob_id ` set (e # evs)) (pending_rows (tables_of c (nodes w) src))"
    using w'(2) by (simp add: conj_commute)
  moreover have "for_io (relay_event c p) (e # evs) n w = (Done (Inr (n + int (length (e # evs)))), w')"
    using w1(1) w'(1) by (simp add: try_io_def bind_io_def algebra_simps)
  ultimately show ?case by blast
qed (simp add: ret_def)

section \<open>Counting what is pending\<close>

context rely
begin

lemma guar_pending_on: "guar R (pending_on c s out)"
  unfolding pending_on_def
  by (cases "Pool c s") (auto intro!: guar_ret guar_try guar_query_row)

end

lemma pending_on_exact:
  assumes "moves_in (=) (script w)" and "pending_on c s out w = (Done (Inr out'), w')"
  shows "out' = AList.update s (int (length (pending_rows (tables_of c (nodes w) s)))) out"
proof -
  obtain p where p: "Pool c s = Inr p" using assms(2) by (cases "Pool c s") (simp_all add: pending_on_def)
  obtain e es where e: "script w = e # es"
    using assms(2) p
    by (cases "script w") (simp_all add: pending_on_def try_io_def bind_io_def query_row_def round_trip_def)
  have "ev_move e (nodes w) = nodes w" using assms(1) e by simp
  then show ?thesis
    using assms(2) p e
    by (auto simp: pending_on_def try_io_def bind_io_def query_row_def round_trip_def Let_def pending_rows_def
        tables_of_node [OF p] split: if_splits)
qed

lemma pending_loop:
  assumes "moves_in (=) (script w)" and "for_io (pending_on c) ss out w = (Done (Inr out'), w')"
  shows "nodes w' = nodes w
    \<and> out' = fold (\<lambda>s. AList.update s (int (length (pending_rows (tables_of c (nodes w) s))))) ss out"
  using assms
proof (induction ss arbitrary: w out)
  case (Cons s ss)
  obtain out1 w1 where step: "pending_on c s out w = (Done (Inr out1), w1)"
      and rest: "for_io (pending_on c) ss out1 w1 = (Done (Inr out'), w')"
    using Cons.prems(2) by (auto simp: try_io_def bind_io_def split: prod.splits outcome.splits sum.splits)
  have "nodes w1 = nodes w" "moves_in (=) (script w1)"
    using read_only.guar_pending_on [of c s out] Cons.prems(1) step unfolding guar_def by (metis snd_conv)+
  with Cons.IH [OF _ rest] pending_on_exact [OF Cons.prems(1) step] show ?case by simp
qed (simp add: ret_def)

lemma fold_update_keys:
  "distinct ss \<Longrightarrow> set ss \<inter> fst ` set m = {} \<Longrightarrow> fold (\<lambda>s. AList.update s (f s)) ss m = m @ map (\<lambda>s. (s, f s)) ss"
proof (induction ss arbitrary: m)
  case (Cons s ss)
  then have "AList.update s (f s) m = m @ [(s, f s)]" by (intro AList_update_new) auto
  then show ?case using Cons.IH [of "m @ [(s, f s)]"] Cons.prems by auto
qed simp

section \<open>Properties\<close>

text \<open>C3: A transfer is atomic.  With its ids made for its source shard, either the abstract bank
  has moved the money at once (and the debit found enough of it), or no node has changed and
  \<open>Transfer\<close> did not return nil; each error says why.  A commit whose acknowledgement is lost
  is the one case in which the money moved and an error is returned.\<close>

theorem transfer_is_atomic:
  assumes "wf_cluster c" and "outbox_inv own c (nodes w)" and "own k = s"
    and "RouteRead (topo c) from = Inr s" and "RouteRead (topo c) to = Inr dst"
    and "moves_in (=) (script w)" and "Transfer c k from to cents w = (r, w')"
  shows "outbox_inv own c (nodes w') \<and>
     ((settled (set (Shards c)) (tables_of c (nodes w'))
          = move_money (s, from) (dst, to) cents (settled (set (Shards c)) (tables_of c (nodes w)))
        \<and> (\<exists>b. map_of (ledger (tables_of c (nodes w) s)) from = Some b \<and> cents \<le> b) \<and> (r = Done (Inr ()) \<or> r = Done (Inl EDriver)))
      \<or> (nodes w' = nodes w \<and> (r = Killed \<or> r = Done (Inl (ENoPool s))
          \<or> (\<exists>e. r = Done (Inl e) \<and> transfer_error (tables_of c (nodes w) s) s k from cents e))))"
  using assms by (rule Transfer_quiet)

text \<open>C4: Delivery is effectively once.  Whatever the network loses, wherever the relay is killed
  and whatever other clients do by \<open>B\<close>, a run of the relay moves the abstract bank only as
  they do, keeps the invariant, every record and every applied event, and the number it
  returns is that of distinct events that are marked delivered.\<close>

theorem relay_effectively_once:
  assumes "reflp B" and "transp B" and "wf_cluster c" and "outbox_inv own c (nodes w)"
    and "moves_in (evolves B own c) (script w)" and "RelayOnce c src batch w = (r, w')"
  shows "outbox_inv own c (nodes w')
    \<and> B (settled (set (Shards c)) (tables_of c (nodes w))) (settled (set (Shards c)) (tables_of c (nodes w')))
    \<and> (\<forall>s. keeps (tables_of c (nodes w) s) (tables_of c (nodes w') s))
    \<and> (\<forall>n err. r = Done (n, err) \<longrightarrow>
        (\<exists>ks. distinct ks \<and> int (length ks) = n \<and> (\<forall>k\<in>set ks. marked c src k (nodes w'))))"
proof -
  have "bank_relation B" using assms(1,2) by unfold_locales (auto dest: reflpD transpD)
  note run = tripleD [OF bank_relation.triple_RelayOnce [OF this assms(3)] assms(5,4,6)]
  have "relay_state own c src [] n (nodes w')" if "r = Done (n, err)" for n err
    using run(3) [OF that] by simp
  then have counted: "\<exists>ks. distinct ks \<and> int (length ks) = n \<and> (\<forall>k\<in>set ks. marked c src k (nodes w'))"
    if "r = Done (n, err)" for n err
    using that unfolding relay_state_def by fastforce
  have "evolves B own c (nodes w) (nodes w')" by (rule run(1))
  then show ?thesis
    using assms(4) counted by (simp add: evolves_def outbox_inv_def Let_def del: set_Shards)
qed

text \<open>C6: The clients of the outbox compose: a transfer, at whatever point it stops and whatever
  other clients do meanwhile, moves the abstract bank by transfers only, so the theorem on
  the relay holds beside any number of transfers.\<close>

theorem transfers_compose:
  assumes "wf_cluster c" and "RouteRead (topo c) from = Inr (own k)"
    and "outbox_inv own c (nodes w)" and "moves_in (evolves bank_step\<^sup>*\<^sup>* own c) (script w)"
    and "Transfer c k from to cents w = (r, w')"
  shows "evolves bank_step\<^sup>*\<^sup>* own c (nodes w) (nodes w') \<and> outbox_inv own c (nodes w')"
proof -
  have "guar (evolves bank_step\<^sup>*\<^sup>* own c) (Transfer c k from to cents)"
    by (rule guar_Transfer [OF assms(1)]) (use assms(2) in simp)
  then have "evolves bank_step\<^sup>*\<^sup>* own c (nodes w) (nodes w')"
    using assms(4,5) unfolding guar_def by (metis snd_conv)
  then show ?thesis using evolves_inv assms(3) by blast
qed

text \<open>C5: The relay drains.  When every message arrives, every target has a pool and no balance can
  overflow, \<open>RelayOnce\<close> returns with no error, having delivered the batch: the pending rows with the
  smallest ids, and exactly those stop being pending.\<close>

theorem relay_drains:
  assumes "wf_cluster c" and "outbox_inv own c (nodes w)" and "src \<in> set (Shards c)" and "amounts_ok c (nodes w)"
    and "0 \<le> batch" and "evs = take (nat batch) (sort_key ob_id (pending_rows (tables_of c (nodes w) src)))"
    and "\<forall>e\<in>set evs. ob_target_shard e \<in> set (Shards c)" and "all_calm (5 * length evs + 1) w"
  shows "\<exists>w'. RelayOnce c src batch w = (Done (int (length evs), None), w')
    \<and> pending_rows (tables_of c (nodes w') src)
      = filter (\<lambda>r. ob_id r \<notin> ob_id ` set evs) (pending_rows (tables_of c (nodes w) src))"
proof -
  obtain p where p: "Pool c src = Inr p" using Pool_Shards [OF assms(3)] by blast
  obtain t ts where ts: "script w = calm t # map calm ts" "5 * length evs \<le> length ts"
    using assms(8) by (auto simp: all_calm_def Suc_le_length_iff)
  let ?w = "w\<lparr>script := map calm ts\<rparr>"
  have evs: "sql_pending batch (nodes w (p_dsn p)) = Inr evs"
    using assms(5,6) by (simp add: sql_pending_def pending_rows_def tables_of_node [OF p])
  then have query: "query_rows p (sql_pending batch) w = (Done (Inr (evs, None)), ?w)"
    by (simp add: query_rows_def query_rows_at_def ts(1) Let_def)
  have "all_calm (5 * length evs) ?w" using ts(2) by (auto simp: all_calm_def)
  moreover have "relay_state own c src evs 0 (nodes ?w)"
    using relay_start [OF p assms(2) evs] by simp
  ultimately obtain w' where w': "for_io (relay_event c p) evs 0 ?w = (Done (Inr (int (length evs))), w')"
      "pending_rows (tables_of c (nodes w') src)
        = filter (\<lambda>r. ob_id r \<notin> ob_id ` set evs) (pending_rows (tables_of c (nodes w) src))"
    using relay_loop_calm [OF assms(1) p assms(7), of ?w own 0] assms(4) by auto
  have "RelayOnce c src batch w = (Done (int (length evs), None), w')"
    using query w'(1) by (simp add: RelayOnce_def p try_io_def bind_io_def)
  then show ?thesis using w'(2) by blast
qed

text \<open>\<open>PendingOutbox\<close> returns an error or, for every shard, the number of its undelivered records.\<close>

theorem pending_outbox_exact:
  assumes "wf_cluster c" and "moves_in (=) (script w)" and "PendingOutbox c w = (Done (Inr out), w')"
  shows "nodes w' = nodes w
    \<and> out = map (\<lambda>s. (s, int (length (pending_rows (tables_of c (nodes w) s))))) (Shards c)"
  using pending_loop [OF assms(2) assms(3) [unfolded PendingOutbox_def]] distinct_Shards [OF assms(1)]
  by (simp add: fold_update_keys del: set_Shards)

section \<open>Examples\<close>

text \<open>Tenant 5 on shard 0 holds 100; tenant 9 is pinned to shard 1.\<close>

definition bank_dir :: directory where
  "bank_dir = \<lparr>LogicalCount = 1, Placement = [0], Migrating = None, Pins = Some [(9, 1)]\<rparr>"

definition bank_cluster :: cluster where
  "bank_cluster = demo_cluster\<lparr>topo := TopDirectory bank_dir\<rparr>"

definition bank_world :: "outbox_row list \<Rightarrow> event list \<Rightarrow> world" where
  "bank_world rows es = \<lparr>nodes = (\<lambda>s. if s = ''a'' then \<lparr>tabs = empty_tables\<lparr>ledger := [(5, 100)], outbox := rows\<rparr>, prepared = []\<rparr>
       else \<lparr>tabs = empty_tables, prepared = []\<rparr>), script = es, open_pools = [0, 1], next_pool = 2\<rparr>"

lemma bank_routes [simp]: "RouteRead (topo bank_cluster) 5 = Inr 0" "RouteRead (topo bank_cluster) 9 = Inr 1"
proof -
  have wf: "wf_dir bank_dir" by (simp add: wf_dir_def bank_dir_def go_map_ok_def)
  show "RouteRead (topo bank_cluster) 5 = Inr 0" "RouteRead (topo bank_cluster) 9 = Inr 1"
    by (simp_all add: bank_cluster_def RouteRead_wf [OF wf]) (simp_all add: bank_dir_def logical_of_def)
qed

lemma bank_pools [simp]:
  "Pool bank_cluster 0 = Inr \<lparr>p_handle = 0, p_dsn = ''a''\<rparr>" "Pool bank_cluster 1 = Inr \<lparr>p_handle = 1, p_dsn = ''b''\<rparr>"
  "Shards bank_cluster = [0, 1]" "wf_cluster bank_cluster"
  by (simp_all add: bank_cluster_def demo_cluster_def Pool_def Shards_def wf_cluster_def go_map_ok_def)

lemma bank_tables:
  "tables_of bank_cluster (nodes (bank_world rows es))
    = (\<lambda>s. if s = 0 then empty_tables\<lparr>ledger := [(5, 100)], outbox := rows\<rparr> else empty_tables)"
  by (rule ext) (simp add: tables_of_def Pool_def bank_cluster_def demo_cluster_def bank_world_def)

lemma bank_inv:
  assumes "rows = [] \<or> rows = [credit_row 7 1 5 9 30]"
  shows "outbox_inv (\<lambda>k. 0) bank_cluster (nodes (bank_world rows es))"
  using assms unfolding outbox_inv_def bank_tables outboxes_ok_def outbox_ok_def
  by (auto simp: empty_tables_def credit_row_def)

lemma bank_transfer:
  "\<exists>w'. Transfer bank_cluster 7 5 9 30 (bank_world [] (replicate 4 (calm 1))) = (Done (Inr ()), w')"
  by (simp add: Transfer_run [OF bank_routes] begin_func_def transfer_tx_def tx_try_def tx_bind_def tx_stmt_def
      sql_debit_def sql_insert_outbox_def bank_world_def empty_tables_def in_bigint_def Let_def numeral_eq_Suc)

lemma transfer_is_atomic_witness:
  "\<exists>w'. Transfer bank_cluster 7 5 9 30 (bank_world [] (replicate 4 (calm 1))) = (Done (Inr ()), w')
    \<and> settled {0, 1} (tables_of bank_cluster (nodes w'))
      = move_money (0, 5) (1, 9) 30 (settled {0, 1} (tables_of bank_cluster (nodes (bank_world [] []))))"
proof -
  let ?w = "bank_world [] (replicate 4 (calm 1))"
  obtain w' where run: "Transfer bank_cluster 7 5 9 30 ?w = (Done (Inr ()), w')" using bank_transfer by blast
  have "moves_in (=) (script ?w)" by (simp add: bank_world_def moves_in_def)
  moreover have "outbox_inv (\<lambda>k. 0) bank_cluster (nodes ?w)" by (rule bank_inv) simp
  ultimately show ?thesis
    using transfer_is_atomic [OF _ _ _ bank_routes _ run] run by (auto simp: bank_world_def)
qed

lemma transfers_compose_witness:
  "\<exists>w'. Transfer bank_cluster 7 5 9 30 (bank_world [] (replicate 4 (calm 1))) = (Done (Inr ()), w')
    \<and> outbox_inv (\<lambda>k. 0) bank_cluster (nodes w')"
proof -
  let ?w = "bank_world [] (replicate 4 (calm 1))"
  obtain w' where run: "Transfer bank_cluster 7 5 9 30 ?w = (Done (Inr ()), w')" using bank_transfer by blast
  have "moves_in (evolves bank_step\<^sup>*\<^sup>* (\<lambda>k. 0) bank_cluster) (script ?w)"
    by (simp add: bank_world_def moves_in_def busy.evolves_refl)
  moreover have "outbox_inv (\<lambda>k. 0) bank_cluster (nodes ?w)" by (rule bank_inv) simp
  ultimately show ?thesis using transfers_compose [OF _ _ _ _ run, of "\<lambda>k. 0"] run by auto
qed

text \<open>The relay is killed between applying the event and marking it.\<close>

lemma bank_relay_killed:
  "\<exists>w'. RelayOnce bank_cluster 0 10 (bank_world [credit_row 7 1 5 9 30] (replicate 5 (calm 1))) = (Killed, w')
    \<and> ledger (tables_of bank_cluster (nodes w') 1) = [(9, 30)]"
  by (simp add: RelayOnce_def try_io_def bind_io_def query_rows_def query_rows_at_def sql_pending_def Let_def
      bank_world_def empty_tables_def credit_row_def relay_event_def begin_func_def apply_event_def tx_try_def tx_bind_def
      tx_stmt_def sql_insert_applied_def sql_credit_def in_bigint_def round_trip_def tables_of_def numeral_eq_Suc)

lemma relay_effectively_once_witness:
  "\<exists>w'. RelayOnce bank_cluster 0 10 (bank_world [credit_row 7 1 5 9 30] (replicate 5 (calm 1))) = (Killed, w')
    \<and> ledger (tables_of bank_cluster (nodes w') 1) = [(9, 30)]
    \<and> settled {0, 1} (tables_of bank_cluster (nodes (bank_world [credit_row 7 1 5 9 30] [])))
      = settled {0, 1} (tables_of bank_cluster (nodes w'))"
proof -
  let ?w = "bank_world [credit_row 7 1 5 9 30] (replicate 5 (calm 1))"
  obtain w' where run: "RelayOnce bank_cluster 0 10 ?w = (Killed, w')"
    and led: "ledger (tables_of bank_cluster (nodes w') 1) = [(9, 30)]" using bank_relay_killed by blast
  have "moves_in (evolves (=) (\<lambda>k. 0) bank_cluster) (script ?w)"
    by (simp add: bank_world_def moves_in_def still.evolves_refl)
  moreover have "outbox_inv (\<lambda>k. 0) bank_cluster (nodes ?w)" by (rule bank_inv) simp
  ultimately have "settled {0, 1} (tables_of bank_cluster (nodes ?w)) = settled {0, 1} (tables_of bank_cluster (nodes w'))"
    using relay_effectively_once [OF _ _ _ _ _ run, of "(=)" "\<lambda>k. 0"] by simp
  then show ?thesis using run led by (simp add: bank_world_def)
qed

lemma relay_drains_witness:
  "\<exists>w'. RelayOnce bank_cluster 0 10 (bank_world [credit_row 7 1 5 9 30] (replicate 6 (calm 1))) = (Done (1, None), w')
    \<and> pending_rows (tables_of bank_cluster (nodes w') 0) = []"
proof -
  let ?w = "bank_world [credit_row 7 1 5 9 30] (replicate 6 (calm 1))" and ?rows = "[credit_row 7 1 5 9 30]"
  have pending: "pending_rows (tables_of bank_cluster (nodes ?w) 0) = ?rows"
    by (simp add: bank_tables pending_rows_def credit_row_def)
  have "in_bigint (settled (set (Shards bank_cluster)) (tables_of bank_cluster (nodes ?w)) x)" for x
    by (simp add: settled_def bank_tables in_bigint_def go_count_def credit_row_def empty_tables_def)
  then have "amounts_ok bank_cluster (nodes ?w)"
    by (auto simp: amounts_ok_def bank_tables empty_tables_def credit_row_def go_count_def)
  moreover have "all_calm 6 ?w" by (auto simp: all_calm_def bank_world_def eval_nat_numeral intro: exI [of _ "[1, 1, 1, 1, 1, 1]"])
  moreover have "outbox_inv (\<lambda>k. 0) bank_cluster (nodes ?w)" by (rule bank_inv) simp
  ultimately show ?thesis
    using relay_drains [of bank_cluster "\<lambda>k. 0" ?w 0 10 ?rows] pending by (simp add: credit_row_def)
qed

lemma pending_outbox_exact_witness:
  "\<exists>w'. PendingOutbox bank_cluster (bank_world [credit_row 7 1 5 9 30] [calm 1, calm 2]) = (Done (Inr [(0, 1), (1, 0)]), w')
    \<and> map fst [(0, 1), (1, 0 :: int)] = Shards bank_cluster"
proof -
  let ?w = "bank_world [credit_row 7 1 5 9 30] [calm 1, calm 2]"
  obtain w' where run: "PendingOutbox bank_cluster ?w = (Done (Inr [(0, 1), (1, 0)]), w')"
    by (simp add: PendingOutbox_def pending_on_def try_io_def bind_io_def query_row_def round_trip_def Let_def
        bank_world_def empty_tables_def credit_row_def)
  have "moves_in (=) (script ?w)" by (simp add: bank_world_def)
  from pending_outbox_exact [OF _ this run] have "[(0, 1), (1, 0)]
      = map (\<lambda>s. (s, int (length (pending_rows (tables_of bank_cluster (nodes ?w) s))))) (Shards bank_cluster)" by simp
  then have "map fst [(0, 1), (1, 0 :: int)] = Shards bank_cluster" by (simp add: comp_def)
  then show ?thesis using run by blast
qed

end
