(* ===== verification/Transfers.thy ===== *)
theory Transfers
  imports Shardctl Outbox
begin

text \<open>
  The commands of \<open>src/cmd/shardctl/main.go\<close> that write across shards: \<open>transfer\<close> in its two
  modes, with \<open>prepareOnly\<close> and \<open>replayLast\<close>, and \<open>orphans\<close> with its resolution.
\<close>

section \<open>shardctl transfer 2pc\<close>

text \<open>The debit of the 2PC mode: the number of rows it changed is not looked at.\<close>

definition sql_debit_2pc :: "u64 \<Rightarrow> int \<Rightarrow> tables \<Rightarrow> sql_error + unit \<times> tables" where
  "sql_debit_2pc from cents T =
     (case map_of (ledger T) from of
        None \<Rightarrow> Inr ((), T)
      | Some b \<Rightarrow>
          if b < cents then Inr ((), T)
          else if in_bigint (b - cents) then Inr ((), T\<lparr>ledger := AList.update from (b - cents) (ledger T)\<rparr>)
          else Inl NumericOutOfRange)"

definition sql_credit_2pc :: "u64 \<Rightarrow> int \<Rightarrow> tables \<Rightarrow> sql_error + unit \<times> tables" where
  "sql_credit_2pc to cents T =
     (let b = go_count (ledger T) to + cents in
      if in_bigint b then Inr ((), T\<lparr>ledger := AList.update to b (ledger T)\<rparr>) else Inl NumericOutOfRange)"

text \<open>The map from shards to functions, as the list a \<open>range\<close> loop visits, in either order.\<close>

definition transfer_parts :: "bool \<Rightarrow> int \<Rightarrow> int \<Rightarrow> u64 \<Rightarrow> u64 \<Rightarrow> int \<Rightarrow> part list" where
  "transfer_parts flip srcShard dstShard from to cents =
     (let debit = (srcShard, tx_stmt (sql_debit_2pc from cents));
          credit = (dstShard, tx_stmt (sql_credit_2pc to cents)) in
      if dstShard \<noteq> srcShard then (if flip then [credit, debit] else [debit, credit]) else [debit])"

fun unwrap :: "gerr \<Rightarrow> gerr" where
  "unwrap (EAt msg s e) = e"
| "unwrap e = e"

definition prepare_leg :: "cluster \<Rightarrow> string \<Rightarrow> part \<Rightarrow> unit \<Rightarrow> (gerr + unit) io" where
  "prepare_leg c gid = (\<lambda>(s, fn) _.
     case Pool c s of
       Inl e \<Rightarrow> ret (Inl e)
     | Inr p \<Rightarrow>
         try_io (request p) (\<lambda>e. ret (Inl e)) (\<lambda>_.
           try_io (run_leg (legGID gid s) p s fn) (\<lambda>e. ret (Inl (unwrap e))) (\<lambda>_. ret (Inr ()))))"

definition prepareOnly :: "cluster \<Rightarrow> string \<Rightarrow> part list \<Rightarrow> (gerr + unit) io" where
  "prepareOnly c gid parts = for_io (prepare_leg c gid) parts ()"

section \<open>shardctl transfer outbox\<close>

definition sql_unmark :: "int \<Rightarrow> time \<Rightarrow> node \<Rightarrow> sql_error + unit \<times> node" where
  "sql_unmark k now n = Inr ((), n\<lparr>tabs := (tabs n)\<lparr>outbox :=
     map (\<lambda>r. if ob_id r = k then r\<lparr>ob_delivered := False\<rparr> else r) (outbox (tabs n))\<rparr>\<rparr>)"

definition replayLast :: "cluster \<Rightarrow> int \<Rightarrow> int \<Rightarrow> (gerr + int) io" where
  "replayLast c srcShard eventID =
     (case Pool c srcShard of
        Inl e \<Rightarrow> ret (Inl e)
      | Inr p \<Rightarrow>
          try_io (round_trip p (sql_unmark eventID)) (\<lambda>e. ret (Inl e)) (\<lambda>_.
            bind_io (RelayOnce c srcShard 100) (\<lambda>(n, err).
              case err of Some e \<Rightarrow> ret (Inl e) | None \<Rightarrow> ret (Inr n))))"

section \<open>shardctl transfer\<close>

text \<open>
  A balance line of \<open>before()\<close>: tenant, shard, balance.  Errors are dropped, and a missing
  pool is used all the same.
\<close>

definition balance_line :: "cluster \<Rightarrow> u64 \<Rightarrow> (u64 \<times> int \<times> int) io" where
  "balance_line c t =
     bind_io (SummarizeTenant c t) (\<lambda>_.
     bind_io (lift_go (ReadPool c t)) (\<lambda>(r, s).
       case r of
         Inl e \<Rightarrow> lift_go (Inl NilDereference)
       | Inr p \<Rightarrow> bind_io (query_row p (\<lambda>n. go_count (ledger (tabs n)) t)) (\<lambda>b.
           ret (t, s, case b of Inl e \<Rightarrow> 0 | Inr b \<Rightarrow> b))))"

definition before :: "cluster \<Rightarrow> TransferFlags \<Rightarrow> ((u64 \<times> int \<times> int) list) io" where
  "before c fl = bind_io (balance_line c (fl_from fl)) (\<lambda>x. bind_io (balance_line c (fl_to fl)) (\<lambda>y. ret [x, y]))"

record TransferReport =
  rp_route :: "int \<times> int"
  rp_before :: "(u64 \<times> int \<times> int) list"
  rp_between :: "(u64 \<times> int \<times> int) list option"
  rp_pending :: "(int, int) gomap"
  rp_relayed :: "(int \<times> int) option"
  rp_after :: "(u64 \<times> int \<times> int) list"

text \<open>\<open>os.Exit(3)\<close> stops the process where it stands, with no deferred call run.\<close>

definition os_Exit :: "'a io" where
  "os_Exit = (\<lambda>w. (Killed, w))"

definition transfer_2pc :: "cluster \<Rightarrow> bool \<Rightarrow> int \<Rightarrow> int \<Rightarrow> int \<Rightarrow> TransferFlags \<Rightarrow> (gerr + unit) io" where
  "transfer_2pc c flip nanos srcShard dstShard fl =
     (let gid = ''xfer-'' @ fmt_d nanos;
          parts = transfer_parts flip srcShard dstShard (fl_from fl) (fl_to fl) (fl_cents fl) in
      if fl_crash fl then try_io (prepareOnly c gid parts) (\<lambda>e. ret (Inl e)) (\<lambda>_. os_Exit)
      else try_io (TwoPC_Do c gid parts) (\<lambda>e. ret (Inl e)) (\<lambda>_. ret (Inr ())))"

definition transfer_outbox :: "cluster \<Rightarrow> int \<Rightarrow> int \<Rightarrow> TransferFlags \<Rightarrow>
    (gerr + (u64 \<times> int \<times> int) list \<times> (int, int) gomap \<times> int \<times> int) io" where
  "transfer_outbox c nanos srcShard fl =
     try_io (Transfer c nanos (fl_from fl) (fl_to fl) (fl_cents fl)) (\<lambda>e. ret (Inl e)) (\<lambda>_.
     bind_io (before c fl) (\<lambda>between.
     bind_io (PendingOutbox c) (\<lambda>pend.
     bind_io (RelayOnce c srcShard 100) (\<lambda>(n, err).
       case err of
         Some e \<Rightarrow> ret (Inl e)
       | None \<Rightarrow> try_io (replayLast c srcShard nanos) (\<lambda>e. ret (Inl e)) (\<lambda>m.
           ret (Inr (between, (case pend of Inl e \<Rightarrow> [] | Inr p \<Rightarrow> p), n, m)))))))"

definition transfer_body :: "string \<Rightarrow> TransferFlags \<Rightarrow> bool \<Rightarrow> int \<Rightarrow> cluster \<Rightarrow> (gerr + TransferReport) io" where
  "transfer_body mode fl flip nanos c =
     bind_io (lift_go (RouteRead (topo c) (fl_from fl))) (\<lambda>srcShard.
     bind_io (lift_go (RouteRead (topo c) (fl_to fl))) (\<lambda>dstShard.
     bind_io (before c fl) (\<lambda>first.
       let report = (\<lambda>mid pend rel. bind_io (before c fl) (\<lambda>final.
         ret (Inr \<lparr>rp_route = (srcShard, dstShard), rp_before = first, rp_between = mid, rp_pending = pend,
           rp_relayed = rel, rp_after = final\<rparr>))) in
       if mode = ''2pc'' then
         try_io (transfer_2pc c flip nanos srcShard dstShard fl) (\<lambda>e. ret (Inl e)) (\<lambda>_. report None [] None)
       else if mode = ''outbox'' then
         try_io (transfer_outbox c nanos srcShard fl) (\<lambda>e. ret (Inl e))
           (\<lambda>(between, pend, n, m). report (Some between) pend (Some (n, m)))
       else ret (Inl (EMsg (''unknown transfer mode '' @ mode))))))"

text \<open>The mode is the first argument unless that starts with a dash; an empty one is indexed all the same.\<close>

definition transfer_mode :: "string list \<Rightarrow> (string \<times> string list) go" where
  "transfer_mode args =
     (case args of
        [] \<Rightarrow> Inr (''2pc'', [])
      | a # rest \<Rightarrow>
          if a = [] then Inl IndexOutOfRange
          else if hd a \<noteq> CHR ''-'' then Inr (a, rest) else Inr (''2pc'', args))"

definition cmdTransfer :: "config \<Rightarrow> string list \<Rightarrow> bool \<Rightarrow> int \<Rightarrow> (stop + TransferReport) command" where
  "cmdTransfer u args flip nanos =
     bind_io (lift_go (transfer_mode args)) (\<lambda>(mode, rest).
       with_flags (transfer_flags rest) (\<lambda>fl. with_cluster u (\<lambda>(c, dir). transfer_body mode fl flip nanos c)))"

section \<open>shardctl orphans\<close>

definition resolve_one :: "cluster \<Rightarrow> Orphan \<Rightarrow> unit \<Rightarrow> (gerr + unit) io" where
  "resolve_one c r _ =
     (case Pool c (or_Shard r) of
        Inl e \<Rightarrow> ret (Inl e)
      | Inr p \<Rightarrow> try_io (round_trip p (sql_rollback_prepared (or_GID r))) (\<lambda>e. ret (Inl e)) (\<lambda>_. ret (Inr ())))"

definition orphans_body :: "bool \<Rightarrow> cluster \<Rightarrow> (gerr + Orphan list) io" where
  "orphans_body resolve c =
     try_io (Orphans c) (\<lambda>e. ret (Inl e)) (\<lambda>orphans.
       if orphans = [] then ret (Inr [])
       else if resolve
       then try_io (for_io (resolve_one c) orphans ()) (\<lambda>e. ret (Inl e)) (\<lambda>_. ret (Inr orphans))
       else ret (Inr orphans))"

definition cmdOrphans :: "config \<Rightarrow> bool \<Rightarrow> (gerr + Orphan list) command" where
  "cmdOrphans u resolve = with_cluster u (\<lambda>(c, dir). orphans_body resolve c)"

section \<open>What a transfer by 2PC does to the ledger\<close>

lemma stmt_effect:
  assumes "part_effect (tx_stmt f) T T'"
  shows "\<exists>u. f T = Inr (u, T')"
proof -
  obtain es es' where run: "tx_stmt f (T, es) = (Done (Inr ()), T', es')" using assms by (auto simp: part_effect_def)
  then obtain e es0 where "es = e # es0" "ev_reply e = Ack" by (cases es) (auto simp: tx_stmt_def split: if_splits)
  then show ?thesis using run by (auto simp: tx_stmt_def split: sum.splits)
qed

lemma debit_2pc_effect:
  assumes "sql_debit_2pc from cents T = Inr (u, T')"
  shows "go_count (ledger T') from = (case map_of (ledger T) from of
      Some b \<Rightarrow> if cents \<le> b then b - cents else b | None \<Rightarrow> 0)"
    and "t \<noteq> from \<Longrightarrow> go_count (ledger T') t = go_count (ledger T) t"
  using assms
  by (auto simp: sql_debit_2pc_def go_count_update go_count_def map_of_alist_update split: option.splits if_splits)

lemma credit_2pc_effect:
  assumes "sql_credit_2pc to cents T = Inr (u, T')"
  shows "go_count (ledger T') t = go_count (ledger T) t + (if t = to then cents else 0)"
  using assms by (auto simp: sql_credit_2pc_def Let_def go_count_update split: if_splits)

lemma committed_tables:
  assumes "legs_db c d (\<lambda>s. leg_committed) parts d'" and "(s, fn) \<in> set parts" and "Pool c s = Inr p"
  shows "part_effect fn (tables_of c d s) (tables_of c d' s)"
  using legs_db_at [OF assms] unfolding leg_committed_def tables_of_def assms(3) by auto

text \<open>When \<open>Do\<close> returns nil each part has worked on its shard's tables, and no other shard's tables changed.\<close>

lemma two_pc_tables:
  assumes "parts_ok c gid parts (nodes w)" and "moves_in (=) (script w)"
    and "TwoPC_Do c gid parts w = (Done (Inr ()), w')"
  shows "(i, tx_stmt f) \<in> set parts \<Longrightarrow> \<exists>u. f (tables_of c (nodes w) i) = Inr (u, tables_of c (nodes w') i)"
    and "i \<notin> fst ` set parts \<Longrightarrow> tables_of c (nodes w') i = tables_of c (nodes w) i"
proof -
  have inside: "fst ` set parts \<subseteq> set (Shards c)" and legs: "legs_db c (nodes w) (\<lambda>s. leg_committed) parts (nodes w')"
    using TwoPC_states [OF assms] by (auto simp del: set_Shards)
  show "\<exists>u. f (tables_of c (nodes w) i) = Inr (u, tables_of c (nodes w') i)" if part: "(i, tx_stmt f) \<in> set parts"
  proof -
    have "i \<in> set (Shards c)" using inside part by force
    then obtain p where p: "Pool c i = Inr p" using Pool_Inl by (cases "Pool c i") (auto simp del: set_Shards)
    show ?thesis by (rule stmt_effect [OF committed_tables [OF legs part p]])
  qed
  show "tables_of c (nodes w') i = tables_of c (nodes w) i" if i: "i \<notin> fst ` set parts"
  proof (cases "Pool c i")
    case (Inr p)
    have "wf_cluster c" using assms(1) by (simp add: parts_ok_def)
    then have "p_dsn p \<notin> part_dsns c parts"
      using Pool_node_inj [OF _ _ Inr] i by (force simp: part_dsns_def)
    then show ?thesis using legs Inr by (simp add: legs_db_def tables_of_def)
  qed (simp add: tables_of_def)
qed

lemma two_pc_ledger:
  assumes "moves_in (=) (script w)" and "wf_cluster c"
    and "gids_fresh c gid (transfer_parts flip src dst from to cents) (nodes w)"
    and "TwoPC_Do c gid (transfer_parts flip src dst from to cents) w = (Done (Inr ()), w')"
  shows "go_count (ledger (tables_of c (nodes w') s)) t = go_count (ledger (tables_of c (nodes w) s)) t
    - (if s = src \<and> t = from \<and> (\<exists>b. map_of (ledger (tables_of c (nodes w) src)) from = Some b \<and> cents \<le> b) then cents else 0)
    + (if s = dst \<and> dst \<noteq> src \<and> t = to then cents else 0)"
proof -
  let ?parts = "transfer_parts flip src dst from to cents"
  let ?debit = "(src, tx_stmt (sql_debit_2pc from cents))" and ?credit = "(dst, tx_stmt (sql_credit_2pc to cents))"
  let ?S = "tables_of c (nodes w)" and ?S' = "tables_of c (nodes w')"
  have parts: "set ?parts = (if dst \<noteq> src then {?debit, ?credit} else {?debit})"
    by (auto simp: transfer_parts_def Let_def)
  have "parts_ok c gid ?parts (nodes w)"
    using assms(2,3) by (auto simp: parts_ok_def parts tx_frame_stmt) (auto simp: transfer_parts_def Let_def)
  note tables = two_pc_tables [OF this assms(1,4)]
  obtain u where debit: "sql_debit_2pc from cents (?S src) = Inr (u, ?S' src)"
    using tables(1) [of src "sql_debit_2pc from cents"] parts by auto
  consider "s = src" | "s = dst" "dst \<noteq> src" | "s \<noteq> src" "s \<noteq> dst" by blast
  then show ?thesis
  proof cases
    case 1
    then show ?thesis
      using debit_2pc_effect [OF debit] by (cases "t = from") (auto simp: go_count_def split: option.splits)
  next
    case 2
    then obtain v where "sql_credit_2pc to cents (?S dst) = Inr (v, ?S' dst)"
      using tables(1) [of dst "sql_credit_2pc to cents"] parts by auto
    from credit_2pc_effect [OF this] 2 show ?thesis by simp
  next
    case 3
    then have "s \<notin> fst ` set ?parts" using parts by auto
    then show ?thesis using tables(2) 3 by simp
  qed
qed

section \<open>Replaying an event\<close>

lemma outboxes_unmark:
  assumes "outboxes_ok own S" and "T = (S s)\<lparr>outbox := map f (outbox (S s))\<rparr>"
    and "\<And>q. ob_id (f q) = ob_id q" and "\<And>q. ob_target_shard (f q) = ob_target_shard q"
    and "\<And>q. ob_delivered (f q) \<Longrightarrow> ob_delivered q"
  shows "outboxes_ok own (S(s := T))"
proof -
  have ok: "outbox_ok own S j" for j using assms(1) by (simp add: outboxes_ok_def)
  have app: "applied ((S(s := T)) j) = applied (S j)" for j by (simp add: assms(2))
  have rec: "recorded (S(s := T)) a q j = recorded S a q j" for a q j
    by (cases "a = s") (auto simp: recorded_def assms(2-4))
  have ids: "map ob_id (outbox ((S(s := T)) j)) = map ob_id (outbox (S j))" for j
    by (cases "j = s") (simp_all add: assms(2,3) comp_def)
  have rows: "own (ob_id r) = j \<and> (ob_delivered r \<longrightarrow> ob_id r \<in> set (applied (S (ob_target_shard r))))"
    if r: "r \<in> set (outbox ((S(s := T)) j))" for r j
  proof (cases "j = s")
    case True
    then obtain q where q: "q \<in> set (outbox (S j))" "r = f q" using r by (auto simp: assms(2))
    then have "own (ob_id q) = j \<and> (ob_delivered q \<longrightarrow> ob_id q \<in> set (applied (S (ob_target_shard q))))"
      using ok [of j] by (simp add: outbox_ok_def)
    then show ?thesis using q(2) assms(3-5) by auto
  next
    case False
    then show ?thesis using r ok [of j] by (simp add: outbox_ok_def)
  qed
  show ?thesis
    unfolding outboxes_ok_def outbox_ok_def app rec ids
    using ok rows by (auto simp only: outbox_ok_def)
qed

lemma settled_unmark:
  assumes "T = (S s)\<lparr>outbox := map f (outbox (S s))\<rparr>" and "\<And>q. ob_id (f q) = ob_id q"
    and "\<And>q. ob_target_shard (f q) = ob_target_shard q" and "\<And>q. ob_payload (f q) = ob_payload q"
  shows "settled K (S(s := T)) = settled K S"
proof
  fix x
  have map: "owes (map f rows) a x = owes rows a x" for rows a by (simp add: owes_def comp_def assms(2-4) cong: if_cong)
  then have "owes (outbox ((S(s := T)) i)) a x = owes (outbox (S i)) a x" for i a by (simp add: assms(1))
  then show "settled K (S(s := T)) x = settled K S x" by (simp add: settled_def assms(1))
qed

lemma unmark_effect:
  assumes "wf_cluster c" and "Pool c src = Inr p" and "outbox_inv own c d" and "sql_unmark k t (d (p_dsn p)) = Inr (u, n)"
  shows "outbox_inv own c (d(p_dsn p := n))"
    and "settled (set (Shards c)) (tables_of c (d(p_dsn p := n))) = settled (set (Shards c)) (tables_of c d)"
proof -
  have n: "tabs n = (tables_of c d src)\<lparr>outbox :=
      map (\<lambda>r. if ob_id r = k then r\<lparr>ob_delivered := False\<rparr> else r) (outbox (tables_of c d src))\<rparr>"
    using assms(4) by (auto simp: sql_unmark_def tables_of_node [OF assms(2)])
  show "outbox_inv own c (d(p_dsn p := n))"
    unfolding outbox_inv_def tables_of_update [OF assms(1,2)]
    by (rule outboxes_unmark [where S = "tables_of c d" and f = "\<lambda>r. if ob_id r = k then r\<lparr>ob_delivered := False\<rparr> else r",
        OF assms(3) [unfolded outbox_inv_def] n]) (simp_all split: if_splits)
  show "settled (set (Shards c)) (tables_of c (d(p_dsn p := n))) = settled (set (Shards c)) (tables_of c d)"
    unfolding tables_of_update [OF assms(1,2)] by (rule settled_unmark [where S = "tables_of c d" and f = "\<lambda>r. if ob_id r = k then r\<lparr>ob_delivered := False\<rparr> else r", OF n]) simp_all
qed

lemma replay_evolves:
  assumes "wf_cluster c" and "outbox_inv own c (nodes w)" and "moves_in (evolves (=) own c) (script w)"
    and "replayLast c src k w = (r, w')"
  shows "outbox_inv own c (nodes w')
    \<and> settled (set (Shards c)) (tables_of c (nodes w')) = settled (set (Shards c)) (tables_of c (nodes w))"
proof (cases "Pool c src")
  case (Inr p)
  let ?bank = "\<lambda>d. settled (set (Shards c)) (tables_of c d)"
  have ev: "outbox_inv own c d' \<and> ?bank d' = ?bank d" if "evolves (=) own c d d'" "outbox_inv own c d" for d d'
    using that by (auto simp: evolves_def outbox_inv_def Let_def)
  obtain o1 w1 where rt: "round_trip p (sql_unmark k) w = (o1, w1)" by (metis surj_pair)
  have w1: "outbox_inv own c (nodes w1) \<and> ?bank (nodes w1) = ?bank (nodes w) \<and> moves_in (evolves (=) own c) (script w1)"
  proof (cases "script w")
    case Nil
    then show ?thesis using rt assms(2,3) by (simp add: round_trip_def)
  next
    case (Cons e es)
    let ?d = "ev_move e (nodes w)"
    have d: "outbox_inv own c ?d \<and> ?bank ?d = ?bank (nodes w)" "moves_in (evolves (=) own c) es"
      using assms(2,3) Cons ev [of "nodes w" ?d] by auto
    obtain n where n: "sql_unmark k (ev_now e) (?d (p_dsn p)) = Inr ((), n)" by (simp add: sql_unmark_def)
    have "nodes w1 = ?d \<or> nodes w1 = ?d(p_dsn p := n)" "script w1 = es"
      using rt Cons n by (auto simp: round_trip_def Let_def split: if_splits)
    then show ?thesis using d unmark_effect [OF assms(1) Inr conjunct1 [OF d(1)] n] by auto
  qed
  show ?thesis
  proof (cases "o1 = Done (Inr ())")
    case True
    obtain o2 w2 where rel: "RelayOnce c src 100 w1 = (o2, w2)" by (metis surj_pair)
    have "evolves (=) own c (nodes w1) (nodes w2)"
      using tripleD(1) [OF still.triple_RelayOnce [OF assms(1)] _ _ rel] w1 by blast
    moreover have "w' = w2"
      using assms(4) rt True rel Inr
      by (auto simp: replayLast_def try_io_def bind_io_def split: outcome.splits option.splits prod.splits)
    ultimately show ?thesis using ev w1 by metis
  next
    case False
    then have "w' = w1"
      using assms(4) rt Inr by (auto simp: replayLast_def try_io_def bind_io_def split: outcome.splits sum.splits)
    then show ?thesis using w1 by simp
  qed
qed (use assms in \<open>simp add: replayLast_def\<close>)

text \<open>
  Once every record of a shard is applied at its target: what the unmarking and the relay do
  there, and may be done by others meanwhile.
\<close>

definition absorbed :: "cluster \<Rightarrow> int \<Rightarrow> db \<Rightarrow> bool" where
  "absorbed c src d \<longleftrightarrow> (\<forall>r\<in>set (outbox (tables_of c d src)). ob_id r \<in> set (applied (tables_of c d (ob_target_shard r))))"

definition absorbing :: "cluster \<Rightarrow> int \<Rightarrow> db \<Rightarrow> db \<Rightarrow> bool" where
  "absorbing c src d d' \<longleftrightarrow> (absorbed c src d \<longrightarrow> absorbed c src d'
     \<and> (\<forall>s. ledger (tables_of c d' s) = ledger (tables_of c d s) \<and> set (applied (tables_of c d s)) \<subseteq> set (applied (tables_of c d' s))))"

interpretation absorb: rely "absorbing c src" for c src
  by unfold_locales (auto simp: absorbing_def)

lemma absorbing_rows:
  assumes "wf_cluster c" and "Pool c s = Inr p" and "ledger (tabs n) = ledger (tables_of c d s)"
    and "applied (tabs n) = applied (tables_of c d s)"
    and "\<And>r. r \<in> set (outbox (tabs n)) \<Longrightarrow> \<exists>q\<in>set (outbox (tables_of c d s)). ob_id q = ob_id r \<and> ob_target_shard q = ob_target_shard r"
  shows "absorbing c src d (d(p_dsn p := n))"
proof -
  have app: "applied (((tables_of c d)(s := tabs n)) j) = applied (tables_of c d j)" for j by (simp add: assms(4))
  have led: "ledger (((tables_of c d)(s := tabs n)) j) = ledger (tables_of c d j)" for j by (simp add: assms(3))
  have rows: "\<exists>q\<in>set (outbox (tables_of c d src)). ob_id q = ob_id r \<and> ob_target_shard q = ob_target_shard r"
    if "r \<in> set (outbox (((tables_of c d)(s := tabs n)) src))" for r
    using that assms(5) by (cases "src = s") auto
  show ?thesis
    unfolding absorbing_def absorbed_def tables_of_update [OF assms(1,2)] app led using rows by fastforce
qed

definition absorbed_rows :: "cluster \<Rightarrow> int \<Rightarrow> outbox_row list \<Rightarrow> db \<Rightarrow> bool" where
  "absorbed_rows c src rows d \<longleftrightarrow> absorbed c src d
     \<and> (\<forall>r\<in>set rows. ob_id r \<in> set (applied (tables_of c d (ob_target_shard r))))"

lemma absorbed_stable: "stable (absorbing c src) (absorbed_rows c src rows)"
  unfolding stable_def absorbing_def absorbed_rows_def by blast

lemma absorbed_apply:
  assumes "wf_cluster c" and "Pool c (ob_target_shard e) = Inr p"
  shows "triple (absorbing c src) (absorbed_rows c src (e # rest)) (begin_func p (apply_event e))
    (\<lambda>r. absorbed_rows c src (e # rest))"
proof (rule absorb.triple_begin_func [OF absorbed_stable tx_frame_apply])
  fix d :: db and es u T es'
  assume P: "absorbed_rows c src (e # rest) d" and body: "apply_event e (tabs (d (p_dsn p)), es) = (Done (Inr u), T, es')"
  have "ob_id e \<in> set (applied (tabs (d (p_dsn p))))" using P by (simp add: absorbed_rows_def tables_of_node [OF assms(2)])
  then have "T = tabs (d (p_dsn p))" using apply_event_Done [OF body] by auto
  then have "d(p_dsn p := (d (p_dsn p))\<lparr>tabs := T\<rparr>) = d" by simp
  then show "let d' = d(p_dsn p := (d (p_dsn p))\<lparr>tabs := T\<rparr>)
    in absorbing c src d d' \<and> absorbed_rows c src (e # rest) d' \<and> absorbed_rows c src (e # rest) d'"
    using P by (simp add: Let_def absorb.R_refl)
qed simp

text \<open>A statement that rewrites outbox rows one by one and keeps their ids and targets.\<close>

definition marks_rows :: "(time \<Rightarrow> node \<Rightarrow> sql_error + unit \<times> node) \<Rightarrow> bool" where
  "marks_rows stmt \<longleftrightarrow> (\<forall>t n x m. stmt t n = Inr (x, m) \<longrightarrow>
     (\<exists>f. tabs m = (tabs n)\<lparr>outbox := map f (outbox (tabs n))\<rparr>
       \<and> (\<forall>q. ob_id (f q) = ob_id q \<and> ob_target_shard (f q) = ob_target_shard q)))"

lemma absorbed_marks:
  assumes "wf_cluster c" and "Pool c s = Inr p" and "marks_rows stmt"
  shows "triple (absorbing c src) (absorbed_rows c src rest) (round_trip p stmt) (\<lambda>r. absorbed_rows c src rest)"
proof (rule absorb.triple_round_trip [OF absorbed_stable])
  fix t d x n assume P: "absorbed_rows c src rest d" and stmt: "stmt t (d (p_dsn p)) = Inr (x, n)"
  obtain f where f: "tabs n = (tables_of c d s)\<lparr>outbox := map f (outbox (tables_of c d s))\<rparr>"
      "\<And>q. ob_id (f q) = ob_id q" "\<And>q. ob_target_shard (f q) = ob_target_shard q"
    using assms(3) stmt unfolding marks_rows_def tables_of_node [OF assms(2), symmetric] by blast
  have "absorbing c src d (d(p_dsn p := n))"
    by (rule absorbing_rows [OF assms(1,2)]) (use f in auto)
  then show "absorbing c src d (d(p_dsn p := n)) \<and> absorbed_rows c src rest (d(p_dsn p := n)) \<and> absorbed_rows c src rest (d(p_dsn p := n))"
    using P absorbed_stable [of c src rest] by (simp add: stable_def)
qed simp

lemma marks_rows_mark: "marks_rows (sql_mark_delivered k)"
  unfolding marks_rows_def sql_mark_delivered_def
  by (auto intro!: exI [of _ "\<lambda>r. if ob_id r = k then r\<lparr>ob_delivered := True\<rparr> else r"])

lemma marks_rows_unmark: "marks_rows (sql_unmark k)"
  unfolding marks_rows_def sql_unmark_def
  by (auto intro!: exI [of _ "\<lambda>r. if ob_id r = k then r\<lparr>ob_delivered := False\<rparr> else r"])

lemma absorbed_less: "absorbed_rows c src (e # rest) d \<Longrightarrow> absorbed_rows c src rest d"
    "absorbed_rows c src rest d \<Longrightarrow> absorbed c src d"
  by (auto simp: absorbed_rows_def)

lemma absorbed_event:
  assumes "wf_cluster c" and "Pool c src = Inr p"
  shows "triple (absorbing c src) (absorbed_rows c src (e # rest)) (relay_event c p e n) (\<lambda>r. absorbed_rows c src rest)"
proof (cases "Pool c (ob_target_shard e)")
  case (Inl err)
  then show ?thesis unfolding relay_event_def by (simp del: ret_simp) (rule absorb.triple_ret, rule absorbed_less)
next
  case (Inr q)
  show ?thesis
    unfolding relay_event_def Inr sum.case
    by (rule absorb.triple_try [OF absorbed_apply [OF assms(1) Inr]], rule absorb.triple_ret, erule absorbed_less,
        rule absorb.triple_try [OF triple_weaken [OF absorbed_marks [OF assms marks_rows_mark]]], erule absorbed_less, assumption,
        (rule absorb.triple_ret, assumption)+)
qed

lemma absorbed_RelayOnce:
  assumes "wf_cluster c"
  shows "triple (absorbing c src) (absorbed_rows c src []) (RelayOnce c src batch) (\<lambda>r. absorbed_rows c src [])"
proof (cases "Pool c src")
  case (Inl e)
  then show ?thesis unfolding RelayOnce_def by (simp del: ret_simp) (rule absorb.triple_ret)
next
  case (Inr p)
  have query: "triple (absorbing c src) (absorbed_rows c src []) (query_rows p (sql_pending batch))
      (\<lambda>r d. absorbed_rows c src (case r of Inr (rows, None) \<Rightarrow> rows | _ \<Rightarrow> []) d)"
  proof (rule absorb.triple_query_rows [OF absorbed_stable])
    fix d :: db and rows k assume P: "absorbed_rows c src [] d" and q: "sql_pending batch (d (p_dsn p)) = Inr rows"
    have "set rows \<subseteq> set (outbox (tables_of c d src))"
      using q by (auto simp: sql_pending_def tables_of_node [OF Inr] split: if_splits dest!: in_set_takeD)
    then show "absorbed_rows c src (case Inr (rows, None) of Inr (rows, None) \<Rightarrow> rows | _ \<Rightarrow> []) d
        \<and> absorbed_rows c src (case Inr (take k rows, Some EDriver) of Inr (rows, None) \<Rightarrow> rows | _ \<Rightarrow> []) d"
      using P by (auto simp: absorbed_rows_def absorbed_def)
  qed simp
  have loop: "triple (absorbing c src) (absorbed_rows c src evs) (for_io (relay_event c p) evs 0) (\<lambda>r. absorbed_rows c src [])" for evs
    by (rule absorb.triple_for [where I = "\<lambda>evs n. absorbed_rows c src evs", OF triple_weaken [OF absorbed_event [OF assms Inr]]])
      (auto simp: absorbed_rows_def split: sum.splits)
  show ?thesis
    unfolding RelayOnce_def Inr sum.case
  proof (rule absorb.triple_try [OF query], goal_cases)
    case (2 x)
    obtain evs err where x: "x = (evs, err)" by (cases x)
    show ?case
    proof (cases err)
      case None
      show ?thesis
        unfolding x None prod.case option.case
        by (rule absorb.triple_try [where Q = "\<lambda>r. absorbed_rows c src []"], rule triple_weaken [OF loop])
          (auto intro!: absorb.triple_ret simp del: ret_simp split: prod.splits)
    next
      case (Some e)
      show ?thesis unfolding x Some by (simp del: ret_simp) (rule absorb.triple_ret)
    qed
  qed (simp del: ret_simp, rule absorb.triple_ret)
qed

lemma absorbed_replay:
  assumes "wf_cluster c"
  shows "triple (absorbing c src) (absorbed_rows c src []) (replayLast c src k) (\<lambda>r. absorbed_rows c src [])"
proof (cases "Pool c src")
  case (Inl e)
  then show ?thesis unfolding replayLast_def by (simp del: ret_simp) (rule absorb.triple_ret)
next
  case (Inr p)
  show ?thesis
    unfolding replayLast_def Inr sum.case
  proof (rule absorb.triple_try [OF absorbed_marks [OF assms Inr marks_rows_unmark]], rule absorb.triple_ret, assumption,
      rule absorb.triple_bind [OF absorbed_RelayOnce [OF assms]])
    show "triple (absorbing c src) (absorbed_rows c src [])
        (case r of (n, err) \<Rightarrow> case err of None \<Rightarrow> ret (Inr n) | Some e \<Rightarrow> ret (Inl e)) (\<lambda>r. absorbed_rows c src [])" for r
      by (cases r; cases "snd r") (simp_all del: ret_simp add: absorb.triple_ret)
  qed
qed

section \<open>Resolving orphans\<close>

interpretation same_tables: rely "\<lambda>d d'. tables_of c d' = tables_of c d" for c
  by unfold_locales simp_all

lemma rollback_effect:
  assumes "wf_cluster c" and "Pool c s = Inr p" and "sql_rollback_prepared g t (d (p_dsn p)) = Inr (u, n)"
  shows "tables_of c (d(p_dsn p := n)) = tables_of c d"
    and "Pool c s' = Inr p' \<Longrightarrow> prepared ((d(p_dsn p := n)) (p_dsn p'))
      = filter (\<lambda>px. s' = s \<longrightarrow> px_gid px \<noteq> g) (prepared (d (p_dsn p')))"
proof -
  have n: "n = (d (p_dsn p))\<lparr>prepared := filter (\<lambda>px. px_gid px \<noteq> g) (prepared (d (p_dsn p)))\<rparr>"
    using assms(3) by (auto simp: sql_rollback_prepared_def split: option.splits)
  show "tables_of c (d(p_dsn p := n)) = tables_of c d"
    unfolding tables_of_update [OF assms(1,2)] by (rule ext) (simp add: n tables_of_node [OF assms(2)])
  assume p': "Pool c s' = Inr p'"
  show "prepared ((d(p_dsn p := n)) (p_dsn p')) = filter (\<lambda>px. s' = s \<longrightarrow> px_gid px \<noteq> g) (prepared (d (p_dsn p')))"
  proof (cases "s' = s")
    case False
    then have "p_dsn p' \<noteq> p_dsn p" using Pool_node_inj [OF assms(1) p' assms(2)] by blast
    then show ?thesis using False by simp
  qed (use p' assms(2) n in simp)
qed

lemma guar_resolve_one:
  assumes "wf_cluster c"
  shows "guar (\<lambda>d d'. tables_of c d' = tables_of c d) (resolve_one c r u)"
proof (cases "Pool c (or_Shard r)")
  case (Inr p)
  have "guar (\<lambda>d d'. tables_of c d' = tables_of c d) (round_trip p (sql_rollback_prepared (or_GID r)))"
    by (rule same_tables.guar_round_trip) (rule rollback_effect(1) [OF assms Inr])
  then show ?thesis
    unfolding resolve_one_def Inr by (auto intro!: same_tables.guar_try same_tables.guar_ret simp del: ret_simp)
qed (simp add: resolve_one_def same_tables.guar_ret del: ret_simp)

lemma guar_orphans_body:
  assumes "wf_cluster c"
  shows "guar (\<lambda>d d'. tables_of c d' = tables_of c d) (orphans_body resolve c)"
proof -
  have on: "guar (\<lambda>d d'. tables_of c d' = tables_of c d) (orphans_on c s out)" for s out
    unfolding orphans_on_def
    by (cases "Pool c s")
      (auto intro!: same_tables.guar_ret same_tables.guar_try same_tables.guar_query_rows_at simp del: ret_simp split: option.splits)
  have orphans: "guar (\<lambda>d d'. tables_of c d' = tables_of c d) (Orphans c)"
    unfolding Orphans_def by (rule same_tables.guar_for [OF on])
  have loop: "guar (\<lambda>d d'. tables_of c d' = tables_of c d) (for_io (resolve_one c) rs ())" for rs
    by (rule same_tables.guar_for) (rule guar_resolve_one [OF assms])
  show ?thesis
    unfolding orphans_body_def
    by (rule same_tables.guar_try [OF orphans])
      (auto intro!: same_tables.guar_ret same_tables.guar_try loop simp del: ret_simp)
qed

lemma resolve_loop:
  assumes "wf_cluster c" and "moves_in (=) (script w)" and "for_io (resolve_one c) rs () w = (Done (Inr ()), w')"
    and "Pool c s = Inr p"
  shows "prepared (nodes w' (p_dsn p))
    = filter (\<lambda>px. \<forall>r\<in>set rs. or_Shard r = s \<longrightarrow> px_gid px \<noteq> or_GID r) (prepared (nodes w (p_dsn p)))"
  using assms(2,3)
proof (induction rs arbitrary: w)
  case (Cons r rs)
  obtain q where q: "Pool c (or_Shard r) = Inr q"
    using Cons.prems(2) by (cases "Pool c (or_Shard r)") (simp_all add: resolve_one_def)
  obtain w1 where one: "resolve_one c r () w = (Done (Inr ()), w1)" and rest: "for_io (resolve_one c) rs () w1 = (Done (Inr ()), w')"
    using Cons.prems(2) by (auto simp: try_io_def bind_io_def split: prod.splits outcome.splits sum.splits)
  obtain u where rt: "round_trip q (sql_rollback_prepared (or_GID r)) w = (Done (Inr u), w1)"
    using one q by (auto simp: resolve_one_def try_io_def bind_io_def split: prod.splits outcome.splits sum.splits)
  note quiet = round_trip_quiet [OF Cons.prems(1) rt]
  obtain t n where n: "sql_rollback_prepared (or_GID r) t (nodes w (p_dsn q)) = Inr (u, n)" "nodes w1 = (nodes w)(p_dsn q := n)"
    using quiet(3) [OF refl] by blast
  have "prepared (nodes w1 (p_dsn p)) = filter (\<lambda>px. s = or_Shard r \<longrightarrow> px_gid px \<noteq> or_GID r) (prepared (nodes w (p_dsn p)))"
    unfolding n(2) by (rule rollback_effect(2) [where d = "nodes w", OF assms(1) q n(1) assms(4)])
  then show ?case using Cons.IH [OF quiet(1) rest] by (auto intro!: filter_cong)
qed (simp add: ret_def)

section \<open>Properties\<close>

text \<open>A 2PC transfer that reports success has credited the target in full, but it has debited the
  source only if the balance was there, and when both tenants are on one shard it has only
  debited: money is made in the first case and lost in the second.  Every other balance is as
  it was.  A run with \<open>-crash\<close> never reports success.\<close>

theorem transfer_2pc_ledger:
  assumes "moves_in (=) (script w)" and "wf_cluster c"
    and "gids_fresh c (''xfer-'' @ fmt_d nanos) (transfer_parts flip src dst (fl_from fl) (fl_to fl) (fl_cents fl)) (nodes w)"
    and "transfer_2pc c flip nanos src dst fl w = (Done (Inr ()), w')"
    and "paid = (\<exists>b. map_of (ledger (tables_of c (nodes w) src)) (fl_from fl) = Some b \<and> fl_cents fl \<le> b)"
  shows "\<not> fl_crash fl
    \<and> go_count (ledger (tables_of c (nodes w') s)) t = go_count (ledger (tables_of c (nodes w) s)) t
      - (if s = src \<and> t = fl_from fl \<and> paid then fl_cents fl else 0)
      + (if s = dst \<and> dst \<noteq> src \<and> t = fl_to fl then fl_cents fl else 0)"
proof -
  have live: "\<not> fl_crash fl"
  proof
    assume "fl_crash fl"
    then show False
      using assms(4)
      by (auto simp: transfer_2pc_def Let_def try_io_def bind_io_def os_Exit_def split: prod.splits outcome.splits sum.splits)
  qed
  then have "TwoPC_Do c (''xfer-'' @ fmt_d nanos) (transfer_parts flip src dst (fl_from fl) (fl_to fl) (fl_cents fl)) w
      = (Done (Inr ()), w')"
    using assms(4) by (auto simp: transfer_2pc_def Let_def try_io_def bind_io_def split: prod.splits outcome.splits sum.splits)
  from two_pc_ledger [OF assms(1-3) this] live show ?thesis unfolding assms(5) by blast
qed


text \<open>Replaying any event, applied or not, neither makes nor loses money: whatever becomes of the
  replay, the outbox invariant and every settled balance are as they were, while other relays
  are at work.\<close>

theorem replay_keeps_the_bank:
  assumes "wf_cluster c" and "outbox_inv own c (nodes w)" and "moves_in (evolves (=) own c) (script w)"
    and "replayLast c src k w = (r, w')"
  shows "outbox_inv own c (nodes w')
    \<and> settled (set (Shards c)) (tables_of c (nodes w')) = settled (set (Shards c)) (tables_of c (nodes w))"
  using replay_evolves [OF assms] .

text \<open>C25: Resolving orphans touches no table, whatever happens to it, and when it reports success every
  prepared transaction of every shard is gone.\<close>

theorem orphans_resolved:
  assumes "wf_cluster c" and "moves_in (=) (script w)" and "orphans_body resolve c w = (r, w')"
  shows "tables_of c (nodes w') = tables_of c (nodes w)
    \<and> (resolve \<and> r = Done (Inr out) \<longrightarrow> (\<forall>s p. Pool c s = Inr p \<longrightarrow> prepared (nodes w' (p_dsn p)) = []))"
proof (intro conjI impI allI)
  have "moves_in (\<lambda>d d'. tables_of c d' = tables_of c d) (script w)" using assms(2) by (auto simp: moves_in_def)
  then show "tables_of c (nodes w') = tables_of c (nodes w)"
    using guar_orphans_body [OF assms(1), of resolve] assms(3) unfolding guar_def by (metis snd_conv)
  fix s p assume ok: "resolve \<and> r = Done (Inr out)" and p: "Pool c s = Inr p"
  obtain os w1 where orphans: "Orphans c w = (Done (Inr os), w1)"
      and rest: "(if os = [] then ret (Inr []) else try_io (for_io (resolve_one c) os ()) (\<lambda>e. ret (Inl e)) (\<lambda>_. ret (Inr os))) w1
        = (Done (Inr out), w')"
    using assms(3) ok by (auto simp: orphans_body_def try_io_def bind_io_def cong: if_cong split: prod.splits outcome.splits sum.splits)
  note found = orphans_loop [OF assms(2) orphans [unfolded Orphans_def]]
  have moves: "moves_in (=) (script w1)"
    using read_only.guar_for [of "orphans_on c" "Shards c" "[]", OF read_only.guar_orphans_on] assms(2) orphans [unfolded Orphans_def]
    unfolding guar_def by (metis snd_conv)
  have all: "\<exists>r\<in>set os. or_Shard r = s \<and> or_GID r = px_gid px" if "px \<in> set (prepared (nodes w (p_dsn p)))" for px
  proof -
    have "(s, px_gid px, px_prepared px) \<in> set (orphans_of c (nodes w) s)" using that p by (auto simp: orphans_of_def)
    then have "(s, px_gid px, px_prepared px) \<in> set (map orphan_id os)"
      using found Pool_set [OF p] by (auto simp del: set_Shards)
    then show ?thesis by (auto simp: orphan_id_def)
  qed
  show "prepared (nodes w' (p_dsn p)) = []"
  proof (cases "os = []")
    case True
    then have "prepared (nodes w (p_dsn p)) = []" using all by (cases "prepared (nodes w (p_dsn p))") force+
    then show ?thesis using True rest found by simp
  next
    case False
    then have "for_io (resolve_one c) os () w1 = (Done (Inr ()), w')"
      using rest by (auto simp: try_io_def bind_io_def split: prod.splits outcome.splits sum.splits)
    from resolve_loop [OF assms(1) moves this p] all found show ?thesis by (force simp: filter_empty_conv)
  qed
qed

section \<open>Examples\<close>

definition demo_flags :: TransferFlags where
  "demo_flags = \<lparr>fl_from = 5, fl_to = 9, fl_cents = 500, fl_crash = False\<rparr>"

text \<open>Tenant 5 holds 100 and sends 500: tenant 9 receives 500 and tenant 5 still holds 100.\<close>

lemma demo_2pc:
  "\<exists>w'. transfer_2pc bank_cluster False 7 0 1 demo_flags (bank_world [] (replicate 10 (calm 1))) = (Done (Inr ()), w')"
  by (simp add: transfer_2pc_def demo_flags_def TwoPC_Do_def transfer_parts_def Let_def try_io_def bind_io_def request_def
      query_row_def round_trip_def run_leg_def tx_stmt_def sql_debit_2pc_def sql_credit_2pc_def sql_prepare_def
      bank_world_def empty_tables_def in_bigint_def go_count_def commit_one_def sql_commit_prepared_def numeral_eq_Suc)

lemma transfer_2pc_ledger_witness:
  "\<exists>w'. transfer_2pc bank_cluster False 7 0 1 demo_flags (bank_world [] (replicate 10 (calm 1))) = (Done (Inr ()), w')
    \<and> go_count (ledger (tables_of bank_cluster (nodes w') 0)) 5 = 100
    \<and> go_count (ledger (tables_of bank_cluster (nodes w') 1)) 9 = 500"
proof -
  let ?w = "bank_world [] (replicate 10 (calm 1))"
  let ?parts = "transfer_parts False 0 1 (fl_from demo_flags) (fl_to demo_flags) (fl_cents demo_flags)"
  obtain w' where run: "transfer_2pc bank_cluster False 7 0 1 demo_flags ?w = (Done (Inr ()), w')" using demo_2pc by blast
  have quiet: "moves_in (=) (script ?w)" by (simp add: bank_world_def moves_in_def)
  have fresh: "gids_fresh bank_cluster (''xfer-'' @ fmt_d 7) ?parts (nodes ?w)"
    by (simp add: gids_fresh_def bank_world_def)
  note ledger = transfer_2pc_ledger [OF quiet bank_pools(4) fresh run refl]
  from ledger [of 0 5] ledger [of 1 9] run show ?thesis
    by (simp add: bank_tables demo_flags_def empty_tables_def go_count_def)
qed

lemma demo_replay:
  "\<exists>w'. replayLast bank_cluster 0 7 (bank_world [] (replicate 2 (calm 1))) = (Done (Inr 0), w')"
  by (simp add: replayLast_def try_io_def bind_io_def round_trip_def sql_unmark_def RelayOnce_def query_rows_def
      query_rows_at_def sql_pending_def Let_def bank_world_def empty_tables_def numeral_eq_Suc)

text \<open>A recorded credit that is applied at its target: the replay delivers it again.\<close>

definition applied_world :: "event list \<Rightarrow> world" where
  "applied_world es = (bank_world [credit_row 7 1 5 9 30] es)\<lparr>nodes :=
     (nodes (bank_world [credit_row 7 1 5 9 30] es))(''b'' := \<lparr>tabs = empty_tables\<lparr>ledger := [(9, 30)], applied := [7]\<rparr>, prepared = []\<rparr>)\<rparr>"

lemma applied_replay:
  "\<exists>w'. replayLast bank_cluster 0 7 (applied_world (replicate 6 (calm 1))) = (Done (Inr 1), w')"
  by (simp add: replayLast_def try_io_def bind_io_def round_trip_def sql_unmark_def RelayOnce_def query_rows_def
      query_rows_at_def sql_pending_def Let_def applied_world_def bank_world_def empty_tables_def credit_row_def relay_event_def
      begin_func_def apply_event_def tx_try_def tx_bind_def tx_stmt_def tx_ret_def sql_insert_applied_def sql_mark_delivered_def
      numeral_eq_Suc)

text \<open>Event 7 of shard 0 has the id of an event that shard 1 has applied for another source: the relay
  takes it for a repeat, and the money has left tenant 5 for nobody.\<close>

lemma reused_id_drops_credit:
  "\<exists>w'. RelayOnce bank_cluster 0 100 (applied_world (replicate 6 (calm 1))) = (Done (1, None), w')
    \<and> ledger (tabs (nodes w' ''b'')) = [(9, 30)] \<and> map ob_delivered (outbox (tabs (nodes w' ''a''))) = [True]"
  by (simp add: try_io_def bind_io_def round_trip_def RelayOnce_def query_rows_def
      query_rows_at_def sql_pending_def Let_def applied_world_def bank_world_def empty_tables_def credit_row_def relay_event_def
      begin_func_def apply_event_def tx_try_def tx_bind_def tx_stmt_def tx_ret_def sql_insert_applied_def sql_mark_delivered_def
      numeral_eq_Suc)


lemma replay_keeps_the_bank_witness:
  "\<exists>w'. replayLast bank_cluster 0 7 (bank_world [] (replicate 2 (calm 1))) = (Done (Inr 0), w')
    \<and> outbox_inv (\<lambda>k. 0) bank_cluster (nodes w')"
proof -
  let ?w = "bank_world [] (replicate 2 (calm 1))"
  obtain w' where run: "replayLast bank_cluster 0 7 ?w = (Done (Inr 0), w')" using demo_replay by blast
  have "moves_in (evolves (=) (\<lambda>k. 0) bank_cluster) (script ?w)"
    by (simp add: bank_world_def moves_in_def still.evolves_refl)
  moreover have "outbox_inv (\<lambda>k. 0) bank_cluster (nodes ?w)" by (rule bank_inv) simp
  ultimately show ?thesis using replay_keeps_the_bank [OF bank_pools(4) _ _ run, of "\<lambda>k. 0"] run by blast
qed

text \<open>Shard 0 holds one orphan.\<close>

definition orphan_world :: "event list \<Rightarrow> world" where
  "orphan_world es = (bank_world [] es)\<lparr>nodes := (nodes (bank_world [] es))(''a'' :=
     \<lparr>tabs = empty_tables, prepared = [\<lparr>px_gid = ''g-0'', px_prepared = 1, px_effect = (\<lambda>T. T)\<rparr>]\<rparr>)\<rparr>"

lemma orphans_resolved_witness:
  "\<exists>out w'. orphans_body True bank_cluster (orphan_world (replicate 3 (calm 2))) = (Done (Inr out), w')
    \<and> map or_GID out = [''g-0''] \<and> prepared (nodes w' ''a'') = []"
proof -
  let ?w = "orphan_world (replicate 3 (calm 2))"
  obtain out w' where run: "orphans_body True bank_cluster ?w = (Done (Inr out), w')" and out: "map or_GID out = [''g-0'']"
    by (simp add: orphans_body_def Orphans_def orphans_on_def resolve_one_def try_io_def bind_io_def query_rows_at_def round_trip_def
        sql_orphans_def sql_rollback_prepared_def Let_def orphan_world_def bank_world_def numeral_eq_Suc)
  have "moves_in (=) (script ?w)" by (simp add: orphan_world_def bank_world_def moves_in_def)
  from orphans_resolved [OF bank_pools(4) this run, of out] have "prepared (nodes w' ''a'') = []"
    using bank_pools(1) by fastforce
  with out have "map or_GID out = [''g-0''] \<and> prepared (nodes w' ''a'') = []" by (rule conjI)
  with run show ?thesis by (intro exI) (rule conjI)
qed

end
