(* ===== verification/Commands.thy ===== *)
theory Commands
  imports Seed Transfers
begin

text \<open>
  The dispatcher of \<open>src/cmd/shardctl/main.go\<close>: \<open>main\<close> on its arguments, with its exit codes, and
  \<open>cmdDemo\<close>.  What each command finds in its environment while it runs is an argument.
\<close>

section \<open>The code\<close>

record run =
  rn_sched :: "nat \<Rightarrow> (int \<times> int) list"
  rn_relsize :: "tables \<Rightarrow> int"
  rn_flip :: bool
  rn_nanos :: int
  rn_clock :: "i64 list"
  rn_seed :: seed_env

text \<open>
  A command's error, without its report.  The ids command may wait for a clock that stands
  still until the process is killed.
\<close>

definition outcome_of :: "('e + 'a) command \<Rightarrow> ('e + unit) command" where
  "outcome_of m = try_io m (\<lambda>e. ret (Inl e)) (\<lambda>_. ret (Inr ()))"

definition run_topology :: "config \<Rightarrow> int \<Rightarrow> (gerr + TopologyReport) command" where
  "run_topology u sample = bind_io (lift_go (cmdTopology (nShards u) sample)) (\<lambda>rep. ret (Inr rep))"

definition run_ids :: "int \<times> int \<Rightarrow> i64 list \<Rightarrow> (gerr + (i64 \<times> i64 \<times> int \<times> int) list) command" where
  "run_ids = (\<lambda>(n, sh) clock.
     case cmdIDs n sh clock of
       Inl (ShardOutOfRange k) \<Rightarrow> ret (Inl (EShardRange k))
     | Inr None \<Rightarrow> (\<lambda>s. (Killed, s))
     | Inr (Some lines) \<Rightarrow> ret (Inr lines))"

text \<open>The commands on their arguments.\<close>

definition topology_command :: "config \<Rightarrow> string list \<Rightarrow> (stop + unit) command" where
  "topology_command u args = outcome_of (with_flags (topology_flags args) (run_topology u))"

definition seed_command :: "config \<Rightarrow> seed_env \<Rightarrow> string list \<Rightarrow> (stop + unit) command" where
  "seed_command u en args = outcome_of (with_flags (seed_flags args) (\<lambda>(tenants, per). cmdSeed u en tenants per))"

definition stats_command :: "config \<Rightarrow> (int \<times> int) list \<Rightarrow> (tables \<Rightarrow> int) \<Rightarrow> (stop + unit) command" where
  "stats_command u sched relsize = outcome_of (with_flags (Inr ()) (\<lambda>_. cmdStats u sched relsize))"

definition tenant_command :: "config \<Rightarrow> string list \<Rightarrow> (stop + unit) command" where
  "tenant_command u args = outcome_of (with_flags (Inr ()) (\<lambda>_. cmdTenant u args))"

definition count_command :: "config \<Rightarrow> (int \<times> int) list \<Rightarrow> string list \<Rightarrow> (stop + unit) command" where
  "count_command u sched args = outcome_of (with_flags (count_flags args) (cmdCount u sched))"

definition page_command :: "config \<Rightarrow> (nat \<Rightarrow> (int \<times> int) list) \<Rightarrow> string list \<Rightarrow> (stop + unit) command" where
  "page_command u scheds args = outcome_of (with_flags (page_flags args) (\<lambda>(pages, limit). cmdPage u scheds pages limit))"

definition ids_command :: "i64 list \<Rightarrow> string list \<Rightarrow> (stop + unit) command" where
  "ids_command clock args = outcome_of (with_flags (ids_flags args) (\<lambda>n_sh. run_ids n_sh clock))"

definition transfer_command :: "config \<Rightarrow> bool \<Rightarrow> int \<Rightarrow> string list \<Rightarrow> (stop + unit) command" where
  "transfer_command u flip nanos args = outcome_of (cmdTransfer u args flip nanos)"

definition orphans_command :: "config \<Rightarrow> string list \<Rightarrow> (stop + unit) command" where
  "orphans_command u args = outcome_of (with_flags (orphans_flags args) (cmdOrphans u))"

definition audit_command :: "config \<Rightarrow> (stop + unit) command" where
  "audit_command u = outcome_of (with_flags (Inr ()) (\<lambda>_. cmdAudit u))"

definition cmdDemo :: "config \<Rightarrow> run \<Rightarrow> (stop + unit) command" where
  "cmdDemo u rn = for_io (\<lambda>step _. step)
     [topology_command u [], stats_command u (rn_sched rn 0) (rn_relsize rn), tenant_command u [''7''],
      count_command u (rn_sched rn 1) [], page_command u (\<lambda>k. rn_sched rn (k + 2)) [''-pages'', ''2''],
      transfer_command u (rn_flip rn) (rn_nanos rn) [''outbox''], audit_command u] ()"

definition command_of :: "config \<Rightarrow> run \<Rightarrow> string \<Rightarrow> string list \<Rightarrow> (stop + unit) command option" where
  "command_of u rn cmd args =
     (if cmd = ''topology'' then Some (topology_command u args)
      else if cmd = ''seed'' then Some (seed_command u (rn_seed rn) args)
      else if cmd = ''stats'' then Some (stats_command u (rn_sched rn 0) (rn_relsize rn))
      else if cmd = ''tenant'' then Some (tenant_command u args)
      else if cmd = ''count'' then Some (count_command u (rn_sched rn 0) args)
      else if cmd = ''page'' then Some (page_command u (rn_sched rn) args)
      else if cmd = ''ids'' then Some (ids_command (rn_clock rn) args)
      else if cmd = ''transfer'' then Some (transfer_command u (rn_flip rn) (rn_nanos rn) args)
      else if cmd = ''orphans'' then Some (orphans_command u args)
      else if cmd = ''audit'' then Some (audit_command u)
      else if cmd = ''demo'' then Some (cmdDemo u rn)
      else None)"

text \<open>\<open>main\<close> on the arguments after the program's name: the code it exits with.\<close>

definition main :: "config \<Rightarrow> run \<Rightarrow> string list \<Rightarrow> int command" where
  "main u rn args =
     (case args of
        [] \<Rightarrow> ret 2
      | cmd # rest \<Rightarrow>
          (case command_of u rn cmd rest of
             None \<Rightarrow> ret 2
           | Some m \<Rightarrow> bind_io m (\<lambda>r. ret (case r of Inl (Failed e) \<Rightarrow> 1 | Inl (Exited code) \<Rightarrow> code | Inr _ \<Rightarrow> 0))))"

text \<open>The status that a command line's flags end the program with, if they do.\<close>

definition exit_code :: "int + 'f \<Rightarrow> int option" where
  "exit_code r = (case r of Inl code \<Rightarrow> Some code | Inr _ \<Rightarrow> None)"

definition flag_exit :: "string \<Rightarrow> string list \<Rightarrow> int option" where
  "flag_exit cmd args =
     (if cmd = ''topology'' then exit_code (topology_flags args)
      else if cmd = ''seed'' then exit_code (seed_flags args)
      else if cmd = ''count'' then exit_code (count_flags args)
      else if cmd = ''page'' then exit_code (page_flags args)
      else if cmd = ''ids'' then exit_code (ids_flags args)
      else if cmd = ''transfer''
      then (case transfer_mode args of Inl q \<Rightarrow> None | Inr (mode, rest) \<Rightarrow> exit_code (transfer_flags rest))
      else if cmd = ''orphans'' then exit_code (orphans_flags args)
      else None)"

definition db_commands :: "string list" where
  "db_commands = [''seed'', ''stats'', ''tenant'', ''count'', ''page'', ''transfer'', ''orphans'', ''audit'', ''demo'']"

definition commands :: "string list" where
  "commands = db_commands @ [''topology'', ''ids'']"

section \<open>No command opens a pool of its own\<close>

lemma pools_kept_panic: "pools_kept (Pair (Panicked q))"
  by (simp add: pools_kept_def)

lemma pools_kept_exit: "pools_kept os_Exit"
  by (simp add: pools_kept_def os_Exit_def)

lemma pools_kept_lift: "pools_kept (lift_go m)"
  by (cases m) (simp_all add: pools_kept_def lift_go_def)

lemma pools_kept_round_trip: "pools_kept (round_trip p stmt)"
  by (auto simp: pools_kept_def round_trip_def Let_def split: list.splits sum.splits)

lemma pools_kept_query_rows_at: "pools_kept (query_rows_at p q)"
  by (auto simp: pools_kept_def query_rows_at_def Let_def split: list.splits sum.splits reply.splits)

lemma pools_kept_begin_func: "pools_kept (begin_func p body)"
  by (auto simp: pools_kept_def begin_func_def Let_def split: list.splits sum.splits outcome.splits prod.splits)

lemma pools_kept_memory: "pools_kept (on_memory m s)"
  by (auto simp: pools_kept_def on_memory_def split: outcome.splits prod.splits)

lemmas pools_rules = pools_kept_ret pools_kept_bind pools_kept_try pools_kept_for pools_kept_lift pools_kept_query_row
  pools_kept_round_trip pools_kept_query_rows_at pools_kept_begin_func pools_kept_memory pools_kept_exit

lemma pools_kept_query_rows: "pools_kept (query_rows p q)"
  unfolding query_rows_def by (rule pools_kept_query_rows_at)

lemma pools_kept_request: "pools_kept (request p)"
  unfolding request_def by (rule pools_kept_query_row)

lemma pools_keptD: "pools_kept m \<Longrightarrow> open_pools (snd (m w)) = open_pools w \<and> next_pool (snd (m w)) = next_pool w"
  by (simp add: pools_kept_def)

lemma pools_kept_run_leg: "pools_kept (run_leg g p s fn)"
proof (unfold pools_kept_def, intro allI)
  fix w :: world
  have rb: "open_pools (snd (bind_io (request p) f w1)) = open_pools w1 \<and> next_pool (snd (bind_io (request p) f w1)) = next_pool w1"
    if "\<And>x. pools_kept (f x)" for f :: "gerr + unit \<Rightarrow> (gerr + unit) io" and w1
    by (rule pools_keptD) (intro pools_kept_bind pools_kept_request that)
  have pr: "open_pools (snd (try_io (round_trip p st) h f w1)) = open_pools w1 \<and> next_pool (snd (try_io (round_trip p st) h f w1)) = next_pool w1"
    if "\<And>e. pools_kept (h e)" "\<And>x. pools_kept (f x)"
    for st :: "time \<Rightarrow> node \<Rightarrow> sql_error + unit \<times> node" and h and f :: "unit \<Rightarrow> (gerr + unit) io" and w1
    by (rule pools_keptD) (intro pools_kept_try pools_kept_round_trip that)
  show "open_pools (snd (run_leg g p s fn w)) = open_pools w \<and> next_pool (snd (run_leg g p s fn w)) = next_pool w"
  proof (cases "script w")
    case (Cons b es)
    let ?T = "tabs (ev_move b (nodes w) (p_dsn p))"
    obtain r T es1 where fn: "fn (?T, es) = (r, T, es1)" by (metis prod_cases3)
    show ?thesis
    proof (cases r)
      case (Done v)
      show ?thesis
        using Cons fn Done
        by (cases v) (simp_all del: ret_simp add: run_leg_def Let_def rb pr pools_kept_ret pools_kept_bind pools_kept_request)
    qed (use Cons fn in \<open>simp_all add: run_leg_def Let_def\<close>)
  qed (simp add: run_leg_def)
qed

lemma pools_kept_gather: "(\<And>s p. pools_kept (fn s p)) \<Longrightarrow> pools_kept (gather z c fn sched)"
proof (induction sched)
  case (Cons a sched)
  obtain s took where a: "a = (s, took)" by (cases a)
  have "pools_kept (run_shard z c fn took s)"
    using Cons.prems unfolding run_shard_def
    by (cases "Pool c s") (auto intro!: pools_rules simp del: ret_simp)
  then show ?case using Cons by (auto simp: a intro!: pools_rules simp del: ret_simp)
qed (simp add: pools_kept_ret del: ret_simp)

lemma pools_kept_Scatter: "(\<And>s p. pools_kept (fn s p)) \<Longrightarrow> pools_kept (Scatter z sched c opts fn)"
  unfolding Scatter_def by (intro pools_kept_bind pools_kept_gather pools_kept_ret)

lemma pools_kept_stats: "pools_kept (stats_body sched relsize c)"
  unfolding stats_body_def Stats_def stats_fn_def
  by (auto intro!: pools_rules pools_kept_Scatter simp del: ret_simp split: sum.splits option.splits prod.splits)

lemma pools_kept_tenant: "pools_kept (tenant_body k cd)"
  unfolding tenant_body_def SummarizeTenant_def
  by (auto intro!: pools_rules simp del: ret_simp split: sum.splits prod.splits)

lemma pools_kept_count: "pools_kept (count_body sched partial c)"
  unfolding count_body_def StateCounts_def state_counts_fn_def
  by (auto intro!: pools_rules pools_kept_Scatter pools_kept_query_rows simp del: ret_simp split: sum.splits option.splits prod.splits)

lemma pools_kept_PageRecent: "pools_kept (PageRecent sched c cur limit)"
  unfolding PageRecent_def page_fn_def
  by (auto intro!: pools_rules pools_kept_Scatter pools_kept_query_rows simp del: ret_simp split: sum.splits option.splits prod.splits)

lemma pools_kept_pages: "pools_kept (page_loop c limit n scheds cur)"
proof (induction n arbitrary: cur)
  case (Suc n)
  show ?case
    unfolding page_loop.simps
    by (auto intro!: pools_rules pools_kept_PageRecent Suc.IH simp del: ret_simp split: prod.splits)
qed (simp add: pools_kept_ret del: ret_simp)

lemma pools_kept_audit: "pools_kept (audit_body c)"
  unfolding audit_body_def Misplaced_def audit_shard_def Let_def
  by (auto intro!: pools_rules pools_kept_query_rows simp del: ret_simp split: sum.splits prod.splits)

lemma pools_kept_RelayOnce: "pools_kept (RelayOnce c src batch)"
  unfolding RelayOnce_def relay_event_def
  by (auto intro!: pools_rules pools_kept_query_rows simp del: ret_simp split: sum.splits option.splits prod.splits)

lemma pools_kept_before: "pools_kept (before c fl)"
  unfolding before_def balance_line_def SummarizeTenant_def
  by (auto intro!: pools_rules simp del: ret_simp split: sum.splits prod.splits)

lemma pools_kept_outbox: "pools_kept (transfer_outbox c nanos src fl)"
  unfolding transfer_outbox_def Transfer_def PendingOutbox_def pending_on_def replayLast_def
  by (auto intro!: pools_rules pools_kept_before pools_kept_RelayOnce simp del: ret_simp split: sum.splits option.splits prod.splits)

lemma pools_kept_TwoPC: "pools_kept (TwoPC_Do c gid parts)"
proof -
  have rollback: "pools_kept (rollbackAll c legs)" for legs
    by (induction legs)
      (auto simp: rollback_one_def intro!: pools_rules simp del: ret_simp split: sum.splits)
  have one: "pools_kept (phase1 c gid parts legs)" for legs
    by (induction parts arbitrary: legs)
      (auto intro!: pools_rules rollback pools_kept_request pools_kept_run_leg simp del: ret_simp split: sum.splits)
  have two: "pools_kept (phase2 c legs)" for legs
    by (induction legs) (auto simp: commit_one_def intro!: pools_rules simp del: ret_simp split: sum.splits)
  show ?thesis unfolding TwoPC_Do_def by (intro pools_rules one two)
qed

lemma pools_kept_2pc: "pools_kept (transfer_2pc c flip nanos src dst fl)"
  unfolding transfer_2pc_def prepareOnly_def prepare_leg_def Let_def
  by (auto intro!: pools_rules pools_kept_TwoPC pools_kept_request pools_kept_run_leg simp del: ret_simp split: sum.splits prod.splits)

lemma pools_kept_transfer: "pools_kept (transfer_body mode fl flip nanos c)"
  unfolding transfer_body_def Let_def
  by (auto intro!: pools_rules pools_kept_before pools_kept_2pc pools_kept_outbox simp del: ret_simp split: prod.splits)

lemma pools_kept_orphans: "pools_kept (orphans_body resolve c)"
  unfolding orphans_body_def Orphans_def orphans_on_def resolve_one_def
  by (auto intro!: pools_rules simp del: ret_simp split: sum.splits option.splits prod.splits)

lemma pools_kept_seed: "pools_kept (seed_body en tenants per c)"
  unfolding seed_body_def Seed_def copy_bucket_def seed_ledger_on_def
  by (auto intro!: pools_rules simp del: ret_simp split: sum.splits option.splits prod.splits)

section \<open>Every command closes what it opens\<close>

lemma nShards_bound: "nShards u \<le> 2 ^ 63"
proof -
  have "n \<le> 2 ^ 63" if "ParseInt s = Inr n" for s n
    using that by (auto simp: ParseInt_def Let_def split: if_splits sum.splits)
  then show ?thesis by (auto simp: nShards_def envInt_def split: sum.splits)
qed

definition leaves_pools :: "('e + 'a) command \<Rightarrow> bool" where
  "leaves_pools m \<longleftrightarrow> (\<forall>s r s'. pools_fresh (pr_world s) \<longrightarrow> m s = (Done r, s') \<longrightarrow>
     open_pools (pr_world s') = open_pools (pr_world s) \<and> (\<forall>x. r = Inr x \<longrightarrow> pools_fresh (pr_world s')))"

lemma leaves_poolsI:
  assumes "\<And>s r s'. pools_fresh (pr_world s) \<Longrightarrow> m s = (Done r, s') \<Longrightarrow> open_pools (pr_world s') = open_pools (pr_world s)"
    and "\<And>s x s'. pools_fresh (pr_world s) \<Longrightarrow> m s = (Done (Inr x), s') \<Longrightarrow> next_pool (pr_world s) \<le> next_pool (pr_world s')"
  shows "leaves_pools m"
proof (unfold leaves_pools_def, intro allI impI conjI)
  fix s r s' assume s: "pools_fresh (pr_world s)" "m s = (Done r, s')"
  show same: "open_pools (pr_world s') = open_pools (pr_world s)" by (rule assms(1) [OF s])
  fix x assume "r = Inr x"
  then have "next_pool (pr_world s) \<le> next_pool (pr_world s')" using assms(2) s by blast
  then show "pools_fresh (pr_world s')" using s(1) same by (auto simp: pools_fresh_def list_all_iff)
qed

lemma leaves_with_cluster:
  assumes "\<And>cd. pools_kept (body cd)"
  shows "leaves_pools (with_cluster u body)"
proof -
  have run: "open_pools (pr_world s') = open_pools (pr_world s) \<and> (\<forall>x. r = Inr x \<longrightarrow> next_pool (pr_world s) \<le> next_pool (pr_world s'))"
    if fresh: "pools_fresh (pr_world s)" and wc: "with_cluster u body s = (Done r, s')" for s r s'
  proof -
    obtain o1 s1 where op: "open_cmd u s = (o1, s1)" by (metis surj_pair)
    then obtain v where v: "o1 = Done v" using wc by (cases o1) (simp_all add: with_cluster_def try_io_def bind_io_def)
    note result = open_cmd_result [OF op [unfolded v] fresh nShards_bound]
    show ?thesis
    proof (cases v)
      case (Inl e)
      then have "r = Inl e" "s' = s1" using wc op v by (simp_all add: with_cluster_def try_io_def bind_io_def)
      then show ?thesis using result Inl by simp
    next
      case (Inr cd)
      obtain c dir where cd: "cd = (c, dir)" by (cases cd)
      obtain o2 w2 where body: "body (c, dir) (pr_world s1) = (o2, w2)" by (metis surj_pair)
      then have kept: "open_pools w2 = open_pools (pr_world s1)" "next_pool w2 = next_pool (pr_world s1)"
        using pools_keptD [OF assms, of "(c, dir)" "pr_world s1"] by simp_all
      have s': "pr_world s' = w2\<lparr>open_pools := filter (\<lambda>h. h \<notin> p_handle ` snd ` set (pools c)) (open_pools w2)\<rparr>"
        using wc op v Inr cd body
        by (auto simp: with_cluster_def try_io_def bind_io_def on_world_def Close_def split: outcome.splits)
      have "next_pool (pr_world s) \<le> next_pool (pr_world s1)"
        "filter (\<lambda>h. h \<notin> p_handle ` snd ` set (pools c)) (open_pools (pr_world s1)) = open_pools (pr_world s)"
        using result Inr cd by (auto simp: Close_def)
      then show ?thesis by (simp add: s' kept)
    qed
  qed
  show ?thesis by (rule leaves_poolsI) (use run in blast)+
qed

lemma outcome_of_Done:
  assumes "outcome_of m s = (Done r, s')"
  shows "\<exists>v. m s = (Done v, s') \<and> (case v of Inl e \<Rightarrow> r = Inl e | Inr y \<Rightarrow> r = Inr ())"
  using assms by (auto simp: outcome_of_def try_io_def bind_io_def split: prod.splits outcome.splits sum.splits)

lemma leaves_outcome:
  assumes "leaves_pools m"
  shows "leaves_pools (outcome_of m)"
proof (unfold leaves_pools_def, intro allI impI)
  fix s r s' assume s: "pools_fresh (pr_world s)" and run: "outcome_of m s = (Done r, s')"
  then obtain v where v: "m s = (Done v, s')" "case v of Inl e \<Rightarrow> r = Inl e | Inr y \<Rightarrow> r = Inr ()"
    using outcome_of_Done by blast
  from assms [unfolded leaves_pools_def, rule_format, OF s v(1)] v(2)
  show "open_pools (pr_world s') = open_pools (pr_world s) \<and> (\<forall>x. r = Inr x \<longrightarrow> pools_fresh (pr_world s'))"
    by (cases v) auto
qed

lemma leaves_error: "leaves_pools (ret (Inl e))"
  by (simp add: leaves_pools_def)

lemma leaves_flags: "(\<And>x. leaves_pools (m x)) \<Longrightarrow> leaves_pools (with_flags fl m)"
  unfolding with_flags_def leaves_pools_def
  by (auto simp: try_io_def bind_io_def split: sum.splits prod.splits outcome.splits)

lemma leaves_topology: "leaves_pools (run_topology u sample)"
  by (auto simp: leaves_pools_def run_topology_def bind_io_def lift_go_def split: sum.splits)

lemma leaves_ids: "leaves_pools (run_ids nsh clock)"
  by (cases nsh) (auto simp: leaves_pools_def run_ids_def split: sum.splits option.splits id_error.splits)

lemma leaves_for:
  "\<forall>m\<in>set ms. leaves_pools m \<Longrightarrow> leaves_pools (for_io (\<lambda>step _. step) ms ())"
proof (induction ms)
  case (Cons m ms)
  then have m: "leaves_pools m" and ms: "leaves_pools (for_io (\<lambda>step _. step) ms ())" by simp_all
  show ?case
  proof (unfold leaves_pools_def, intro allI impI)
    fix s r s' assume s: "pools_fresh (pr_world s)" and run: "for_io (\<lambda>step _. step) (m # ms) () s = (Done r, s')"
    obtain v s1 where v: "m s = (Done v, s1)" using run by (auto simp: try_io_def bind_io_def split: prod.splits outcome.splits)
    note one = m [unfolded leaves_pools_def, rule_format, OF s v]
    show "open_pools (pr_world s') = open_pools (pr_world s) \<and> (\<forall>x. r = Inr x \<longrightarrow> pools_fresh (pr_world s'))"
    proof (cases v)
      case (Inl e)
      then show ?thesis using run v one by (simp add: try_io_def bind_io_def)
    next
      case (Inr x)
      then have "for_io (\<lambda>step _. step) ms () s1 = (Done r, s')" using run v by (simp add: try_io_def bind_io_def)
      from ms [unfolded leaves_pools_def, rule_format, OF _ this] one Inr show ?thesis by simp
    qed
  qed
qed (simp add: leaves_pools_def)

lemma leaves_transfer: "leaves_pools (cmdTransfer u args flip nanos)"
proof (cases "transfer_mode args")
  case (Inr mr)
  have "leaves_pools (with_flags (transfer_flags (snd mr)) (\<lambda>fl. with_cluster u (\<lambda>(c, dir). transfer_body (fst mr) fl flip nanos c)))"
    by (intro leaves_flags leaves_with_cluster) (auto intro: pools_kept_transfer)
  then show ?thesis unfolding cmdTransfer_def Inr by (cases mr) simp
qed (simp add: cmdTransfer_def leaves_pools_def bind_io_def)

lemma leaves_tenant: "leaves_pools (cmdTenant u args)"
  unfolding cmdTenant_def
  by (auto intro!: leaves_error leaves_with_cluster pools_kept_tenant simp del: ret_simp split: list.splits sum.splits)

lemma leaves_commands:
  "leaves_pools (cmdSeed u en tenants per)" "leaves_pools (cmdStats u sched relsize)"
  "leaves_pools (cmdCount u sched partial)" "leaves_pools (cmdPage u scheds pages limit)"
  "leaves_pools (cmdOrphans u resolve)" "leaves_pools (cmdAudit u)"
  unfolding cmdSeed_def cmdStats_def cmdCount_def cmdPage_def cmdOrphans_def cmdAudit_def
  by (rule leaves_with_cluster; auto intro: pools_kept_seed pools_kept_stats pools_kept_count pools_kept_pages
      pools_kept_orphans pools_kept_audit)+

lemma leaves_on_arguments:
  "leaves_pools (topology_command u args)" "leaves_pools (seed_command u en args)" "leaves_pools (stats_command u sched relsize)"
  "leaves_pools (tenant_command u args)" "leaves_pools (count_command u sched args)" "leaves_pools (page_command u scheds args)"
  "leaves_pools (ids_command clock args)" "leaves_pools (transfer_command u flip nanos args)" "leaves_pools (orphans_command u args)"
  "leaves_pools (audit_command u)"
  unfolding topology_command_def seed_command_def stats_command_def tenant_command_def count_command_def page_command_def
    ids_command_def transfer_command_def orphans_command_def audit_command_def
  by (intro leaves_outcome leaves_flags leaves_topology leaves_ids leaves_tenant leaves_commands leaves_transfer;
      simp add: leaves_commands split: prod.split)+

lemma leaves_demo: "leaves_pools (cmdDemo u rn)"
  unfolding cmdDemo_def by (rule leaves_for) (simp add: leaves_on_arguments)

lemma command_leaves: "command_of u rn cmd args = Some m \<Longrightarrow> leaves_pools m"
  unfolding command_of_def by (auto intro: leaves_on_arguments leaves_demo split: if_split_asm)

lemma if_Some_None: "(if b then Some x else y) = None \<longleftrightarrow> \<not> b \<and> y = None"
  by simp

lemma command_of_None: "command_of u rn cmd args = None \<longleftrightarrow> cmd \<notin> set commands"
  unfolding command_of_def commands_def db_commands_def append.simps list.set if_Some_None insert_iff
  by (simp only: empty_iff de_Morgan_disj simp_thms) (simp only: conj_ac)

section \<open>Leaving with the flags' status\<close>

lemma with_flags_exit: "with_flags fl m s = (Done (Inl (Exited k)), s') \<longleftrightarrow> fl = Inl k \<and> s' = s"
  by (auto simp: with_flags_def try_io_def bind_io_def split: sum.splits prod.splits outcome.splits)

lemma outcome_of_exit: "outcome_of m s = (Done (Inl e), s') \<longleftrightarrow> m s = (Done (Inl e), s')"
  by (auto simp: outcome_of_def try_io_def bind_io_def split: prod.splits outcome.splits sum.splits)

lemmas exit_simps = outcome_of_exit with_flags_exit

lemma transfer_exit:
  "transfer_command u flip nanos args s = (Done (Inl (Exited k)), s')
   \<longleftrightarrow> (\<exists>mode rest. transfer_mode args = Inr (mode, rest) \<and> transfer_flags rest = Inl k \<and> s' = s)"
  by (cases "transfer_mode args") (auto simp: transfer_command_def cmdTransfer_def exit_simps bind_io_def split: prod.splits)

lemmas parse_defs = topology_flags_def topology_defaults_def topology_values_def count_flags_def count_defaults_def count_values_def
  page_flags_def page_defaults_def page_values_def transfer_flags_def transfer_defaults_def transfer_values_def transfer_mode_def
  exit_or_def Parse.simps parseOne_def put_flag_def Set_flag_def IsBoolFlag_def int_flag_def uint_flag_def bool_flag_def
  ParseInt0_def ParseUint0_def base_prefix_def digit36_def digit_val_def lower_case_def max_uint64_def Let_def

lemma demo_flags_read:
  "topology_flags [] = Inr 100000" "count_flags [] = Inr False" "page_flags [''-pages'', ''2''] = Inr (2, 10)"
  "transfer_mode [''outbox''] = Inr (''outbox'', [])"
  "transfer_flags [] = Inr \<lparr>fl_from = 1, fl_to = 2, fl_cents = 500, fl_crash = False\<rparr>"
  by (simp_all add: parse_defs)

lemma for_steps_exit:
  "(\<And>m s s'. m \<in> set ms \<Longrightarrow> m s \<noteq> (Done (Inl (Exited k)), s')) \<Longrightarrow> for_io (\<lambda>step _. step) ms () s \<noteq> (Done (Inl (Exited k)), s')"
proof (induction ms arbitrary: s)
  case (Cons m ms)
  have "m s \<noteq> (Done (Inl (Exited k)), s1)" for s1 by (rule Cons.prems) simp
  moreover have "for_io (\<lambda>step _. step) ms () s1 \<noteq> (Done (Inl (Exited k)), s')" for s1
    by (rule Cons.IH) (use Cons.prems in auto)
  ultimately show ?case by (auto simp: try_io_def bind_io_def split: prod.splits outcome.splits sum.splits)
qed simp

lemma demo_exit: "cmdDemo u rn s \<noteq> (Done (Inl (Exited k)), s')"
  unfolding cmdDemo_def
  by (rule for_steps_exit)
    (auto simp: topology_command_def stats_command_def tenant_command_def count_command_def page_command_def audit_command_def
      exit_simps transfer_exit demo_flags_read)

lemma exit_code_Some: "exit_code r = Some k \<longleftrightarrow> r = Inl k"
  by (simp add: exit_code_def split: sum.split)

lemma command_exit:
  assumes "command_of u rn cmd args = Some m"
  shows "m s = (Done (Inl (Exited k)), s') \<longleftrightarrow> flag_exit cmd args = Some k \<and> s' = s"
  using assms unfolding command_of_def
  by (auto simp: flag_exit_def exit_code_Some exit_simps transfer_exit demo_exit topology_command_def seed_command_def
      stats_command_def tenant_command_def count_command_def page_command_def ids_command_def orphans_command_def
      audit_command_def split: if_split_asm sum.split)

lemma flag_exit_command: "flag_exit cmd args = Some k \<Longrightarrow> cmd \<in> set commands"
  by (auto simp: flag_exit_def commands_def db_commands_def split: if_split_asm)

lemma flag_exit_status: "flag_exit cmd args = Some k \<Longrightarrow> k = 0 \<or> k = 2"
  unfolding flag_exit_def topology_flags_def seed_flags_def count_flags_def page_flags_def ids_flags_def transfer_flags_def
    orphans_flags_def
  by (auto simp: exit_code_Some dest: flags_exit split: if_split_asm sum.splits)

section \<open>Refusing a placement that does not fit\<close>

text \<open>A command that fails, where it is done at all, and leaves the databases as they were.\<close>

definition refuses :: "('e \<Rightarrow> bool) \<Rightarrow> ('e + 'a) command \<Rightarrow> process \<Rightarrow> bool" where
  "refuses err m s \<longleftrightarrow> (\<forall>r s'. m s = (Done r, s') \<longrightarrow> (\<exists>e. r = Inl e \<and> err e) \<and> pr_world s' = pr_world s)"

abbreviation failed :: "stop \<Rightarrow> bool" where
  "failed e \<equiv> \<exists>g. e = Failed g"

lemma refuses_outcome:
  assumes "refuses err m s"
  shows "refuses err (outcome_of m) s"
proof (unfold refuses_def, intro allI impI)
  fix r s' assume "outcome_of m s = (Done r, s')"
  then obtain v where v: "m s = (Done v, s')" "case v of Inl e \<Rightarrow> r = Inl e | Inr y \<Rightarrow> r = Inr ()"
    using outcome_of_Done by blast
  from assms [unfolded refuses_def, rule_format, OF v(1)] v(2)
  show "(\<exists>e. r = Inl e \<and> err e) \<and> pr_world s' = pr_world s" by auto
qed

lemma refuses_flags:
  assumes "fl = Inr x" and "refuses err (m x) s"
  shows "refuses failed (with_flags fl m) s"
proof (unfold refuses_def, intro allI impI)
  fix r s' assume "with_flags fl m s = (Done r, s')"
  then obtain v where v: "m x s = (Done v, s')" "case v of Inl e \<Rightarrow> r = Inl (Failed e) | Inr y \<Rightarrow> r = Inr y"
    by (auto simp: with_flags_def assms(1) try_io_def bind_io_def split: prod.splits outcome.splits sum.splits)
  from assms(2) [unfolded refuses_def, rule_format, OF v(1)] v(2)
  show "(\<exists>e. r = Inl e \<and> failed e) \<and> pr_world s' = pr_world s" by auto
qed

lemma refuses_error: "refuses (\<lambda>e. True) (ret (Inl e)) s"
  by (simp add: refuses_def)

lemma refuses_unfit:
  assumes "LoadOrInitDirectory (topoPath u) 1024 (nShards u) (pr_host s) = (Done (Inr dir), h)"
    and "checkPlacementFits (nShards u) (topoPath u) dir = Some e"
  shows "refuses (\<lambda>e. True) (with_cluster u body) s"
proof -
  have "open_cmd u s = (Done (Inl e), s\<lparr>pr_host := h\<rparr>)"
    using assms by (simp add: open_cmd_def on_host_def try_io_def bind_io_def)
  then show ?thesis by (simp add: refuses_def with_cluster_def try_io_def bind_io_def)
qed

lemma refuses_commands:
  assumes "LoadOrInitDirectory (topoPath u) 1024 (nShards u) (pr_host s) = (Done (Inr dir), h)"
    and "checkPlacementFits (nShards u) (topoPath u) dir = Some e"
  shows "exit_code (seed_flags args) = None \<Longrightarrow> refuses failed (seed_command u en args) s"
    "refuses failed (stats_command u sched relsize) s"
    "refuses failed (tenant_command u args) s"
    "exit_code (count_flags args) = None \<Longrightarrow> refuses failed (count_command u sched args) s"
    "exit_code (page_flags args) = None \<Longrightarrow> refuses failed (page_command u scheds args) s"
    "flag_exit ''transfer'' args = None \<Longrightarrow> refuses failed (transfer_command u flip nanos args) s"
    "exit_code (orphans_flags args) = None \<Longrightarrow> refuses failed (orphans_command u args) s"
    "refuses failed (audit_command u) s"
proof -
  note unfit = refuses_unfit [OF assms]
  have tenant: "refuses (\<lambda>e. True) (cmdTenant u args) s"
    unfolding cmdTenant_def by (auto intro: refuses_error unfit simp del: ret_simp split: list.splits sum.splits)
  have flags: "refuses failed (outcome_of (with_flags fl m)) s"
    if "exit_code fl = None" "\<And>x. refuses (\<lambda>e. True) (m x) s" for fl :: "int + 'f" and m :: "'f \<Rightarrow> (gerr + 'r) command"
    using that refuses_flags [of fl _ "\<lambda>e. True" m s] by (cases fl) (simp_all add: exit_code_def refuses_outcome)
  show "exit_code (seed_flags args) = None \<Longrightarrow> refuses failed (seed_command u en args) s"
    unfolding seed_command_def by (rule flags) (auto simp: cmdSeed_def unfit)
  show "refuses failed (stats_command u sched relsize) s"
    unfolding stats_command_def by (rule flags) (auto simp: exit_code_def cmdStats_def unfit)
  show "refuses failed (tenant_command u args) s"
    unfolding tenant_command_def by (rule flags) (auto simp: exit_code_def tenant)
  show "exit_code (count_flags args) = None \<Longrightarrow> refuses failed (count_command u sched args) s"
    unfolding count_command_def by (rule flags) (auto simp: cmdCount_def unfit)
  show "exit_code (page_flags args) = None \<Longrightarrow> refuses failed (page_command u scheds args) s"
    unfolding page_command_def by (rule flags) (auto simp: cmdPage_def unfit)
  show "exit_code (orphans_flags args) = None \<Longrightarrow> refuses failed (orphans_command u args) s"
    unfolding orphans_command_def by (rule flags) (auto simp: cmdOrphans_def unfit)
  show "refuses failed (audit_command u) s"
    unfolding audit_command_def by (rule flags) (auto simp: exit_code_def cmdAudit_def unfit)
  assume exits: "flag_exit ''transfer'' args = None"
  show "refuses failed (transfer_command u flip nanos args) s"
  proof (cases "transfer_mode args")
    case (Inr mr)
    obtain mode rest where mr: "mr = (mode, rest)" by (cases mr)
    have "exit_code (transfer_flags rest) = None" using exits Inr mr by (simp add: flag_exit_def)
    then obtain fl where "transfer_flags rest = Inr fl" by (cases "transfer_flags rest") (simp_all add: exit_code_def)
    from refuses_outcome [OF refuses_flags [OF this, where m = "\<lambda>fl. with_cluster u (\<lambda>(c, dir). transfer_body mode fl flip nanos c)", OF unfit]]
    show ?thesis by (simp add: transfer_command_def cmdTransfer_def Inr mr)
  qed (simp add: transfer_command_def outcome_of_def try_io_def cmdTransfer_def refuses_def bind_io_def)
qed

lemma refuses_demo:
  assumes "refuses failed (stats_command u (rn_sched rn 0) (rn_relsize rn)) s"
  shows "refuses failed (cmdDemo u rn) s"
proof -
  obtain r0 s0 where top: "topology_command u [] s = (r0, s0)" by (metis surj_pair)
  have r0: "s0 = s \<and> (r0 = Done (Inr ()) \<or> (\<exists>q. r0 = Panicked q))"
    using top by (auto simp: topology_command_def outcome_of_def with_flags_def demo_flags_read run_topology_def lift_go_def
        try_io_def bind_io_def split: sum.splits)
  obtain r s1 where run: "stats_command u (rn_sched rn 0) (rn_relsize rn) s = (r, s1)" by (metis surj_pair)
  then have "r = Done v \<Longrightarrow> (\<exists>e. v = Inl e \<and> failed e) \<and> pr_world s1 = pr_world s" for v using assms by (simp add: refuses_def)
  then show ?thesis
    using top r0 run by (cases r) (auto simp: cmdDemo_def refuses_def try_io_def bind_io_def split: sum.splits)
qed

lemma refuses_db_command:
  assumes "LoadOrInitDirectory (topoPath u) 1024 (nShards u) (pr_host s) = (Done (Inr dir), h)"
    and "checkPlacementFits (nShards u) (topoPath u) dir = Some e"
    and "cmd \<in> set db_commands" and "command_of u rn cmd args = Some m" and "flag_exit cmd args = None"
  shows "refuses failed m s"
proof -
  note refuses = refuses_commands [OF assms(1,2)]
  note eqs = assms(4) [unfolded command_of_def] assms(5) [unfolded flag_exit_def]
  have "cmd = ''seed'' \<or> cmd = ''stats'' \<or> cmd = ''tenant'' \<or> cmd = ''count'' \<or> cmd = ''page'' \<or> cmd = ''transfer''
     \<or> cmd = ''orphans'' \<or> cmd = ''audit'' \<or> cmd = ''demo''"
    using assms(3) by (simp only: db_commands_def list.set insert_iff empty_iff simp_thms)
  then show ?thesis
  proof (elim disjE)
    assume "cmd = ''seed''"
    then show ?thesis using eqs refuses(1) [of args "rn_seed rn"] by simp
  next
    assume "cmd = ''stats''"
    then show ?thesis using eqs refuses(2) [of "rn_sched rn 0" "rn_relsize rn"] by simp
  next
    assume "cmd = ''tenant''"
    then show ?thesis using eqs refuses(3) [of args] by simp
  next
    assume "cmd = ''count''"
    then show ?thesis using eqs refuses(4) [of args "rn_sched rn 0"] by simp
  next
    assume "cmd = ''page''"
    then show ?thesis using eqs refuses(5) [of args "rn_sched rn"] by simp
  next
    assume "cmd = ''transfer''"
    then show ?thesis using eqs(1) assms(5) refuses(6) [of args "rn_flip rn" "rn_nanos rn"] by simp
  next
    assume "cmd = ''orphans''"
    then show ?thesis using eqs refuses(7) [of args] by simp
  next
    assume "cmd = ''audit''"
    then show ?thesis using eqs refuses(8) by simp
  next
    assume "cmd = ''demo''"
    then show ?thesis using eqs refuses_demo [OF refuses(2), of rn] by auto
  qed
qed

section \<open>Properties\<close>


text \<open>C17: Bad flags, or a call for help, end any command before it has touched anything: the program exits
  with the flags' status, 2 or 0, having opened no file and sent no statement.\<close>

theorem bad_flags_stop_first:
  assumes "flag_exit cmd args = Some k"
  shows "main u rn (cmd # args) s = (Done k, s) \<and> k \<in> {0, 2}"
proof -
  obtain m where m: "command_of u rn cmd args = Some m"
    using flag_exit_command [OF assms] command_of_None [of u rn cmd args] by blast
  have "m s = (Done (Inl (Exited k)), s)" using command_exit [OF m] assms by blast
  then show ?thesis using m flag_exit_status [OF assms] by (simp add: main_def bind_io_def)
qed

text \<open>Where the placement file routes to a shard this process would open no pool for, every command
  that reads or writes the shards exits with 1 and has touched no shard: none answers for the
  part of the cluster it can see.\<close>

theorem unfit_placement_refused:
  assumes "LoadOrInitDirectory (topoPath u) 1024 (nShards u) (pr_host s) = (Done (Inr dir), h)"
    and "p \<in> set (route_targets dir)" and "nShards u \<le> p" and "cmd \<in> set db_commands"
    and "flag_exit cmd rest = None"
    and "main u rn (cmd # rest) s = (Done code, s')"
  shows "code = 1 \<and> pr_world s' = pr_world s"
proof -
  have "checkPlacementFits (nShards u) (topoPath u) dir \<noteq> None" using assms(2,3) unfolding checkPlacementFits_None by force
  then obtain e where e: "checkPlacementFits (nShards u) (topoPath u) dir = Some e" by blast
  have "cmd \<in> set commands" using assms(4) by (simp add: commands_def)
  then obtain m where m: "command_of u rn cmd rest = Some m" using command_of_None [of u rn cmd rest] by blast
  have "refuses failed m s" by (rule refuses_db_command [OF assms(1) e assms(4) m assms(5)])
  then show ?thesis
    using assms(6) m by (auto simp: main_def bind_io_def refuses_def split: prod.splits outcome.splits sum.splits)
qed

section \<open>Examples\<close>

definition demo_run :: run where
  "demo_run = \<lparr>rn_sched = (\<lambda>k. [(1, 4), (0, 9)]), rn_relsize = (\<lambda>T. 8192), rn_flip = False, rn_nanos = 7, rn_clock = [],
     rn_seed = demo_env\<rparr>"

lemma demo_main:
  "\<exists>s'. main demo_config demo_run [''audit''] demo_process = (Done 1, s')"
proof -
  obtain dir h where load: "LoadOrInitDirectory (topoPath demo_config) 1024 (nShards demo_config) (pr_host demo_process) = (Done (Inr dir), h)"
      "3 \<in> set (route_targets dir)"
    using demo_unfit by blast
  then obtain e where e: "checkPlacementFits (nShards demo_config) (topoPath demo_config) dir = Some e"
    using checkPlacementFits_None [of "nShards demo_config" "topoPath demo_config" dir] by (force simp: demo_nShards)
  have "open_cmd demo_config demo_process = (Done (Inl e), demo_process\<lparr>pr_host := h\<rparr>)"
    using load(1) e by (simp add: open_cmd_def on_host_def try_io_def bind_io_def)
  then show ?thesis
    by (simp add: main_def command_of_def audit_command_def with_flags_def outcome_of_def cmdAudit_def with_cluster_def try_io_def bind_io_def)
qed


lemma unfit_placement_refused_witness:
  "\<exists>s'. main demo_config demo_run [''audit''] demo_process = (Done 1, s') \<and> pr_world s' = pr_world demo_process"
proof -
  obtain s' where run: "main demo_config demo_run [''audit''] demo_process = (Done 1, s')" using demo_main by blast
  obtain dir h where load: "LoadOrInitDirectory (topoPath demo_config) 1024 (nShards demo_config) (pr_host demo_process) = (Done (Inr dir), h)"
      "3 \<in> set (route_targets dir)"
    using demo_unfit by blast
  have "nShards demo_config \<le> 3" "''audit'' \<in> set db_commands" by (simp_all add: demo_nShards db_commands_def)
  moreover have "flag_exit ''audit'' [] = None" by (simp add: flag_exit_def)
  ultimately show ?thesis using unfit_placement_refused [OF load _ _ _ run] run by blast
qed

lemma bad_flags_stop_first_witness:
  "main demo_config demo_run [''transfer'', ''2pc'', ''-cents=12x''] demo_process = (Done 2, demo_process)"
proof -
  have "transfer_mode [''2pc'', ''-cents=12x''] = Inr (''2pc'', [''-cents=12x''])" "exit_code (transfer_flags [''-cents=12x'']) = Some 2"
    by (simp_all add: parse_defs exit_code_def)
  then have "flag_exit ''transfer'' [''2pc'', ''-cents=12x''] = Some 2" by (simp add: flag_exit_def)
  from bad_flags_stop_first [OF this] show ?thesis by simp
qed

end
