(* ===== verification/Isolation.thy ===== *)
theory Isolation
  imports Txn
begin

text \<open>
  Two-phase commit of \<open>src/internal/shard/txn.go\<close> among other clients.  While \<open>Do\<close> runs, others
  work on the same nodes: on each part's node they keep to a relation \<open>Q\<close> of the tables, which
  leaves alone what the part locks, and they do not name the part's prepared transaction.  Each
  part then happens at one moment between the moves of the others, on every shard or on none.
\<close>

section \<open>Triples with an invariant for every end\<close>

text \<open>
  From nodes in \<open>P\<close>, whatever others do by \<open>R\<close>, a program that is done leaves the nodes in \<open>Q\<close>
  of its result, and one that panics or is killed leaves them in \<open>I\<close>.
\<close>

definition runs :: "(db \<Rightarrow> db \<Rightarrow> bool) \<Rightarrow> (db \<Rightarrow> bool) \<Rightarrow> 'a io \<Rightarrow> (db \<Rightarrow> bool) \<Rightarrow> ('a \<Rightarrow> db \<Rightarrow> bool) \<Rightarrow> bool" where
  "runs R P m I Q \<longleftrightarrow> (\<forall>w. moves_in R (script w) \<longrightarrow> P (nodes w) \<longrightarrow>
     moves_in R (script (snd (m w)))
     \<and> (case fst (m w) of Done x \<Rightarrow> Q x (nodes (snd (m w))) | _ \<Rightarrow> I (nodes (snd (m w)))))"

lemma runsD:
  assumes "runs R P m I Q" and "moves_in R (script w)" and "P (nodes w)" and "m w = (r, w')"
  shows "moves_in R (script w')" and "case r of Done x \<Rightarrow> Q x (nodes w') | _ \<Rightarrow> I (nodes w')"
  using assms unfolding runs_def by (metis fst_conv snd_conv)+

lemma runsI:
  assumes "\<And>w r w'. moves_in R (script w) \<Longrightarrow> P (nodes w) \<Longrightarrow> m w = (r, w') \<Longrightarrow>
    moves_in R (script w') \<and> (case r of Done x \<Rightarrow> Q x (nodes w') | _ \<Rightarrow> I (nodes w'))"
  shows "runs R P m I Q"
  unfolding runs_def using assms by (metis prod.collapse)

lemma runs_weaken:
  assumes "runs R P m I Q" and "\<And>d. P' d \<Longrightarrow> P d" and "\<And>d. I d \<Longrightarrow> I' d" and "\<And>x d. Q x d \<Longrightarrow> Q' x d"
  shows "runs R P' m I' Q'"
  using assms unfolding runs_def by (auto split: outcome.splits)

lemma runs_ret: "(\<And>d. P d \<Longrightarrow> Q x d) \<Longrightarrow> runs R P (ret x) I Q"
  by (simp add: runs_def)

lemma runs_bind:
  assumes "runs R P m I Q" and "\<And>x. runs R (Q x) (f x) I Q'"
  shows "runs R P (bind_io m f) I Q'"
proof (rule runsI)
  fix w r w' assume w: "moves_in R (script w)" "P (nodes w)" and run: "bind_io m f w = (r, w')"
  obtain r1 w1 where m: "m w = (r1, w1)" by (metis surj_pair)
  note t1 = runsD [OF assms(1) w m]
  show "moves_in R (script w') \<and> (case r of Done x \<Rightarrow> Q' x (nodes w') | _ \<Rightarrow> I (nodes w'))"
  proof (cases r1)
    case (Done x)
    then have "f x w1 = (r, w')" using run m by (simp add: bind_io_def)
    from runsD [OF assms(2) t1(1) _ this] t1(2) Done show ?thesis by simp
  qed (use run m t1 in \<open>auto simp: bind_io_def\<close>)
qed

lemma runs_try:
  assumes "runs R P m I Q" and "\<And>e. runs R (Q (Inl e)) (h e) I Q'" and "\<And>x. runs R (Q (Inr x)) (f x) I Q'"
  shows "runs R P (try_io m h f) I Q'"
  unfolding try_io_def by (rule runs_bind [OF assms(1)]) (use assms(2,3) in \<open>auto split: sum.splits\<close>)

lemma runs_round_trip:
  assumes "stable R P" and "\<And>d. P d \<Longrightarrow> I d" and "\<And>d e. P d \<Longrightarrow> Q (Inl e) d"
    and "\<And>t d x n. P d \<Longrightarrow> stmt t (d (p_dsn p)) = Inr (x, n) \<Longrightarrow>
      Q (Inr x) (d(p_dsn p := n)) \<and> Q (Inl EDriver) (d(p_dsn p := n))"
  shows "runs R P (round_trip p stmt) I Q"
proof (rule runsI)
  fix w r w' assume w: "moves_in R (script w)" "P (nodes w)" and run: "round_trip p stmt w = (r, w')"
  show "moves_in R (script w') \<and> (case r of Done x \<Rightarrow> Q x (nodes w') | _ \<Rightarrow> I (nodes w'))"
  proof (cases "script w")
    case (Cons e es)
    let ?d = "ev_move e (nodes w)"
    have "R (nodes w) ?d" "moves_in R es" using w(1) Cons by simp_all
    moreover from this have "P ?d" using w(2) assms(1) by (auto simp: stable_def)
    ultimately show ?thesis
      using run Cons assms(3) [of ?d] assms(4) [of ?d "ev_now e"]
      by (auto simp: round_trip_def Let_def split: sum.splits if_splits)
  qed (use w run assms(2) in \<open>auto simp: round_trip_def\<close>)
qed

lemma runs_request:
  assumes "stable R P"
  shows "runs R P (request p) P (\<lambda>r. P)"
  unfolding request_def query_row_def by (rule runs_round_trip [OF assms]) auto

section \<open>A leg among other clients\<close>

text \<open>The part's body works on these tables, reading these events; and what it makes of tables.\<close>

definition works :: "(gerr + unit) tx \<Rightarrow> tables \<Rightarrow> event list \<Rightarrow> bool" where
  "works fn T es \<longleftrightarrow> (\<exists>T' es'. fn (T, es) = (Done (Inr ()), T', es'))"

definition after :: "(gerr + unit) tx \<Rightarrow> event list \<Rightarrow> tables \<Rightarrow> tables" where
  "after fn es T = fst (snd (fn (T, es)))"

lemma works_effect: "works fn T es \<Longrightarrow> part_effect fn T (after fn es T)"
  unfolding works_def part_effect_def after_def by (metis fst_conv snd_conv)

text \<open>The prepared transactions of a name.\<close>

definition entries :: "string \<Rightarrow> node \<Rightarrow> prepared_xact list" where
  "entries g n = filter (\<lambda>px. px_gid px = g) (prepared n)"

lemma find_entries: "find (\<lambda>px. px_gid px = g) (prepared n) = (case entries g n of [] \<Rightarrow> None | px # pxs \<Rightarrow> Some px)"
proof -
  have "find P xs = (case filter P xs of [] \<Rightarrow> None | x # ys \<Rightarrow> Some x)" for P and xs :: "prepared_xact list"
    by (induction xs) auto
  then show ?thesis by (simp add: entries_def)
qed

lemma entries_empty: "entries g n = [] \<longleftrightarrow> g \<notin> px_gid ` set (prepared n)"
  by (auto simp: entries_def filter_empty_conv)

text \<open>
  What another client does to a part's node, and the states of the leg, with the tables \<open>T0\<close>
  its node had at the start: idle, with its work prepared, and done, its work in the tables
  since some moment between the others' moves.
\<close>

definition leg_move :: "string \<Rightarrow> (tables \<Rightarrow> tables \<Rightarrow> bool) \<Rightarrow> node \<Rightarrow> node \<Rightarrow> bool" where
  "leg_move g Q n n' \<longleftrightarrow> entries g n' = entries g n \<and> Q (tabs n) (tabs n')"

definition leg_idle :: "string \<Rightarrow> (tables \<Rightarrow> tables \<Rightarrow> bool) \<Rightarrow> tables \<Rightarrow> node \<Rightarrow> bool" where
  "leg_idle g Q T0 n \<longleftrightarrow> entries g n = [] \<and> Q T0 (tabs n)"

definition leg_held :: "string \<Rightarrow> (tables \<Rightarrow> tables \<Rightarrow> bool) \<Rightarrow> (gerr + unit) tx \<Rightarrow> tables \<Rightarrow> node \<Rightarrow> bool" where
  "leg_held g Q fn T0 n \<longleftrightarrow> Q T0 (tabs n)
     \<and> (\<exists>t es. entries g n = [\<lparr>px_gid = g, px_prepared = t, px_effect = after fn es\<rparr>] \<and> works fn (tabs n) es)"

definition leg_done :: "string \<Rightarrow> (tables \<Rightarrow> tables \<Rightarrow> bool) \<Rightarrow> (gerr + unit) tx \<Rightarrow> tables \<Rightarrow> node \<Rightarrow> bool" where
  "leg_done g Q fn T0 n \<longleftrightarrow> entries g n = [] \<and> (\<exists>T1 T2. Q T0 T1 \<and> part_effect fn T1 T2 \<and> Q T2 (tabs n))"

text \<open>
  The contract between a part and the clients beside it: they keep to a preorder that leaves
  the part's body able to do what it could do.
\<close>

locale isolation =
  fixes Q :: "tables \<Rightarrow> tables \<Rightarrow> bool" and fn :: "(gerr + unit) tx"
  assumes Q_refl: "Q T T"
    and Q_trans: "Q T T1 \<Longrightarrow> Q T1 T2 \<Longrightarrow> Q T T2"
    and locked: "Q T T' \<Longrightarrow> works fn T es \<Longrightarrow> works fn T' es"
begin

lemma idle_move: "leg_idle g Q T0 n \<Longrightarrow> leg_move g Q n n' \<Longrightarrow> leg_idle g Q T0 n'"
  using Q_trans by (auto simp: leg_idle_def leg_move_def)

lemma held_move: "leg_held g Q fn T0 n \<Longrightarrow> leg_move g Q n n' \<Longrightarrow> leg_held g Q fn T0 n'"
  unfolding leg_held_def leg_move_def using Q_trans [of T0 "tabs n" "tabs n'"] locked [of "tabs n" "tabs n'"] by metis

lemma done_move: "leg_done g Q fn T0 n \<Longrightarrow> leg_move g Q n n' \<Longrightarrow> leg_done g Q fn T0 n'"
  unfolding leg_done_def leg_move_def using Q_trans by metis

lemma prepare_idle:
  assumes "leg_idle g Q T0 n" and "works fn (tabs n) es" and "sql_prepare g (after fn es) t n = Inr (u, n')"
  shows "leg_held g Q fn T0 n'"
proof -
  have "prepared n' = prepared n @ [\<lparr>px_gid = g, px_prepared = t, px_effect = after fn es\<rparr>]" "tabs n' = tabs n"
    using assms(3) by (auto simp: sql_prepare_def split: if_splits)
  then show ?thesis using assms(1,2) by (auto simp: leg_held_def leg_idle_def entries_def)
qed

lemma commit_held:
  assumes "leg_held g Q fn T0 n"
  shows "\<exists>n'. sql_commit_prepared g t n = Inr ((), n') \<and> leg_done g Q fn T0 n'"
proof -
  obtain t' es where e: "entries g n = [\<lparr>px_gid = g, px_prepared = t', px_effect = after fn es\<rparr>]"
      and w: "works fn (tabs n) es" and T0: "Q T0 (tabs n)"
    using assms by (auto simp: leg_held_def)
  let ?n = "n\<lparr>tabs := after fn es (tabs n), prepared := filter (\<lambda>px. px_gid px \<noteq> g) (prepared n)\<rparr>"
  have "sql_commit_prepared g t n = Inr ((), ?n)" by (simp add: sql_commit_prepared_def find_entries e)
  moreover have "leg_done g Q fn T0 ?n"
    using T0 works_effect [OF w] Q_refl by (auto simp: leg_done_def entries_def)
  ultimately show ?thesis by blast
qed

lemma rollback_held:
  assumes "leg_held g Q fn T0 n \<or> leg_idle g Q T0 n" and "sql_rollback_prepared g t n = Inr (u, n')"
  shows "leg_idle g Q T0 n'"
proof -
  have "n' = n\<lparr>prepared := filter (\<lambda>px. px_gid px \<noteq> g) (prepared n)\<rparr>"
    using assms(2) unfolding sql_rollback_prepared_def by (cases "find (\<lambda>px. px_gid px = g) (prepared n)") simp_all
  then show ?thesis using assms(1) by (auto simp: leg_held_def leg_idle_def entries_def)
qed

end

text \<open>The row of a tenant in the ledger stays as it is.\<close>

definition same_balance :: "u64 \<Rightarrow> tables \<Rightarrow> tables \<Rightarrow> bool" where
  "same_balance t T T' \<longleftrightarrow> map_of (ledger T') t = map_of (ledger T) t"

text \<open>With no other client every part is isolated.\<close>

interpretation alone: isolation "(=)" fn for fn
  by unfold_locales auto

section \<open>The legs of a cluster\<close>

type_synonym leg_state = "int \<Rightarrow> (gerr + unit) tx \<Rightarrow> string \<Rightarrow> node \<Rightarrow> bool"

text \<open>Every part's node, which the connection string names, is in a state.\<close>

definition each_leg :: "cluster \<Rightarrow> part list \<Rightarrow> leg_state \<Rightarrow> db \<Rightarrow> bool" where
  "each_leg c parts P d \<longleftrightarrow> (\<forall>(s, fn)\<in>set parts. \<forall>p. Pool c s = Inr p \<longrightarrow> P s fn (p_dsn p) (d (p_dsn p)))"

lemma each_legD: "each_leg c parts P d \<Longrightarrow> (s, fn) \<in> set parts \<Longrightarrow> Pool c s = Inr p \<Longrightarrow> P s fn (p_dsn p) (d (p_dsn p))"
  by (auto simp: each_leg_def)

lemma each_leg_mono:
  "each_leg c parts P d \<Longrightarrow> (\<And>s fn x n. (s, fn) \<in> set parts \<Longrightarrow> P s fn x n \<Longrightarrow> P' s fn x n) \<Longrightarrow> each_leg c parts P' d"
  unfolding each_leg_def by blast

lemma each_leg_update:
  assumes "each_leg c parts P d" and "wf_cluster c" and "distinct (map fst parts)"
    and "(s, fn) \<in> set parts" and "Pool c s = Inr p" and "P' s fn (p_dsn p) n"
    and "\<And>s' fn' x n. s' \<noteq> s \<Longrightarrow> (s', fn') \<in> set parts \<Longrightarrow> P s' fn' x n \<Longrightarrow> P' s' fn' x n"
  shows "each_leg c parts P' (d(p_dsn p := n))"
proof (unfold each_leg_def, intro ballI, clarify)
  fix s' fn' p' assume in_parts: "(s', fn') \<in> set parts" and pool: "Pool c s' = Inr p'"
  show "P' s' fn' (p_dsn p') ((d(p_dsn p := n)) (p_dsn p'))"
  proof (cases "s' = s")
    case True
    then have "fn' = fn" using in_parts assms(3,4) by (auto dest: eq_key_imp_eq_value)
    then show ?thesis using True pool assms(5,6) by simp
  next
    case False
    then have "p_dsn p' \<noteq> p_dsn p" using Pool_node_inj [OF assms(2) pool assms(5)] by blast
    then show ?thesis using assms(7) [OF False in_parts] each_legD [OF assms(1) in_parts pool] by simp
  qed
qed

text \<open>
  What the other clients do to the cluster, given for each shard the relation of tables they
  keep to; and what the protocol needs of its parts.
\<close>

definition clients :: "cluster \<Rightarrow> string \<Rightarrow> part list \<Rightarrow> (int \<Rightarrow> tables \<Rightarrow> tables \<Rightarrow> bool) \<Rightarrow> db \<Rightarrow> db \<Rightarrow> bool" where
  "clients c gid parts Q d d' \<longleftrightarrow> each_leg c parts (\<lambda>s fn x n. leg_move (legGID gid s) (Q s) (d x) n) d'"

definition isolated :: "cluster \<Rightarrow> part list \<Rightarrow> (int \<Rightarrow> tables \<Rightarrow> tables \<Rightarrow> bool) \<Rightarrow> bool" where
  "isolated c parts Q \<longleftrightarrow> wf_cluster c \<and> distinct (map fst parts)
     \<and> (\<forall>(s, fn)\<in>set parts. tx_frame fn \<and> isolation (Q s) fn)"

lemma isolated_part: "isolated c parts Q \<Longrightarrow> (s, fn) \<in> set parts \<Longrightarrow> tx_frame fn \<and> isolation (Q s) fn"
  by (auto simp: isolated_def)

lemma each_leg_stable:
  assumes "\<And>s fn x n n'. (s, fn) \<in> set parts \<Longrightarrow> P s fn x n \<Longrightarrow> leg_move (legGID gid s) (Q s) n n' \<Longrightarrow> P s fn x n'"
  shows "stable (clients c gid parts Q) (each_leg c parts P)"
  unfolding stable_def clients_def each_leg_def using assms by blast

text \<open>The states of the legs in the course of the protocol, from the nodes \<open>d0\<close>.\<close>

definition idle_or_held :: "string \<Rightarrow> (int \<Rightarrow> tables \<Rightarrow> tables \<Rightarrow> bool) \<Rightarrow> db \<Rightarrow> leg_state" where
  "idle_or_held gid Q d0 s fn x n \<longleftrightarrow>
     leg_idle (legGID gid s) (Q s) (tabs (d0 x)) n \<or> leg_held (legGID gid s) (Q s) fn (tabs (d0 x)) n"

definition held_on :: "string \<Rightarrow> (int \<Rightarrow> tables \<Rightarrow> tables \<Rightarrow> bool) \<Rightarrow> db \<Rightarrow> int set \<Rightarrow> leg_state" where
  "held_on gid Q d0 K s fn x n \<longleftrightarrow>
     (if s \<in> K then leg_held (legGID gid s) (Q s) fn (tabs (d0 x)) n else leg_idle (legGID gid s) (Q s) (tabs (d0 x)) n)"

definition held_or_done :: "string \<Rightarrow> (int \<Rightarrow> tables \<Rightarrow> tables \<Rightarrow> bool) \<Rightarrow> db \<Rightarrow> leg_state" where
  "held_or_done gid Q d0 s fn x n \<longleftrightarrow>
     leg_held (legGID gid s) (Q s) fn (tabs (d0 x)) n \<or> leg_done (legGID gid s) (Q s) fn (tabs (d0 x)) n"

definition done_on :: "string \<Rightarrow> (int \<Rightarrow> tables \<Rightarrow> tables \<Rightarrow> bool) \<Rightarrow> db \<Rightarrow> int set \<Rightarrow> int set \<Rightarrow> leg_state" where
  "done_on gid Q d0 S K s fn x n \<longleftrightarrow>
     (if s \<in> S then leg_done (legGID gid s) (Q s) fn (tabs (d0 x)) n
      else if s \<in> K then leg_held (legGID gid s) (Q s) fn (tabs (d0 x)) n
      else held_or_done gid Q d0 s fn x n)"

lemma states_stable:
  assumes "isolated c parts Q"
  shows "stable (clients c gid parts Q) (each_leg c parts (idle_or_held gid Q d0))"
    and "stable (clients c gid parts Q) (each_leg c parts (held_on gid Q d0 K))"
    and "stable (clients c gid parts Q) (each_leg c parts (held_or_done gid Q d0))"
    and "stable (clients c gid parts Q) (each_leg c parts (done_on gid Q d0 S K))"
proof -
  note iso = isolated_part [OF assms, THEN conjunct2]
  note moves = isolation.idle_move [OF iso] isolation.held_move [OF iso] isolation.done_move [OF iso]
  show "stable (clients c gid parts Q) (each_leg c parts (idle_or_held gid Q d0))"
    by (rule each_leg_stable) (auto simp: idle_or_held_def intro: moves)
  show "stable (clients c gid parts Q) (each_leg c parts (held_on gid Q d0 K))"
    by (rule each_leg_stable) (auto simp: held_on_def intro: moves split: if_splits)
  show "stable (clients c gid parts Q) (each_leg c parts (held_or_done gid Q d0))"
    by (rule each_leg_stable) (auto simp: held_or_done_def intro: moves)
  show "stable (clients c gid parts Q) (each_leg c parts (done_on gid Q d0 S K))"
    by (rule each_leg_stable) (auto simp: done_on_def held_or_done_def intro: moves split: if_splits)
qed

section \<open>The phases\<close>

lemma runs_rollback_one:
  fixes gid :: string and d0 :: db
  assumes "isolated c parts Q" and "(s, fn) \<in> set parts"
  defines "U \<equiv> each_leg c parts (idle_or_held gid Q d0)"
  shows "runs (clients c gid parts Q) U (rollback_one c \<lparr>leg_shard = s, leg_gid = legGID gid s\<rparr>) U (\<lambda>_. U)"
proof (cases "Pool c s")
  case (Inl e)
  then show ?thesis by (simp add: rollback_one_def runs_ret del: ret_simp)
next
  case (Inr p)
  note iso = isolated_part [OF assms(1,2), THEN conjunct2]
  have "runs (clients c gid parts Q) U (round_trip p (sql_rollback_prepared (legGID gid s))) U (\<lambda>_. U)"
  proof (rule runs_round_trip)
    show "stable (clients c gid parts Q) U" unfolding U_def by (rule states_stable [OF assms(1)])
    fix t d x n assume d: "U d" and stmt: "sql_rollback_prepared (legGID gid s) t (d (p_dsn p)) = Inr (x, n)"
    have "leg_idle (legGID gid s) (Q s) (tabs (d0 (p_dsn p))) n"
      using isolation.rollback_held [OF iso _ stmt] each_legD [OF d [unfolded U_def] assms(2) Inr]
      unfolding idle_or_held_def by blast
    then have "U (d(p_dsn p := n))"
      using assms(1,2) Inr d unfolding U_def isolated_def
      by (intro each_leg_update [where P = "idle_or_held gid Q d0"]) (auto simp: idle_or_held_def)
    then show "U (d(p_dsn p := n)) \<and> U (d(p_dsn p := n))" by simp
  qed auto
  then show ?thesis
    unfolding rollback_one_def by (auto simp: Inr intro!: runs_bind runs_ret simp del: ret_simp)
qed

lemma runs_rollbackAll:
  fixes gid :: string and d0 :: db
  assumes "isolated c parts Q" and "set made \<subseteq> set parts"
  defines "U \<equiv> each_leg c parts (idle_or_held gid Q d0)"
  shows "runs (clients c gid parts Q) U (rollbackAll c (legs_of gid made)) U (\<lambda>_. U)"
  using assms(2)
proof (induction made)
  case Nil
  show ?case by (simp add: legs_of_def runs_ret del: ret_simp)
next
  case (Cons a made)
  obtain s fn where a: "a = (s, fn)" by (cases a)
  have "runs (clients c gid parts Q) U (rollback_one c \<lparr>leg_shard = s, leg_gid = legGID gid s\<rparr>) U (\<lambda>_. U)"
    unfolding U_def by (rule runs_rollback_one [OF assms(1)]) (use Cons.prems a in auto)
  moreover have "runs (clients c gid parts Q) U (rollbackAll c (legs_of gid made)) U (\<lambda>_. U)" using Cons by simp
  ultimately show ?case by (auto simp: legs_of_def a intro!: runs_bind)
qed

lemma runs_run_leg:
  fixes gid :: string and d0 :: db
  assumes "isolated c parts Q" and "(s, fn) \<in> set parts" and "s \<notin> K" and "Pool c s = Inr p"
  defines "U \<equiv> each_leg c parts (idle_or_held gid Q d0)"
  shows "runs (clients c gid parts Q) (each_leg c parts (held_on gid Q d0 K)) (run_leg (legGID gid s) p s fn) U
    (\<lambda>r. case r of Inl e \<Rightarrow> U | Inr u \<Rightarrow> each_leg c parts (held_on gid Q d0 (insert s K)))"
proof (rule runsI)
  let ?R = "clients c gid parts Q" and ?P = "each_leg c parts (held_on gid Q d0 K)" and ?g = "legGID gid s"
    and ?P' = "each_leg c parts (held_on gid Q d0 (insert s K))"
  let ?Q = "\<lambda>r. case r of Inl e \<Rightarrow> U | Inr u \<Rightarrow> ?P'"
  note iso = isolated_part [OF assms(1,2), THEN conjunct2] and stable = states_stable [OF assms(1)]
  have weak: "U d" if "each_leg c parts (held_on gid Q d0 K') d" for d K'
    using that unfolding U_def by (rule each_leg_mono) (auto simp: held_on_def idle_or_held_def split: if_splits)
  have undo: "runs ?R U (bind_io (request p) (\<lambda>_. ret (Inl e))) U ?Q" for e :: gerr
    by (rule runs_bind [OF runs_request]) (auto simp: U_def stable runs_ret simp del: ret_simp)
  fix w r w' assume w: "moves_in ?R (script w)" "?P (nodes w)" and run: "run_leg ?g p s fn w = (r, w')"
  show "moves_in ?R (script w') \<and> (case r of Done x \<Rightarrow> ?Q x (nodes w') | _ \<Rightarrow> U (nodes w'))"
  proof (cases "script w")
    case Nil
    then show ?thesis using w run weak by (auto simp: run_leg_def)
  next
    case (Cons b es)
    let ?d = "ev_move b (nodes w)"
    have moves: "?R (nodes w) ?d" "moves_in ?R es" using w(1) Cons by simp_all
    then have d: "?P ?d" using w(2) stable(2) by (auto simp: stable_def)
    obtain o1 T1 es1 where fn: "fn (tabs (?d (p_dsn p)), es) = (o1, T1, es1)" by (metis prod_cases3)
    have "\<exists>k. es1 = drop k es"
      using isolated_part [OF assms(1,2)] fn unfolding tx_frame_def by (metis snd_conv)
    then have es1: "moves_in ?R es1" using moves(2) by (auto simp: moves_in_def dest: in_set_dropD)
    let ?w1 = "w\<lparr>nodes := ?d, script := es1\<rparr>"
    have w1: "moves_in ?R (script ?w1)" "?P (nodes ?w1)" using es1 d by simp_all
    consider "ev_reply b \<noteq> Ack" | "ev_reply b = Ack" "o1 = Killed \<or> (\<exists>q. o1 = Panicked q)"
      | e where "ev_reply b = Ack" "o1 = Done (Inl e)" | "ev_reply b = Ack" "o1 = Done (Inr ())"
      by (metis old.unit.exhaust outcome.exhaust sum.exhaust)
    then show ?thesis
    proof cases
      case 1
      then show ?thesis using run Cons moves weak [OF d] by (auto simp: run_leg_def Let_def)
    next
      case 2
      then show ?thesis using run Cons es1 weak [OF d] fn by (auto simp: run_leg_def Let_def)
    next
      case (3 e)
      then have "bind_io (request p) (\<lambda>_. ret (Inl (EAt ''work'' s e))) ?w1 = (r, w')"
        using run Cons fn by (simp add: run_leg_def Let_def)
      from runsD [OF undo w1(1) weak [OF w1(2)] this] show ?thesis by simp
    next
      case 4
      have prep: "try_io (round_trip p (sql_prepare ?g (after fn es))) (\<lambda>e. bind_io (request p) (\<lambda>_. ret (Inl (EAt ''prepare'' s e))))
          (\<lambda>_. ret (Inr ())) ?w1 = (r, w')"
        using run Cons fn 4 by (simp add: run_leg_def Let_def after_def [abs_def])
      let ?P1 = "\<lambda>d. ?P d \<and> works fn (tabs (d (p_dsn p))) es"
      have start: "?P1 (nodes ?w1)" using d fn 4(2) by (simp add: works_def)
      have "stable ?R ?P1"
        unfolding stable_def
      proof (intro allI impI, elim conjE)
        fix d d' assume "?R d d'" and P: "?P d" and wk: "works fn (tabs (d (p_dsn p))) es"
        then have "leg_move ?g (Q s) (d (p_dsn p)) (d' (p_dsn p))"
          using each_legD [OF _ assms(2,4)] unfolding clients_def by blast
        then have "works fn (tabs (d' (p_dsn p))) es"
          using isolation.locked [OF iso _ wk] by (simp add: leg_move_def)
        then show "?P1 d'" using stable(2) \<open>?R d d'\<close> P by (auto simp: stable_def)
      qed
      then have "runs ?R ?P1 (round_trip p (sql_prepare ?g (after fn es))) U ?Q"
      proof (rule runs_round_trip)
        fix t d x n assume d: "?P1 d" and stmt: "sql_prepare ?g (after fn es) t (d (p_dsn p)) = Inr (x, n)"
        have "leg_idle ?g (Q s) (tabs (d0 (p_dsn p))) (d (p_dsn p))"
          using each_legD [OF _ assms(2,4)] d assms(3) unfolding held_on_def by fastforce
        then have "leg_held ?g (Q s) fn (tabs (d0 (p_dsn p))) n"
          using isolation.prepare_idle [OF iso _ _ stmt] d by blast
        then have "?P' (d(p_dsn p := n))"
          using assms(1-4) d unfolding isolated_def
          by (intro each_leg_update [where P = "held_on gid Q d0 K"]) (auto simp: held_on_def)
        then show "?Q (Inr x) (d(p_dsn p := n)) \<and> ?Q (Inl EDriver) (d(p_dsn p := n))" using weak by simp
      qed (use weak in auto)
      then have "runs ?R ?P1 (try_io (round_trip p (sql_prepare ?g (after fn es)))
          (\<lambda>e. bind_io (request p) (\<lambda>_. ret (Inl (EAt ''prepare'' s e)))) (\<lambda>_. ret (Inr ()))) U ?Q"
        by (rule runs_try) (use undo in \<open>auto intro!: runs_ret simp del: ret_simp\<close>)
      from runsD [OF this w1(1) start prep] show ?thesis by simp
    qed
  qed
qed

text \<open>
  Phase 1 ends with every leg held, or with an error or an end of the process that leaves none
  of them visible.
\<close>

lemma runs_phase1:
  fixes gid :: string and d0 :: db
  assumes "isolated c parts Q" and "parts = made @ rest"
  defines "U \<equiv> each_leg c parts (idle_or_held gid Q d0)"
  shows "runs (clients c gid parts Q) (each_leg c parts (held_on gid Q d0 (fst ` set made))) (phase1 c gid rest (legs_of gid made)) U
    (\<lambda>r. case r of Inl e \<Rightarrow> U
       | Inr legs \<Rightarrow> (\<lambda>d. legs = legs_of gid parts \<and> fst ` set rest \<subseteq> set (Shards c)
           \<and> each_leg c parts (held_on gid Q d0 (fst ` set parts)) d))"
  using assms(2)
proof (induction rest arbitrary: made)
  case Nil
  then show ?case by (simp add: runs_ret del: ret_simp)
next
  case (Cons a rest)
  obtain s fn where a: "a = (s, fn)" by (cases a)
  let ?R = "clients c gid parts Q" and ?P = "each_leg c parts (held_on gid Q d0 (fst ` set made))"
    and ?P' = "each_leg c parts (held_on gid Q d0 (insert s (fst ` set made)))"
  let ?Q = "\<lambda>r. case r of Inl e \<Rightarrow> U
       | Inr legs \<Rightarrow> (\<lambda>d. legs = legs_of gid parts \<and> fst ` set (a # rest) \<subseteq> set (Shards c)
           \<and> each_leg c parts (held_on gid Q d0 (fst ` set parts)) d)"
  have s: "(s, fn) \<in> set parts" "s \<notin> fst ` set made" "set made \<subseteq> set parts"
    using Cons.prems assms(1) a by (auto simp: isolated_def)
  have weak: "U d" if "?P d" for d
    using that unfolding U_def by (rule each_leg_mono) (auto simp: held_on_def idle_or_held_def split: if_splits)
  have "runs ?R U (rollbackAll c (legs_of gid made)) U (\<lambda>_. U)"
    unfolding U_def by (rule runs_rollbackAll [OF assms(1) s(3)])
  then have undo: "runs ?R U (bind_io (rollbackAll c (legs_of gid made)) (\<lambda>_. ret (Inl e))) U ?Q" for e
    by (rule runs_bind) (simp add: runs_ret del: ret_simp)
  show ?case
  proof (cases "Pool c s")
    case (Inl e)
    then show ?thesis using runs_weaken [OF undo weak] by (simp add: a)
  next
    case (Inr p)
    have split: "parts = (made @ [a]) @ rest" using Cons.prems by simp
    have made: "fst ` set (made @ [a]) = insert s (fst ` set made)" by (simp add: a)
    have in_range: "s \<in> set (Shards c)" using Pool_Inr [OF Inr] by force
    have legs: "legs_of gid (made @ [a]) = legs_of gid made @ [\<lparr>leg_shard = s, leg_gid = legGID gid s\<rparr>]"
      by (simp add: legs_of_def a)
    have IH: "runs ?R ?P' (phase1 c gid rest (legs_of gid made @ [\<lparr>leg_shard = s, leg_gid = legGID gid s\<rparr>])) U
        (\<lambda>r. case r of Inl e \<Rightarrow> U
           | Inr legs \<Rightarrow> (\<lambda>d. legs = legs_of gid parts \<and> fst ` set rest \<subseteq> set (Shards c)
               \<and> each_leg c parts (held_on gid Q d0 (fst ` set parts)) d))"
      using Cons.IH [OF split] unfolding made legs .
    have next_part: "runs ?R ?P' (phase1 c gid rest (legs_of gid made @ [\<lparr>leg_shard = s, leg_gid = legGID gid s\<rparr>])) U ?Q"
      by (rule runs_weaken [OF IH]) (use in_range in \<open>auto simp: a simp del: set_Shards split: sum.splits\<close>)
    have req: "runs ?R ?P (request p) ?P (\<lambda>r. ?P)" by (rule runs_request [OF states_stable(2) [OF assms(1)]])
    have leg: "runs ?R ?P (run_leg (legGID gid s) p s fn) U (\<lambda>r. case r of Inl e \<Rightarrow> U | Inr u \<Rightarrow> ?P')"
      unfolding U_def by (rule runs_run_leg [OF assms(1) s(1,2) Inr])
    have "runs ?R ?P (try_io (run_leg (legGID gid s) p s fn)
        (\<lambda>e. bind_io (rollbackAll c (legs_of gid made)) (\<lambda>_. ret (Inl e)))
        (\<lambda>_. phase1 c gid rest (legs_of gid made @ [\<lparr>leg_shard = s, leg_gid = legGID gid s\<rparr>]))) U ?Q"
      by (rule runs_try [OF leg]) (use undo next_part in simp_all)
    moreover have "runs ?R ?P (bind_io (rollbackAll c (legs_of gid made)) (\<lambda>_. ret (Inl e))) U ?Q" for e
      by (rule runs_weaken [OF undo weak])
    ultimately show ?thesis
      unfolding a phase1.simps Inr sum.case
      by (intro runs_try [OF runs_weaken [OF req _ weak]]) simp_all
  qed
qed

lemma runs_commit_one:
  assumes "isolated c parts Q" and "(s, fn) \<in> set parts" and "s \<notin> S" and "s \<notin> K"
  shows "runs (clients c gid parts Q) (each_leg c parts (done_on gid Q d0 S (insert s K)))
    (commit_one c \<lparr>leg_shard = s, leg_gid = legGID gid s\<rparr>) (each_leg c parts (held_or_done gid Q d0))
    (\<lambda>e. each_leg c parts (done_on gid Q d0 (if e = [] then insert s S else S) K))"
proof -
  let ?R = "clients c gid parts Q" and ?P = "each_leg c parts (done_on gid Q d0 S (insert s K))"
    and ?Q = "\<lambda>S'. each_leg c parts (done_on gid Q d0 S' K)" and ?g = "legGID gid s"
  have weak: "?Q S d" if "?P d" for d
    using that by (rule each_leg_mono) (auto simp: done_on_def held_or_done_def split: if_splits)
  have held: "each_leg c parts (held_or_done gid Q d0) d" if "?P d" for d
    using that by (rule each_leg_mono) (auto simp: done_on_def held_or_done_def split: if_splits)
  show ?thesis
  proof (cases "Pool c s")
    case (Inl e)
    then show ?thesis using weak by (simp add: commit_one_def runs_ret del: ret_simp)
  next
    case (Inr p)
    have "runs ?R ?P (round_trip p (sql_commit_prepared ?g)) (each_leg c parts (held_or_done gid Q d0))
        (\<lambda>r. case r of Inl e \<Rightarrow> ?Q S | Inr u \<Rightarrow> ?Q (insert s S))"
    proof (rule runs_round_trip)
      show "stable ?R ?P" by (rule states_stable [OF assms(1)])
      fix t d x n assume d: "?P d" and stmt: "sql_commit_prepared ?g t (d (p_dsn p)) = Inr (x, n)"
      have "leg_held ?g (Q s) fn (tabs (d0 (p_dsn p))) (d (p_dsn p))"
        using each_legD [OF d assms(2) Inr] assms(3) by (simp add: done_on_def)
      then have dn: "leg_done ?g (Q s) fn (tabs (d0 (p_dsn p))) n"
        using isolation.commit_held [OF isolated_part [OF assms(1,2), THEN conjunct2], OF \<open>leg_held ?g (Q s) fn (tabs (d0 (p_dsn p))) (d (p_dsn p))\<close>, of t] stmt by auto
      have "?Q S' (d(p_dsn p := n))" if "S' = S \<or> S' = insert s S" for S'
        using assms Inr d dn that unfolding isolated_def
        by (intro each_leg_update [where P = "done_on gid Q d0 S (insert s K)"])
          (auto simp: done_on_def held_or_done_def split: if_splits)
      then show "(case Inr x of Inl e \<Rightarrow> ?Q S | Inr u \<Rightarrow> ?Q (insert s S)) (d(p_dsn p := n))
          \<and> (case Inl EDriver of Inl e \<Rightarrow> ?Q S | Inr u \<Rightarrow> ?Q (insert s S)) (d(p_dsn p := n))" by simp
    qed (use weak held in auto)
    then show ?thesis
      unfolding commit_one_def prepLeg.simps Inr sum.case
      by (rule runs_try) (simp_all add: runs_ret del: ret_simp)
  qed
qed

lemma runs_phase2:
  assumes "isolated c parts Q" and "set todo \<subseteq> set parts" and "distinct (map fst todo)" and "S \<inter> fst ` set todo = {}"
  shows "runs (clients c gid parts Q) (each_leg c parts (done_on gid Q d0 S (fst ` set todo)))
    (phase2 c (legs_of gid todo)) (each_leg c parts (held_or_done gid Q d0))
    (\<lambda>es. each_leg c parts (done_on gid Q d0 (if es = [] then S \<union> fst ` set todo else S) {}))"
  using assms(2-4)
proof (induction todo arbitrary: S)
  case Nil
  then show ?case by (simp add: legs_of_def runs_ret del: ret_simp)
next
  case (Cons a todo)
  obtain s fn where a: "a = (s, fn)" by (cases a)
  let ?R = "clients c gid parts Q" and ?I = "each_leg c parts (held_or_done gid Q d0)" and ?K = "fst ` set todo"
  let ?D = "\<lambda>S. each_leg c parts (done_on gid Q d0 S {})"
  have s: "(s, fn) \<in> set parts" "s \<notin> S" "s \<notin> ?K" using Cons.prems a by auto
  note one = runs_commit_one [OF assms(1) s, of gid d0]
  have less: "?D S d" if "?D S' d" "S \<subseteq> S'" for S S' d
    using that(1) by (rule each_leg_mono) (use that(2) in \<open>auto simp: done_on_def held_or_done_def split: if_splits\<close>)
  have two: "runs ?R (each_leg c parts (done_on gid Q d0 (if e = [] then insert s S else S) ?K))
      (bind_io (phase2 c (legs_of gid todo)) (\<lambda>es. ret (e @ es))) ?I
      (\<lambda>es. ?D (if es = [] then S \<union> fst ` set (a # todo) else S))" for e :: "gerr list"
  proof -
    let ?S = "if e = [] then insert s S else S"
    have "runs ?R (each_leg c parts (done_on gid Q d0 ?S ?K)) (phase2 c (legs_of gid todo)) ?I
        (\<lambda>es. ?D (if es = [] then ?S \<union> ?K else ?S))"
      by (rule Cons.IH) (use Cons.prems a in auto)
    then show ?thesis
      by (rule runs_bind) (auto intro!: runs_ret elim!: less simp: a simp del: ret_simp split: if_splits)
  qed
  show ?case
    using runs_bind [OF one two] by (simp add: legs_of_def a)
qed

lemma runs_TwoPC:
  assumes "isolated c parts Q"
  shows "runs (clients c gid parts Q) (each_leg c parts (held_on gid Q d0 {})) (TwoPC_Do c gid parts)
    (\<lambda>d. each_leg c parts (idle_or_held gid Q d0) d
       \<or> fst ` set parts \<subseteq> set (Shards c) \<and> each_leg c parts (held_or_done gid Q d0) d)
    (\<lambda>r d. case r of
       Inl e \<Rightarrow> each_leg c parts (idle_or_held gid Q d0) d
         \<or> fst ` set parts \<subseteq> set (Shards c) \<and> each_leg c parts (held_or_done gid Q d0) d
     | Inr u \<Rightarrow> fst ` set parts \<subseteq> set (Shards c)
         \<and> each_leg c parts (\<lambda>s fn x. leg_done (legGID gid s) (Q s) fn (tabs (d0 x))) d)"
    (is "runs ?R ?P _ ?I ?Q")
proof -
  let ?H = "each_leg c parts (held_or_done gid Q d0)" and ?in = "fst ` set parts \<subseteq> set (Shards c)"
  have none: "legs_of gid [] = []" by (simp add: legs_of_def)
  have p1: "runs ?R ?P (phase1 c gid parts []) ?I
    (\<lambda>r. case r of Inl e \<Rightarrow> each_leg c parts (idle_or_held gid Q d0)
       | Inr legs \<Rightarrow> (\<lambda>d. legs = legs_of gid parts \<and> ?in \<and> each_leg c parts (held_on gid Q d0 (fst ` set parts)) d))"
    by (rule runs_weaken [OF runs_phase1 [OF assms, of "[]" parts gid d0, unfolded none list.set image_empty]]) simp_all
  have p2: "runs ?R (each_leg c parts (done_on gid Q d0 {} (fst ` set parts))) (phase2 c (legs_of gid parts)) ?H
    (\<lambda>es. each_leg c parts (done_on gid Q d0 (if es = [] then {} \<union> fst ` set parts else {}) {}))"
    by (rule runs_phase2 [OF assms]) (use assms in \<open>auto simp: isolated_def\<close>)
  have start: "each_leg c parts (done_on gid Q d0 {} (fst ` set parts)) d"
    if "each_leg c parts (held_on gid Q d0 (fst ` set parts)) d" for d
    using that by (rule each_leg_mono) (force simp: held_on_def done_on_def split: if_splits)
  have all: "each_leg c parts (\<lambda>s fn x. leg_done (legGID gid s) (Q s) fn (tabs (d0 x))) d"
    if "each_leg c parts (done_on gid Q d0 (fst ` set parts) {}) d" for d
    using that by (rule each_leg_mono) (force simp: done_on_def split: if_splits)
  have some: "?H d" if "each_leg c parts (done_on gid Q d0 {} {}) d" for d
    using that by (rule each_leg_mono) (simp add: done_on_def)
  have second: "runs ?R (\<lambda>d. legs = legs_of gid parts \<and> ?in \<and> each_leg c parts (held_on gid Q d0 (fst ` set parts)) d)
      (bind_io (phase2 c legs) (\<lambda>errs. ret (if errs = [] then Inr () else Inl (EJoin errs)))) ?I ?Q" for legs
  proof (cases "legs = legs_of gid parts \<and> ?in")
    case True
    have body: "runs ?R (each_leg c parts (done_on gid Q d0 {} (fst ` set parts)))
        (bind_io (phase2 c (legs_of gid parts)) (\<lambda>errs. ret (if errs = [] then Inr () else Inl (EJoin errs)))) ?I ?Q"
    proof (rule runs_bind)
      show "runs ?R (each_leg c parts (done_on gid Q d0 {} (fst ` set parts))) (phase2 c (legs_of gid parts)) ?I
        (\<lambda>es. each_leg c parts (done_on gid Q d0 (if es = [] then {} \<union> fst ` set parts else {}) {}))"
        by (rule runs_weaken [OF p2]) (use True in simp_all)
      show "runs ?R (each_leg c parts (done_on gid Q d0 (if es = [] then {} \<union> fst ` set parts else {}) {}))
        (ret (if es = [] then Inr () else Inl (EJoin es))) ?I ?Q" for es
        by (rule runs_ret) (use True all some in \<open>auto split: if_splits simp del: set_Shards\<close>)
    qed
    show ?thesis unfolding True [THEN conjunct1] by (rule runs_weaken [OF body]) (use start in auto)
  qed (auto simp: runs_def)
  show ?thesis
    unfolding TwoPC_Do_def by (rule runs_try [OF p1]) (simp_all add: second runs_ret del: ret_simp set_Shards)
qed

lemma TwoPC_among:
  assumes "isolated c parts Q" and "gids_fresh c gid parts (nodes w)"
    and "moves_in (clients c gid parts Q) (script w)" and "TwoPC_Do c gid parts w = (r, w')"
  shows "(each_leg c parts (idle_or_held gid Q (nodes w)) (nodes w') \<and> r \<noteq> Done (Inr ()))
    \<or> (fst ` set parts \<subseteq> set (Shards c) \<and> each_leg c parts (held_or_done gid Q (nodes w)) (nodes w')
       \<and> (r = Done (Inr ()) \<longrightarrow>
           each_leg c parts (\<lambda>s fn x. leg_done (legGID gid s) (Q s) fn (tabs (nodes w x))) (nodes w')))"
proof -
  have "each_leg c parts (held_on gid Q (nodes w) {}) (nodes w)"
    unfolding each_leg_def
  proof (intro ballI, clarify)
    fix s fn p assume s: "(s, fn) \<in> set parts" and p: "Pool c s = Inr p"
    have "legGID gid s \<notin> px_gid ` set (prepared (nodes w (p_dsn p)))" using assms(2) s p by (auto simp: gids_fresh_def)
    then show "held_on gid Q (nodes w) {} s fn (p_dsn p) (nodes w (p_dsn p))"
      using isolation.Q_refl [OF isolated_part [OF assms(1) s, THEN conjunct2]]
      by (simp add: held_on_def leg_idle_def entries_empty)
  qed
  note ends = runsD(2) [OF runs_TwoPC [OF assms(1)] assms(3) this assms(4)]
  have weak: "each_leg c parts (held_or_done gid Q (nodes w)) (nodes w')"
    if "each_leg c parts (\<lambda>s fn x. leg_done (legGID gid s) (Q s) fn (tabs (nodes w x))) (nodes w')"
    using that by (rule each_leg_mono) (simp add: held_or_done_def)
  show ?thesis using ends weak by (auto split: outcome.splits sum.splits simp del: set_Shards)
qed

section \<open>Properties\<close>

text \<open>C2: Two-phase commit among other clients: while they keep off what the parts lock and off the parts'
  prepared transactions, every part happens at one moment between their moves, on every shard
  or on none.  Whatever is lost and wherever the process is killed, either no part is visible,
  the moves of the others alone made the tables and \<open>Do\<close> did not return nil; or every part is
  done or stays prepared, with its work still possible.  When \<open>Do\<close> returns nil all are done.\<close>

theorem two_pc_among_clients:
  assumes "isolated c parts Q" and "gids_fresh c gid parts (nodes w)"
    and "moves_in (clients c gid parts Q) (script w)" and "TwoPC_Do c gid parts w = (r, w')"
  shows "(each_leg c parts (idle_or_held gid Q (nodes w)) (nodes w') \<and> r \<noteq> Done (Inr ()))
    \<or> (fst ` set parts \<subseteq> set (Shards c) \<and> each_leg c parts (held_or_done gid Q (nodes w)) (nodes w')
       \<and> (r = Done (Inr ()) \<longrightarrow>
           each_leg c parts (\<lambda>s fn x. leg_done (legGID gid s) (Q s) fn (tabs (nodes w x))) (nodes w')))"
  using assms by (rule TwoPC_among)

section \<open>Examples\<close>

text \<open>Another client pays tenant 9 on the first node while the legs of tenant 5 are under way.\<close>

definition pays_nine :: event where
  "pays_nine = (calm 1)\<lparr>ev_move := \<lambda>d. d(''a'' := (d ''a'')\<lparr>tabs := (tabs (d ''a''))\<lparr>ledger :=
     AList.update 9 70 (ledger (tabs (d ''a'')))\<rparr>\<rparr>)\<rparr>"

lemma pays_nine_simps [simp]: "ev_reply pays_nine = Ack" "ev_now pays_nine = 1"
    "ev_move pays_nine d = d(''a'' := (d ''a'')\<lparr>tabs := (tabs (d ''a''))\<lparr>ledger := AList.update 9 70 (ledger (tabs (d ''a'')))\<rparr>\<rparr>)"
  by (simp_all add: pays_nine_def calm_def)

definition paid_script :: "event list" where
  "paid_script = [pays_nine, pays_nine, pays_nine, pays_nine, pays_nine, calm 1, calm 1, calm 1, calm 1, calm 1]"

lemma demo_isolation: "isolation (same_balance 5) demo_part"
  by unfold_locales (auto simp: same_balance_def works_def demo_part_def tx_stmt_def split: list.splits)

lemma demo_among:
  "\<exists>w'. TwoPC_Do demo_cluster ''g'' [(0, demo_part), (1, demo_part)] (demo_world [] paid_script)
      = (Done (Inr ()), w') \<and> map_of (ledger (tabs (nodes w' ''a''))) 9 = Some 70"
  by (simp add: TwoPC_Do_def try_io_def bind_io_def request_def query_row_def round_trip_def run_leg_def demo_part_def
      tx_stmt_def sql_prepare_def Let_def demo_world_def empty_tables_def commit_one_def sql_commit_prepared_def
      paid_script_def map_of_alist_update)

lemma two_pc_among_clients_witness:
  "\<exists>w'. TwoPC_Do demo_cluster ''g'' [(0, demo_part), (1, demo_part)] (demo_world [] paid_script)
      = (Done (Inr ()), w')
    \<and> leg_done ''g-0'' (same_balance 5) demo_part empty_tables (nodes w' ''a'')
    \<and> leg_done ''g-1'' (same_balance 5) demo_part empty_tables (nodes w' ''b'')"
proof -
  let ?parts = "[(0, demo_part), (1, demo_part)] :: part list" and ?Q = "\<lambda>s :: int. same_balance 5"
  let ?w = "demo_world [] paid_script"
  obtain w' where run: "TwoPC_Do demo_cluster ''g'' ?parts ?w = (Done (Inr ()), w')" using demo_among by blast
  have "parts_ok demo_cluster ''g'' ?parts (nodes ?w)" by (rule demo_parts_ok)
  then have iso: "isolated demo_cluster ?parts ?Q" and fresh: "gids_fresh demo_cluster ''g'' ?parts (nodes ?w)"
    using demo_isolation by (simp_all add: parts_ok_def isolated_def)
  have move: "clients demo_cluster ''g'' ?parts ?Q d (ev_move e d)" if "e = pays_nine \<or> e = calm 1" for d e
    using that by (auto simp: clients_def each_leg_def leg_move_def entries_def same_balance_def map_of_alist_update)
  then have "moves_in (clients demo_cluster ''g'' ?parts ?Q) (script ?w)"
    using move [of pays_nine] move [of "calm 1"] by (simp add: moves_in_def demo_world_def paid_script_def)
  from two_pc_among_clients [OF iso fresh this run]
  have legs: "each_leg demo_cluster ?parts (\<lambda>s fn x. leg_done (legGID ''g'' s) (?Q s) fn (tabs (nodes ?w x))) (nodes w')" by blast
  have gids: "legGID ''g'' 0 = ''g-0''" "legGID ''g'' 1 = ''g-1''" by code_simp+
  from each_legD [OF legs, of 0 demo_part] each_legD [OF legs, of 1 demo_part] run show ?thesis
    by (simp add: gids) (simp add: demo_world_def empty_tables_def)
qed

end
