(* ===== verification/Transfer_Clients.thy ===== *)
theory Transfer_Clients
  imports Transfers Isolation
begin

text \<open>
  The transfer by 2PC of \<open>src/cmd/shardctl/main.go\<close> while other clients write to the same shards: its
  two statements meet the contract of \<open>isolation\<close> beside clients that leave the two tenants' rows
  alone, so what two-phase commit promises among clients is a statement about two balances.
\<close>

section \<open>The statements as isolated parts\<close>

lemma works_stmt: "works (tx_stmt f) T es \<longleftrightarrow> (\<exists>e es'. es = e # es' \<and> ev_reply e = Ack) \<and> (\<exists>u T'. f T = Inr (u, T'))"
  by (cases es) (auto simp: works_def tx_stmt_def split: sum.splits)

text \<open>The others leave the rows of the two tenants alone, on the shards the transfer uses.\<close>

definition off_rows :: "int \<Rightarrow> int \<Rightarrow> u64 \<Rightarrow> u64 \<Rightarrow> int \<Rightarrow> tables \<Rightarrow> tables \<Rightarrow> bool" where
  "off_rows src dst from to s T T' \<longleftrightarrow> (s = src \<longrightarrow> same_balance from T T') \<and> (s = dst \<longrightarrow> same_balance to T T')"

interpretation debit: isolation "off_rows src dst x y src" "tx_stmt (sql_debit_2pc x cents)" for src dst x y cents
  by unfold_locales (auto simp: off_rows_def same_balance_def works_stmt sql_debit_2pc_def split: option.splits)

interpretation credit: isolation "off_rows src dst x y dst" "tx_stmt (sql_credit_2pc y cents)" for src dst x y cents
  by unfold_locales (auto simp: off_rows_def same_balance_def works_stmt sql_credit_2pc_def Let_def go_count_def split: if_splits)

text \<open>The balance of a tenant on a shard; and what the work of each part makes of it.\<close>

definition balance_on :: "cluster \<Rightarrow> db \<Rightarrow> int \<Rightarrow> u64 \<Rightarrow> int" where
  "balance_on c d s t = go_count (ledger (tables_of c d s)) t"

definition waits :: "cluster \<Rightarrow> string \<Rightarrow> db \<Rightarrow> int \<Rightarrow> bool" where
  "waits c gid d s \<longleftrightarrow> (\<exists>p. Pool c s = Inr p \<and> legGID gid s \<in> px_gid ` set (prepared (d (p_dsn p))))"

lemma same_balance_count: "same_balance t T T' \<Longrightarrow> go_count (ledger T') t = go_count (ledger T) t"
  by (simp add: same_balance_def go_count_def)

lemma transfer_isolated:
  assumes "wf_cluster c"
  shows "isolated c (transfer_parts flip src dst from to cents) (off_rows src dst from to)"
proof -
  have "isolation (off_rows src dst from to s) fn" if "(s, fn) \<in> set (transfer_parts flip src dst from to cents)" for s fn
    using that debit.isolation_axioms credit.isolation_axioms by (auto simp: transfer_parts_def Let_def split: if_splits)
  moreover have "tx_frame fn" if "(s, fn) \<in> set (transfer_parts flip src dst from to cents)" for s fn
    using that by (auto simp: transfer_parts_def Let_def tx_frame_stmt split: if_splits)
  moreover have "distinct (map fst (transfer_parts flip src dst from to cents))"
    by (auto simp: transfer_parts_def Let_def)
  ultimately show ?thesis using assms by (auto simp: isolated_def)
qed

lemma leg_of_transfer:
  shows "(src, tx_stmt (sql_debit_2pc from cents)) \<in> set (transfer_parts flip src dst from to cents)"
    and "dst \<noteq> src \<Longrightarrow> (dst, tx_stmt (sql_credit_2pc to cents)) \<in> set (transfer_parts flip src dst from to cents)"
  by (auto simp: transfer_parts_def Let_def)

text \<open>What the state of a leg says of a balance that the others leave alone.\<close>

lemma idle_balance:
  "leg_idle g Q T0 n \<Longrightarrow> \<forall>T T'. Q T T' \<longrightarrow> same_balance t T T' \<Longrightarrow> go_count (ledger (tabs n)) t = go_count (ledger T0) t"
  "leg_held g Q fn T0 n \<Longrightarrow> \<forall>T T'. Q T T' \<longrightarrow> same_balance t T T' \<Longrightarrow>
     go_count (ledger (tabs n)) t = go_count (ledger T0) t \<and> g \<in> px_gid ` set (prepared n)"
  using entries_empty [of g n] by (auto simp: leg_idle_def leg_held_def same_balance_count)

lemma done_balance:
  assumes "leg_done g Q (tx_stmt f) T0 n" and "\<forall>T T'. Q T T' \<longrightarrow> same_balance t T T'"
    and "\<forall>T1 u T2. same_balance t T0 T1 \<longrightarrow> f T1 = Inr (u, T2) \<longrightarrow> go_count (ledger T2) t = b"
  shows "go_count (ledger (tabs n)) t = b"
proof -
  obtain T1 T2 where T: "Q T0 T1" "part_effect (tx_stmt f) T1 T2" "Q T2 (tabs n)" using assms(1) by (auto simp: leg_done_def)
  then have "go_count (ledger T2) t = b" using stmt_effect [OF T(2)] assms(2,3) by blast
  then show ?thesis using same_balance_count [of t T2 "tabs n"] assms(2) T(3) by simp
qed

lemma balance_at: "Pool c s = Inr p \<Longrightarrow> balance_on c d s t = go_count (ledger (tabs (d (p_dsn p)))) t"
  by (simp add: balance_on_def tables_of_node)

lemma waits_at: "Pool c s = Inr p \<Longrightarrow> waits c gid d s \<longleftrightarrow> legGID gid s \<in> px_gid ` set (prepared (d (p_dsn p)))"
  by (simp add: waits_def)

text \<open>One leg of a transfer, whose statement makes \<open>f0\<close> of the balance it finds.\<close>

lemma leg_balance:
  assumes "each_leg c parts P (nodes w')" and "(s, tx_stmt f) \<in> set parts"
    and "\<forall>T T'. Q s T T' \<longrightarrow> same_balance t T T'"
  shows "P = idle_or_held gid Q (nodes w) \<Longrightarrow> balance_on c (nodes w') s t = balance_on c (nodes w) s t"
    and "P = held_or_done gid Q (nodes w) \<Longrightarrow> fst ` set parts \<subseteq> set (Shards c) \<Longrightarrow>
      \<forall>T1 u T2. same_balance t (tables_of c (nodes w) s) T1 \<longrightarrow> f T1 = Inr (u, T2) \<longrightarrow> go_count (ledger T2) t = b \<Longrightarrow>
      balance_on c (nodes w') s t = b \<or> balance_on c (nodes w') s t = balance_on c (nodes w) s t \<and> waits c gid (nodes w') s"
    and "P = (\<lambda>s fn x. leg_done (legGID gid s) (Q s) fn (tabs (nodes w x))) \<Longrightarrow> fst ` set parts \<subseteq> set (Shards c) \<Longrightarrow>
      \<forall>T1 u T2. same_balance t (tables_of c (nodes w) s) T1 \<longrightarrow> f T1 = Inr (u, T2) \<longrightarrow> go_count (ledger T2) t = b \<Longrightarrow>
      balance_on c (nodes w') s t = b"
proof -
  note off = assms(3) and at = each_legD [OF assms(1,2)]
  show "balance_on c (nodes w') s t = balance_on c (nodes w) s t" if P: "P = idle_or_held gid Q (nodes w)"
  proof (cases "Pool c s")
    case (Inr p)
    show ?thesis
      using at [OF Inr, unfolded P idle_or_held_def] idle_balance [where Q = "Q s" and t = t, OF _ off]
      unfolding balance_at [OF Inr] by blast
  qed (simp add: balance_on_def tables_of_def)
  assume inside: "fst ` set parts \<subseteq> set (Shards c)"
    and eff: "\<forall>T1 u T2. same_balance t (tables_of c (nodes w) s) T1 \<longrightarrow> f T1 = Inr (u, T2) \<longrightarrow> go_count (ledger T2) t = b"
  have "s \<in> set (Shards c)" using assms(2) inside by force
  then obtain p where pool: "Pool c s = Inr p" using Pool_Shards by blast
  note fin = done_balance [where Q = "Q s" and t = t and n = "nodes w' (p_dsn p)", OF _ off eff]
  show "balance_on c (nodes w') s t = b" if P: "P = (\<lambda>s fn x. leg_done (legGID gid s) (Q s) fn (tabs (nodes w x)))"
    using at [OF pool, unfolded P] fin unfolding tables_of_node [OF pool] balance_at [OF pool] by blast
  show "balance_on c (nodes w') s t = b \<or> balance_on c (nodes w') s t = balance_on c (nodes w) s t \<and> waits c gid (nodes w') s"
    if P: "P = held_or_done gid Q (nodes w)"
    using at [OF pool, unfolded P held_or_done_def] fin idle_balance(2) [where Q = "Q s" and t = t and n = "nodes w' (p_dsn p)", OF _ off]
    unfolding tables_of_node [OF pool] balance_at [OF pool] waits_at [OF pool] by blast
qed

lemma debit_moves:
  assumes "same_balance x T0 T1" and "sql_debit_2pc x cents T1 = Inr (u, T2)"
  shows "go_count (ledger T2) x = go_count (ledger T0) x
    - (if \<exists>b. map_of (ledger T0) x = Some b \<and> cents \<le> b then cents else 0)"
  using debit_2pc_effect(1) [OF assms(2)] assms(1) by (auto simp: same_balance_def go_count_def split: option.splits)

lemma credit_moves:
  assumes "same_balance y T0 T1" and "sql_credit_2pc y cents T1 = Inr (u, T2)"
  shows "go_count (ledger T2) y = go_count (ledger T0) y + cents"
  using credit_2pc_effect [OF assms(2), of y] same_balance_count [OF assms(1)] by simp

section \<open>Properties\<close>


section \<open>Examples\<close>

text \<open>Tenant 5 sends 30 of its 100 to tenant 9, while another client writes to the source's ledger.\<close>

definition small_flags :: TransferFlags where
  "small_flags = \<lparr>fl_from = 5, fl_to = 9, fl_cents = 30, fl_crash = False\<rparr>"

lemma demo_paid_2pc:
  "\<exists>w'. transfer_2pc bank_cluster False 7 0 1 small_flags (bank_world [] paid_script) = (Done (Inr ()), w')"
  by (simp add: transfer_2pc_def small_flags_def TwoPC_Do_def transfer_parts_def Let_def try_io_def bind_io_def request_def
      query_row_def round_trip_def run_leg_def tx_stmt_def sql_debit_2pc_def sql_credit_2pc_def sql_prepare_def paid_script_def
      bank_world_def empty_tables_def in_bigint_def go_count_def commit_one_def sql_commit_prepared_def)


end
