(* ===== verification/Retries.thy ===== *)
theory Retries
  imports Orders
begin

text \<open>
  \<open>Insert\<close> of \<open>src/internal/shard/orders.go\<close> under retry: a caller that got an error, or no answer,
  may repeat the call, at once or from elsewhere, and the order is on every shard of its write
  route once.
\<close>

section \<open>Inserting once\<close>

text \<open>
  What inserting an order may do to the tables: a node of the write route that lacks the id gets
  one row, made at some clock reading; nothing else changes.
\<close>

definition write_nodes :: "cluster \<Rightarrow> int list \<Rightarrow> string set" where
  "write_nodes c ws = {p_dsn p | s p. s \<in> set ws \<and> Pool c s = Inr p}"

definition inserts_once :: "string set \<Rightarrow> int \<Rightarrow> (time \<Rightarrow> order) \<Rightarrow> db \<Rightarrow> db \<Rightarrow> bool" where
  "inserts_once X k row d d' \<longleftrightarrow> (\<forall>x. tabs (d' x) = tabs (d x)
     \<or> (x \<in> X \<and> \<not> has_order k (tabs (d x))
        \<and> (\<exists>now. o_ID (row now) = k \<and> tabs (d' x) = (tabs (d x))\<lparr>orders := orders (tabs (d x)) @ [row now]\<rparr>)))"

lemma has_order_added: "o_ID r = k \<Longrightarrow> has_order k (T\<lparr>orders := xs @ [r]\<rparr>)"
  by (simp add: has_order_def)

interpretation once: rely "inserts_once X k row" for X k row
proof
  show "inserts_once X k row d d" for d by (simp add: inserts_once_def)
  show "inserts_once X k row d d2" if "inserts_once X k row d d1" "inserts_once X k row d1 d2" for d d1 d2
    unfolding inserts_once_def
  proof
    fix x
    have step: "tabs (d1 x) = tabs (d x) \<or> has_order k (tabs (d1 x))"
      using that(1) unfolding inserts_once_def by (elim allE [of _ x]) (auto intro: has_order_added)
    show "tabs (d2 x) = tabs (d x) \<or> (x \<in> X \<and> \<not> has_order k (tabs (d x))
        \<and> (\<exists>now. o_ID (row now) = k \<and> tabs (d2 x) = (tabs (d x))\<lparr>orders := orders (tabs (d x)) @ [row now]\<rparr>))"
      using that step unfolding inserts_once_def by (elim allE [of _ x]) auto
  qed
qed

lemma inserts_grow: "inserts_once X k row d d' \<Longrightarrow> orders_grow d d'"
  unfolding inserts_once_def orders_grow_def
proof
  fix x assume "\<forall>x. tabs (d' x) = tabs (d x) \<or> (x \<in> X \<and> \<not> has_order k (tabs (d x))
        \<and> (\<exists>now. o_ID (row now) = k \<and> tabs (d' x) = (tabs (d x))\<lparr>orders := orders (tabs (d x)) @ [row now]\<rparr>))"
  then show "set (orders (tabs (d x))) \<subseteq> set (orders (tabs (d' x)))" by (elim allE [of _ x]) auto
qed

lemma guar_insert_once:
  assumes "p_dsn p \<in> X" and "\<And>now. o_ID (row now) = k"
  shows "guar (inserts_once X k row) (insert_leg row (p, s) u)"
proof -
  have "guar (inserts_once X k row) (round_trip p (sql_insert_order row))"
  proof (rule once.guar_round_trip)
    fix t d x n assume ins: "sql_insert_order row t (d (p_dsn p)) = Inr (x, n)"
    have "tabs n = tabs (d (p_dsn p)) \<or> \<not> has_order k (tabs (d (p_dsn p)))
        \<and> tabs n = (tabs (d (p_dsn p)))\<lparr>orders := orders (tabs (d (p_dsn p))) @ [row t]\<rparr>"
      using ins assms(2) by (auto simp: sql_insert_order_def split: if_splits)
    then show "inserts_once X k row d (d(p_dsn p := n))"
      unfolding inserts_once_def using assms by auto
  qed
  then show ?thesis
    unfolding insert_leg_def prod.case by (intro once.guar_try once.guar_ret)
qed

lemma guar_Insert_once:
  assumes "RouteWrite (topo c) t = Inr ws" and "logicalOf (topo c) t = Inr logical"
  shows "guar (inserts_once (write_nodes c ws) k (\<lambda>now. mk_order k t logical now cents state)) (Insert c k t cents state)"
proof (cases "pools_of c ws")
  case (Inl e)
  then show ?thesis using assms(1) by (simp add: Insert_def WritePools_def once.guar_ret del: ret_simp)
next
  case (Inr ps)
  let ?row = "\<lambda>now. mk_order k t logical now cents state"
  have "\<forall>(p, s)\<in>set (zip ps ws). p_dsn p \<in> write_nodes c ws"
    using pools_of_Inr [OF Inr] by (force simp: in_set_zip write_nodes_def)
  then have "guar (inserts_once (write_nodes c ws) k ?row) (for_io (insert_leg ?row) (zip ps ws) ())"
    by (intro once.guar_for_in) (auto intro!: guar_insert_once simp: mk_order_def)
  then show ?thesis using assms Inr by (simp add: Insert_def WritePools_def)
qed

text \<open>A program tried \<open>n\<close> times and once more, whatever the earlier attempts came to.\<close>

fun again :: "nat \<Rightarrow> 'a io \<Rightarrow> 'a io" where
  "again 0 m = m"
| "again (Suc n) m = bind_io m (\<lambda>_. again n m)"

lemma guar_again: "guar (inserts_once X k row) m \<Longrightarrow> guar (inserts_once X k row) (again n m)"
  by (induction n) (auto intro: once.guar_bind)

lemma again_last:
  assumes "again n m w = (Done x, w')" and "\<And>w. moves_in R (script w) \<Longrightarrow> moves_in R (script (snd (m w)))" and "moves_in R (script w)"
  shows "\<exists>w1. moves_in R (script w1) \<and> m w1 = (Done x, w')"
  using assms(1,3)
proof (induction n arbitrary: w)
  case (Suc n)
  obtain y w1 where first: "m w = (Done y, w1)" and rest: "again n m w1 = (Done x, w')"
    using Suc.prems(1) by (auto simp: bind_io_def split: prod.splits outcome.splits)
  have "moves_in R (script w1)" using assms(2) [OF Suc.prems(2)] first by simp
  with Suc.IH [OF rest] show ?case by blast
qed auto

section \<open>Properties\<close>

text \<open>C8: \<open>Insert\<close> may be retried until it succeeds, by any number of callers at once.  However often it is
  called, whatever is lost and wherever a caller is killed, each shard of the write route gets
  the order at most once, with the arguments of the call, a row that has the id already is
  kept as it is, and nothing else changes anywhere; and once a call has returned nil, every
  shard of the write route holds the id, also those an earlier call had failed to reach.\<close>

theorem insert_retries_to_once:
  assumes "RouteWrite (topo c) t = Inr ws" and "logicalOf (topo c) t = Inr logical"
    and "moves_in (inserts_once (write_nodes c ws) k (\<lambda>now. mk_order k t logical now cents state)) (script w)"
    and "again n (Insert c k t cents state) w = (r, w')"
  shows "inserts_once (write_nodes c ws) k (\<lambda>now. mk_order k t logical now cents state) (nodes w) (nodes w')
    \<and> (r = Done (Inr ()) \<longrightarrow> (\<forall>s\<in>set ws. has_order k (tables_of c (nodes w') s)))"
proof (intro conjI impI)
  let ?R = "inserts_once (write_nodes c ws) k (\<lambda>now. mk_order k t logical now cents state)"
  note guar = guar_Insert_once [OF assms(1,2), of k cents state]
  show "?R (nodes w) (nodes w')"
    using guar_again [OF guar, of n] assms(3,4) unfolding guar_def by (metis snd_conv)
  assume "r = Done (Inr ())"
  then obtain w1 where w1: "moves_in ?R (script w1)" "Insert c k t cents state w1 = (Done (Inr ()), w')"
    using again_last [OF assms(4) [unfolded \<open>r = Done (Inr ())\<close>], of ?R] guar assms(3) unfolding guar_def by blast
  have "moves_in orders_grow (script w1)" using w1(1) inserts_grow by (fastforce simp: moves_in_def)
  from Insert_Ok [OF this w1(2)] show "\<forall>s\<in>set ws. has_order k (tables_of c (nodes w') s)" by (simp add: assms(1))
qed

section \<open>Examples\<close>

text \<open>The first call's second write is lost, the second call repairs it.\<close>

definition lossy_script :: "event list" where
  "lossy_script = [calm 1, (calm 2)\<lparr>ev_reply := Nack\<rparr>, calm 3, calm 4]"

lemma demo_again:
  "\<exists>w'. again 1 (Insert demo_cluster 9 5 100 ''new'') (demo_world [] lossy_script) = (Done (Inr ()), w')
    \<and> orders (tabs (nodes w' ''a'')) = [mk_order 9 5 0 1 100 ''new''] \<and> orders (tabs (nodes w' ''b'')) = [mk_order 9 5 0 4 100 ''new'']"
  by (simp add: lossy_script_def Insert_def WritePools_def demo_world_def insert_leg_def try_io_def bind_io_def round_trip_def
      sql_insert_order_def Let_def has_order_def empty_tables_def mk_order_def calm_def)

lemma insert_retries_to_once_witness:
  "\<exists>w'. again 1 (Insert demo_cluster 9 5 100 ''new'') (demo_world [] lossy_script) = (Done (Inr ()), w')
    \<and> (\<forall>s\<in>{0, 1}. has_order 9 (tables_of demo_cluster (nodes w') s))"
proof -
  let ?R = "inserts_once (write_nodes demo_cluster [0, 1]) 9 (\<lambda>now. mk_order 9 5 0 now 100 ''new'')"
  obtain w' where run: "again 1 (Insert demo_cluster 9 5 100 ''new'') (demo_world [] lossy_script) = (Done (Inr ()), w')"
    using demo_again by blast
  have "moves_in ?R (script (demo_world [] lossy_script))"
    by (simp add: demo_world_def lossy_script_def calm_def once.R_refl)
  from insert_retries_to_once [OF _ _ this run] run show ?thesis by simp
qed

end
