(* ===== verification/Seed_Ids.thy ===== *)
theory Seed_Ids
  imports Seed
begin

text \<open>
  The ids that \<open>Seed\<close> of \<open>src/internal/shard/orders.go\<close> makes: one generator per shard reads one clock,
  and the ids of a bucket are new, increasing and carry the bucket's shard.
\<close>

section \<open>The generators of a run\<close>

definition clock_steady :: "i64 list \<Rightarrow> bool" where
  "clock_steady clock \<longleftrightarrow> list_all reading_ok clock \<and> sorted (map (\<lambda>r. sint (r - idEpochMs)) clock)"

text \<open>A row's id was made on a shard, by its generator and not after the last id of that.\<close>

definition id_of_shard :: "int \<Rightarrow> order \<Rightarrow> bool" where
  "id_of_shard s r \<longleftrightarrow> fst (snd (DecodeID (word_of_int (o_ID r)))) = s"

definition bucket_ok :: "int \<Rightarrow> idgen \<Rightarrow> order list \<Rightarrow> bool" where
  "bucket_ok s g rows \<longleftrightarrow> sorted_wrt (<) (map o_ID rows) \<and> list_all (\<lambda>r. o_ID r \<le> sint (last_id g) \<and> id_of_shard s r) rows"

definition ids_ok :: "seeding \<Rightarrow> bool" where
  "ids_ok sd \<longleftrightarrow> clock_steady (sd_clock sd)
     \<and> (\<forall>s. case map_of (sd_gens sd) s of
          None \<Rightarrow> bucket sd s = []
        | Some g \<Rightarrow> wf_idgen g \<and> g_shard g = s \<and> clock_forward g (sd_clock sd) \<and> bucket_ok s g (bucket sd s))"

lemma clock_forward_iff:
  "clock_steady clock \<Longrightarrow> clock_forward g clock \<longleftrightarrow> (\<forall>r\<in>set clock. sint (g_lastMs g) \<le> sint (r - idEpochMs))"
  by (simp add: clock_forward_def clock_steady_def)

lemma Next_bucket:
  assumes "wf_idgen g" and "clock_steady clock" and "clock_forward g clock" and "Next g clock = Some (i, g', rest)"
  shows "wf_idgen g'" and "g_shard g' = g_shard g" and "clock_steady rest" and "clock_forward g' rest" and "set rest \<subseteq> set clock"
    and "sint (last_id g) < sint i" and "i = last_id g'" and "fst (snd (DecodeID i)) = g_shard g"
proof -
  obtain now more where clock: "clock = now # more" using assms(4) by (cases clock) (simp_all add: Next_def)
  have ok: "\<forall>r\<in>set (now # more). reading_ok r" using assms(2) by (simp add: clock clock_steady_def list_all_iff)
  have "absorbs g now" using assms(3) by (simp add: clock clock_forward_def absorbs_def)
  note step = Next_step [OF assms(1) assms(4) [unfolded clock] ok this]
  show g': "wf_idgen g'" "g_shard g' = g_shard g" "sint (last_id g) < sint i" "i = last_id g'" using step by auto
  show sub: "set rest \<subseteq> set clock" using step by (auto simp: clock)
  show fwd: "clock_forward g' rest" by (rule Next_clock_forward [OF assms(3,4) [unfolded clock]])
  show "clock_steady rest" using fwd sub assms(2) by (auto simp: clock_steady_def clock_forward_def list_all_iff)
  show "fst (snd (DecodeID i)) = g_shard g"
    unfolding g'(4) last_id_def using DecodeID_make_id [OF g'(1) [unfolded wf_idgen_def]] g'(2) by simp
qed

lemma bucket_grows:
  assumes "bucket_ok s g rows" and "sint (last_id g) < k" and "k = sint (last_id g')" and "o_ID r = k" and "id_of_shard s r"
  shows "bucket_ok s g' (rows @ [r])"
  using assms by (auto simp: bucket_ok_def sorted_wrt_append list_all_iff)

lemma seed_row_ids:
  assumes "ids_ok sd" and "seed_row en tp tenant target sd = (Done u, sd')"
  shows "ids_ok sd'"
proof -
  obtain i sd1 where nx: "next_id target sd = (Done i, sd1)"
    using assms(2) by (auto simp: seed_row_def bind_io_def split: prod.splits outcome.splits)
  then obtain g g' clock where g: "map_of (sd_gens sd) target = Some g" "Next g (sd_clock sd) = Some (i, g', clock)"
      and sd1: "sd1 = sd\<lparr>sd_gens := AList.update target g' (sd_gens sd), sd_clock := clock\<rparr>"
    by (auto simp: next_id_def split: option.splits prod.splits)
  obtain logical where l: "logicalOf tp tenant = Inr logical"
    using assms(2) nx by (cases "logicalOf tp tenant") (simp_all add: seed_row_def bind_io_def lift_go_def)
  obtain r n where push: "push_row target r (sd1\<lparr>sd_draws := n\<rparr>) = (Done u, sd')" and r: "o_ID r = sint i"
    using assms(2) nx l
    by (auto simp: seed_row_def bind_io_def lift_go_def draw_below_def mk_order_def split: sum.splits)
  have here: "wf_idgen g" "g_shard g = target" "clock_forward g (sd_clock sd)" "bucket_ok target g (bucket sd target)"
    using assms(1) g(1) unfolding ids_ok_def by (auto split: option.splits dest: spec [of _ target])
  have steady: "clock_steady (sd_clock sd)" using assms(1) by (simp add: ids_ok_def)
  note nb = Next_bucket [OF here(1) steady here(3) g(2)]
  have "id_of_shard target r" using nb(8) here(2) by (simp add: id_of_shard_def r)
  then have new: "bucket_ok target g' (bucket sd target @ [r])"
    using bucket_grows [OF here(4) nb(6)] nb(7) r by simp
  have b: "bucket sd' s = (if s = target then bucket sd target @ [r] else bucket sd s)" for s
    using push by (auto simp: push_row_def bucket_def sd1 map_of_alist_update)
  have gens: "map_of (sd_gens sd') s = (if s = target then Some g' else map_of (sd_gens sd) s)" and clk: "sd_clock sd' = clock" for s
    using push by (auto simp: push_row_def sd1 map_of_alist_update)
  have other: "clock_forward h clock" if "clock_forward h (sd_clock sd)" for h
    using that nb(5) unfolding clock_forward_iff [OF steady] clock_forward_iff [OF nb(3)] by blast
  show ?thesis
    unfolding ids_ok_def clk
  proof (intro conjI allI)
    show "clock_steady clock" by (rule nb(3))
    fix s
    show "case map_of (sd_gens sd') s of None \<Rightarrow> bucket sd' s = []
      | Some g \<Rightarrow> wf_idgen g \<and> g_shard g = s \<and> clock_forward g clock \<and> bucket_ok s g (bucket sd' s)"
    proof (cases "s = target")
      case True
      then show ?thesis using new nb here(2) by (simp add: gens b)
    next
      case False
      then show ?thesis
        using assms(1) other unfolding ids_ok_def by (auto simp: gens b split: option.splits dest: spec [of _ s])
    qed
  qed
qed

lemma repeat_ids:
  assumes "\<And>s s' u. ids_ok s \<Longrightarrow> m s = (Done u, s') \<Longrightarrow> ids_ok s'" and "ids_ok s" and "repeat_io n m s = (Done u, s')"
  shows "ids_ok s'"
  using assms(2,3)
proof (induction n arbitrary: s)
  case (Suc n)
  obtain v s1 where "m s = (Done v, s1)" "repeat_io n m s1 = (Done u, s')"
    using Suc.prems(2) by (auto simp: bind_io_def split: prod.splits outcome.splits)
  with Suc.IH assms(1) Suc.prems(1) show ?case by blast
qed simp

lemma seed_tenants_ids:
  assumes "ids_ok sd" and "seed_tenants en tp per ts sd = (Done u, sd')"
  shows "ids_ok sd'"
  using assms
proof (induction ts arbitrary: sd)
  case (Cons t ts)
  obtain v sd1 where one: "seed_tenant en tp per t sd = (Done v, sd1)" and rest: "seed_tenants en tp per ts sd1 = (Done u, sd')"
    using Cons.prems(2) by (auto simp: bind_io_def split: prod.splits outcome.splits)
  obtain target where "RouteRead tp (word_of_int t) = Inr target"
    using one by (cases "RouteRead tp (word_of_int t)") (simp_all add: seed_tenant_def bind_io_def lift_go_def)
  then have run: "repeat_io (nat (seed_size per t)) (seed_row en tp (word_of_int t) target) sd = (Done v, sd1)"
    using one by (simp add: seed_tenant_def)
  have "ids_ok sd1" by (rule repeat_ids [OF _ Cons.prems(1) run]) (rule seed_row_ids)
  then show ?case by (rule Cons.IH [OF _ rest])
qed simp

lemma seed_gens_new:
  "seed_gens ss gens = Inr gens' \<Longrightarrow> (\<And>s g. map_of gens s = Some g \<Longrightarrow> NewIDGen s = Inr g) \<Longrightarrow>
   map_of gens' s = Some g \<Longrightarrow> NewIDGen s = Inr g"
proof (induction ss arbitrary: gens)
  case (Cons a ss)
  obtain h where h: "NewIDGen a = Inr h" "seed_gens ss (AList.update a h gens) = Inr gens'"
    using Cons.prems(1) by (auto split: sum.splits)
  show ?case
    by (rule Cons.IH [OF h(2) _ Cons.prems(3)]) (use Cons.prems(2) h(1) in \<open>auto simp: map_of_alist_update split: if_splits\<close>)
qed auto

lemma seed_start_ids:
  assumes "seed_gens ss [] = Inr gens" and "clock_steady clock"
  shows "ids_ok \<lparr>sd_gens = gens, sd_clock = clock, sd_draws = 0, sd_buckets = []\<rparr>"
proof -
  have "wf_idgen g \<and> g_shard g = s \<and> clock_forward g clock" if "map_of gens s = Some g" for s g
  proof -
    have new: "NewIDGen s = Inr g" by (rule seed_gens_new [OF assms(1) _ that]) simp
    then have "g_lastMs g = 0" by (auto simp: NewIDGen_def split: if_splits)
    then have "clock_forward g clock"
      using assms(2) unfolding clock_forward_iff [OF assms(2)] by (auto simp: clock_steady_def list_all_iff reading_ok_def)
    then show ?thesis using wf_NewIDGen [OF new] by simp
  qed
  then show ?thesis using assms(2) by (auto simp: ids_ok_def bucket_ok_def bucket_def split: option.splits)
qed

lemma bucket_ids:
  assumes "ids_ok sd"
  shows "distinct (map o_ID (bucket sd s)) \<and> list_all (id_of_shard s) (bucket sd s)"
proof (cases "map_of (sd_gens sd) s")
  case None
  then show ?thesis using assms unfolding ids_ok_def by (auto dest: spec [of _ s])
next
  case (Some g)
  then have "bucket_ok s g (bucket sd s)" using assms unfolding ids_ok_def by (auto dest: spec [of _ s])
  then show ?thesis using strict_sorted_iff [of "map o_ID (bucket sd s)"] by (auto simp: bucket_ok_def list_all_iff)
qed

section \<open>Copying to empty shards\<close>

lemma copy_bucket_fresh:
  assumes "wf_cluster c" and "moves_in (=) (script w)" and "orders (tables_of c (nodes w) s) = []" and "distinct (map o_ID rows)"
    and "copy_bucket c (s, rows) n w = (r, w')"
  shows "r \<noteq> Done (Inl (n', EAt ''copy into shard'' s' (ESql UniqueViolation)))" and "moves_in (=) (script w')"
    and "orders (tables_of c (nodes w') k) \<in> {orders (tables_of c (nodes w) k)} \<union> (if k = s then {rows} else {})"
proof -
  have "(\<forall>n' s'. r \<noteq> Done (Inl (n', EAt ''copy into shard'' s' (ESql UniqueViolation)))) \<and> moves_in (=) (script w')
    \<and> orders (tables_of c (nodes w') k) \<in> {orders (tables_of c (nodes w) k)} \<union> (if k = s then {rows} else {})"
  proof (cases "Pool c s")
    case (Inl e)
    then have "r = Done (Inl (n, e))" "w' = w" "e = ENoPool s"
      using assms(5) Pool_Inl [of c s] by (auto simp: copy_bucket_def)
    then show ?thesis using assms(2) by simp
  next
    case (Inr p)
    let ?n = "(nodes w (p_dsn p))\<lparr>tabs := (tables_of c (nodes w) s)\<lparr>orders := rows\<rparr>\<rparr>"
    have copy: "sql_copy rows t (nodes w (p_dsn p)) = Inr (int (length rows), ?n)" for t
      using assms(3,4) by (simp add: sql_copy_def tables_of_node [OF Inr])
    obtain o1 w1 where rt: "round_trip p (sql_copy rows) w = (o1, w1)" by (metis surj_pair)
    note q = round_trip_quiet [OF assms(2) rt]
    have o1: "o1 = Killed \<or> o1 = Done (Inl EDriver) \<or> (\<exists>x. o1 = Done (Inr x))"
    proof (cases "script w")
      case (Cons e es)
      then have "ev_move e (nodes w) = nodes w" using assms(2) by simp
      then show ?thesis using rt Cons copy [of "ev_now e"] by (auto simp: round_trip_def Let_def split: if_splits)
    qed (use rt in \<open>simp add: round_trip_def\<close>)
    have w': "w' = w1" and r: "\<forall>n' s'. r \<noteq> Done (Inl (n', EAt ''copy into shard'' s' (ESql UniqueViolation)))"
      using assms(5) rt Inr o1 by (auto simp: copy_bucket_def try_io_def bind_io_def)
    have "nodes w1 = nodes w \<or> nodes w1 = (nodes w)(p_dsn p := ?n)" using q(2) copy by auto
    then have "orders (tables_of c (nodes w1) k) \<in> {orders (tables_of c (nodes w) k)} \<union> (if k = s then {rows} else {})"
      using tables_of_update [OF assms(1) Inr, of "nodes w" ?n] by auto
    then show ?thesis using r q(1) w' by blast
  qed
  then show "r \<noteq> Done (Inl (n', EAt ''copy into shard'' s' (ESql UniqueViolation)))" and "moves_in (=) (script w')"
    and "orders (tables_of c (nodes w') k) \<in> {orders (tables_of c (nodes w) k)} \<union> (if k = s then {rows} else {})"
    by blast+
qed

lemma copies_fresh:
  assumes "wf_cluster c" and "moves_in (=) (script w)" and "distinct (map fst bs)"
    and "\<forall>(s, rows)\<in>set bs. orders (tables_of c (nodes w) s) = [] \<and> distinct (map o_ID rows)"
    and "for_io (copy_bucket c) bs n w = (r, w')"
  shows "r \<noteq> Done (Inl (n', EAt ''copy into shard'' s' (ESql UniqueViolation)))
    \<and> (orders (tables_of c (nodes w') k) = orders (tables_of c (nodes w) k) \<or> (k, orders (tables_of c (nodes w') k)) \<in> set bs)"
  using assms(2-5)
proof (induction bs arbitrary: n w)
  case (Cons b bs)
  obtain s rows where b: "b = (s, rows)" by (cases b)
  obtain o1 w1 where one: "copy_bucket c (s, rows) n w = (o1, w1)" by (metis surj_pair)
  have pre: "orders (tables_of c (nodes w) s) = []" "distinct (map o_ID rows)" using Cons.prems(3) b by auto
  note q = copy_bucket_fresh [OF assms(1) Cons.prems(1) pre one]
  have at: "orders (tables_of c (nodes w1) k) = orders (tables_of c (nodes w) k)
      \<or> k = s \<and> orders (tables_of c (nodes w1) k) = rows" for k
    using q(3) [of k] by (auto split: if_splits)
  show ?case
  proof (cases "\<exists>m. o1 = Done (Inr m)")
    case True
    then obtain m where rest: "for_io (copy_bucket c) bs m w1 = (r, w')"
      using Cons.prems(4) one b by (auto simp: try_io_def bind_io_def)
    have "\<forall>(j, rows)\<in>set bs. orders (tables_of c (nodes w1) j) = [] \<and> distinct (map o_ID rows)"
    proof (intro ballI, clarify)
      fix j rs assume j: "(j, rs) \<in> set bs"
      then have "j \<noteq> s" using Cons.prems(2) b by force
      then show "orders (tables_of c (nodes w1) j) = [] \<and> distinct (map o_ID rs)" using at [of j] Cons.prems(3) j by auto
    qed
    moreover have "distinct (map fst bs)" using Cons.prems(2) by simp
    ultimately show ?thesis using Cons.IH [OF q(2) _ _ rest] at [of k] b by auto
  next
    case False
    then have "w' = w1" "r = (case o1 of Done v \<Rightarrow> Done (case v of Inl e \<Rightarrow> Inl e | Inr x \<Rightarrow> Inr x) | Panicked p \<Rightarrow> Panicked p | Killed \<Rightarrow> Killed)"
      using Cons.prems(4) one b by (auto simp: try_io_def bind_io_def split: outcome.splits sum.splits)
    then show ?thesis using q(1) at [of k] b by (auto split: outcome.splits sum.splits)
  qed
qed (auto simp: ret_def)

text \<open>What the loop over the buckets goes through.\<close>

lemma visited_buckets:
  assumes "seed_tenants en tp per [1..tenants] \<lparr>sd_gens = gens, sd_clock = clock, sd_draws = 0, sd_buckets = []\<rparr> = (Done u, sd)"
    and "tenants < 2 ^ 64" and "\<And>m. mset (visit en m) = mset m"
  shows "distinct (map fst (visit en (sd_buckets sd)))" and "(k, rows) \<in> set (visit en (sd_buckets sd)) \<Longrightarrow> rows = bucket sd k"
proof -
  have "filled \<lparr>sd_gens = gens, sd_clock = clock, sd_draws = 0, sd_buckets = []\<rparr> sd
      (\<lambda>k v. if RouteRead tp v = Inr k \<and> uint v \<in> set [1..tenants] then nat (seed_size per (uint v)) else 0)
      (\<Sum>t\<leftarrow>[1..tenants]. nat (seed_size per t))"
    using assms(2) by (intro seed_tenants_filled [OF assms(1)]) auto
  then have ok: "go_map_ok (sd_buckets sd)" by (simp add: filled_def)
  then show "distinct (map fst (visit en (sd_buckets sd)))"
    using assms(3) [of "sd_buckets sd"] unfolding go_map_ok_def by (metis mset_eq_imp_distinct_iff mset_map)
  assume "(k, rows) \<in> set (visit en (sd_buckets sd))"
  then have "(k, rows) \<in> set (sd_buckets sd)" using assms(3) [of "sd_buckets sd"] by (metis set_mset_mset)
  then show "rows = bucket sd k" using ok by (simp add: bucket_def go_map_ok_def)
qed

section \<open>Properties\<close>

text \<open>C28: The first seeding of a cluster never runs into an id of its own: where the clock does not go back and
  the shards are empty, no \<open>COPY\<close> is refused for a repeated id, whatever else fails and wherever
  the process is killed, and every row that arrived has an id of its own on its shard, with
  that shard encoded in it.\<close>

theorem seed_ids_fresh:
  assumes "clock_steady (readings en)" and "wf_cluster c" and "tenants < 2 ^ 64" and "\<And>m. mset (visit en m) = mset m"
    and "moves_in (=) (script w)" and "\<And>s. orders (tables_of c (nodes w) s) = []"
    and "Seed en c tenants per w = (r, w')"
  shows "r \<noteq> Done (n, Some (EAt ''copy into shard'' s (ESql UniqueViolation)))
    \<and> distinct (map o_ID (orders (tables_of c (nodes w') s))) \<and> list_all (id_of_shard s) (orders (tables_of c (nodes w') s))"
proof (cases "seed_gens (Shards c) []")
  case (Inl e)
  then have "r = Done (0, Some e)" "w' = w" using assms(7) by (simp_all add: Seed_def)
  moreover have "e \<noteq> EAt ''copy into shard'' s (ESql UniqueViolation)"
  proof -
    have "seed_gens ss gens = Inl e \<Longrightarrow> \<exists>k. e = EShardRange k" for ss gens
      by (induction ss gens rule: seed_gens.induct) (auto split: sum.splits)
    then show ?thesis using Inl by auto
  qed
  ultimately show ?thesis using assms(6) by simp
next
  case (Inr gens)
  let ?s0 = "\<lparr>sd_gens = gens, sd_clock = readings en, sd_draws = 0, sd_buckets = []\<rparr>"
  obtain o1 sd where rows: "seed_tenants en (topo c) per [1..tenants] ?s0 = (o1, sd)" by (metis surj_pair)
  show ?thesis
  proof (cases o1)
    case (Done u)
    have ids: "ids_ok sd" by (rule seed_tenants_ids [OF seed_start_ids [OF Inr assms(1)] rows [unfolded Done]])
    note visited = visited_buckets [OF rows [unfolded Done] assms(3,4)]
    have pre: "\<forall>(k, rows)\<in>set (visit en (sd_buckets sd)). orders (tables_of c (nodes w) k) = [] \<and> distinct (map o_ID rows)"
      using visited(2) bucket_ids [OF ids] assms(6) by auto
    obtain o2 w2 where copies: "for_io (copy_bucket c) (visit en (sd_buckets sd)) 0 w = (o2, w2)" by (metis surj_pair)
    note fresh = copies_fresh [OF assms(2,5) visited(1) pre copies]
    have "w' = w2" "r = Done (n, Some e) \<Longrightarrow> o2 = Done (Inl (n, e))" for n e
      using assms(7) Inr rows Done copies
      by (auto simp: Seed_def on_memory_def bind_io_def try_io_def split: outcome.splits sum.splits)
    moreover have "distinct (map o_ID (orders (tables_of c (nodes w2) s))) \<and> list_all (id_of_shard s) (orders (tables_of c (nodes w2) s))"
      using fresh [THEN conjunct2, of s] visited(2) bucket_ids [OF ids, of s] assms(6) by auto
    ultimately show ?thesis using fresh by blast
  qed (use assms(6,7) Inr rows in \<open>auto simp: Seed_def on_memory_def bind_io_def\<close>)
qed

section \<open>Examples\<close>

lemma seed_ids_fresh_witness:
  "\<exists>w'. Seed demo_env demo_cluster 1 1 (demo_world [] (replicate 3 (calm 1))) = (Done (20, None), w')
    \<and> list_all (id_of_shard 0) (orders (tables_of demo_cluster (nodes w') 0))"
proof -
  let ?w = "demo_world [] (replicate 3 (calm 1))"
  obtain w' where run: "Seed demo_env demo_cluster 1 1 ?w = (Done (20, None), w')" using demo_seed by blast
  have "moves_in (=) (script ?w)" by (simp only: demo_seed_facts simp_thms)
  moreover have "orders (tables_of demo_cluster (nodes ?w) s) = []" for s
    by (simp add: tables_of_def demo_world_def empty_tables_def split: sum.splits)
  moreover have "clock_steady (readings demo_env)"
    by (simp add: clock_steady_def demo_env_def reading_ok_def idEpochMs_def sorted_iff_nth_mono list_all_iff)
  ultimately show ?thesis
    using seed_ids_fresh [OF _ demo_pools(4) demo_seed_facts(3,2) _ _ run, of 0] run by blast
qed

end
