(* ===== verification/Reading.thy ===== *)
theory Reading
  imports Commands
begin

text \<open>
  The commands of \<open>src/cmd/shardctl/main.go\<close> that read: they do nothing to the databases, so
  whatever a run finds there at its end is the work of other clients.
\<close>

section \<open>The bodies\<close>

context rely
begin

lemmas read_rules = guar_rules guar_gather guar_Scatter guar_stats_fn guar_state_counts_fn guar_page_fn guar_PageRecent
  guar_audit_shard guar_orphans_on

lemma guar_stats_body: "guar R (stats_body sched relsize c)"
  unfolding stats_body_def Stats_def by (auto intro!: read_rules simp del: ret_simp split: option.splits prod.splits)

lemma guar_tenant_body: "guar R (tenant_body k cd)"
  unfolding tenant_body_def SummarizeTenant_def
  by (auto intro!: guar_rules simp del: ret_simp split: sum.splits prod.splits)

lemma guar_count_body: "guar R (count_body sched partial c)"
  unfolding count_body_def StateCounts_def
  by (auto intro!: read_rules simp del: ret_simp split: option.splits prod.splits)

lemma guar_page_loop: "guar R (page_loop c limit n scheds cur)"
proof (induction n arbitrary: cur)
  case (Suc n)
  show ?case
    unfolding page_loop.simps
    by (auto intro!: guar_try guar_ret guar_PageRecent Suc.IH simp del: ret_simp split: prod.splits)
qed (simp add: guar_ret del: ret_simp)

lemma guar_audit_body: "guar R (audit_body c)"
  unfolding audit_body_def Misplaced_def Let_def by (intro guar_try guar_for guar_ret guar_audit_shard)

lemma guar_orphans_list: "guar R (orphans_body False c)"
  unfolding orphans_body_def Orphans_def
  by (auto intro!: guar_try guar_for guar_ret guar_orphans_on simp del: ret_simp)

lemma guar_pools: "guar R (Open parse connect dsns tp)" "guar R (Close c)" "guar R (Ping c)"
proof -
  have close: "guar R (Close c)" for c by (simp add: guar_def Close_def R_refl)
  have new: "guar R (new_pool connect s)" for s by (simp add: guar_def new_pool_def R_refl split: option.split)
  show "guar R (Open parse connect dsns tp)"
    unfolding Open_def open_step_def
    by (auto intro!: guar_for guar_try guar_bind guar_ret close new simp del: ret_simp split: option.splits)
  show "guar R (Close c)" by (rule close)
  show "guar R (Ping c)"
    unfolding Ping_def ping_def by (auto intro!: guar_rules simp del: ret_simp split: sum.splits)
qed

end

section \<open>The commands\<close>

text \<open>The same for a command, which may also work on files.\<close>

definition cguar :: "(db \<Rightarrow> db \<Rightarrow> bool) \<Rightarrow> 'a command \<Rightarrow> bool" where
  "cguar R m \<longleftrightarrow> (\<forall>s. moves_in R (script (pr_world s)) \<longrightarrow>
     R (nodes (pr_world s)) (nodes (pr_world (snd (m s)))) \<and> moves_in R (script (pr_world (snd (m s)))))"

context rely
begin

lemma cguar_same: "(\<And>s. pr_world (snd (m s)) = pr_world s) \<Longrightarrow> cguar R m"
  by (simp add: cguar_def R_refl)

lemma cguar_ret: "cguar R (ret x)"
  by (rule cguar_same) simp

lemma cguar_bind:
  assumes "cguar R m" and "\<And>x. cguar R (f x)"
  shows "cguar R (bind_io m f)"
proof (unfold cguar_def, intro allI impI)
  fix s :: process assume s: "moves_in R (script (pr_world s))"
  obtain r s1 where m: "m s = (r, s1)" by (metis surj_pair)
  then have 1: "R (nodes (pr_world s)) (nodes (pr_world s1))" "moves_in R (script (pr_world s1))"
    using assms(1) s unfolding cguar_def by (metis snd_conv)+
  show "R (nodes (pr_world s)) (nodes (pr_world (snd (bind_io m f s)))) \<and> moves_in R (script (pr_world (snd (bind_io m f s))))"
  proof (cases r)
    case (Done x)
    then have "R (nodes (pr_world s1)) (nodes (pr_world (snd (bind_io m f s))))" "moves_in R (script (pr_world (snd (bind_io m f s))))"
      using assms(2) [of x] 1(2) m by (simp_all add: cguar_def bind_io_def)
    then show ?thesis using 1(1) R_trans by blast
  qed (use m 1 in \<open>simp_all add: bind_io_def\<close>)
qed

lemma cguar_try: "cguar R m \<Longrightarrow> (\<And>e. cguar R (h e)) \<Longrightarrow> (\<And>x. cguar R (f x)) \<Longrightarrow> cguar R (try_io m h f)"
  unfolding try_io_def by (rule cguar_bind) (auto split: sum.splits)

lemma cguar_world: "guar R m \<Longrightarrow> cguar R (on_world m)"
  by (auto simp: cguar_def guar_def on_world_def split: prod.splits)

lemma cguar_cluster:
  assumes "\<And>cd. guar R (body cd)"
  shows "cguar R (with_cluster u body)"
proof -
  have host: "cguar R (on_host m)" for m :: "'b sys" by (rule cguar_same) (simp add: on_host_def split: prod.split)
  have "cguar R (open_cmd u)"
    unfolding open_cmd_def
    by (auto intro!: cguar_try cguar_bind cguar_ret cguar_world host guar_pools simp del: ret_simp split: option.splits)
  then show ?thesis
    unfolding with_cluster_def
    by (auto intro!: cguar_try cguar_bind cguar_ret cguar_world guar_pools assms simp del: ret_simp)
qed

lemma cguar_flags: "(\<And>x. cguar R (m x)) \<Longrightarrow> cguar R (outcome_of (with_flags fl m))"
  unfolding outcome_of_def with_flags_def
  by (cases fl) (auto intro!: cguar_try cguar_ret simp del: ret_simp)

lemma cguar_reading:
  "cguar R (topology_command u args)" "cguar R (stats_command u sched relsize)" "cguar R (tenant_command u args)"
  "cguar R (count_command u sched args)" "cguar R (page_command u scheds args)" "cguar R (ids_command clock args)"
  "cguar R (audit_command u)" "orphans_flags args \<noteq> Inr True \<Longrightarrow> cguar R (orphans_command u args)"
proof -
  show "cguar R (topology_command u args)"
    unfolding topology_command_def run_topology_def
    by (intro cguar_flags cguar_bind cguar_ret cguar_same) (simp add: lift_go_def split: sum.split)
  show "cguar R (stats_command u sched relsize)"
    unfolding stats_command_def cmdStats_def by (intro cguar_flags cguar_cluster) (auto intro: guar_stats_body)
  show "cguar R (tenant_command u args)"
    unfolding tenant_command_def cmdTenant_def
    by (intro cguar_flags) (auto intro!: cguar_ret cguar_cluster guar_tenant_body simp del: ret_simp split: list.splits sum.splits)
  show "cguar R (count_command u sched args)"
    unfolding count_command_def cmdCount_def by (intro cguar_flags cguar_cluster) (auto intro: guar_count_body)
  show "cguar R (page_command u scheds args)"
    unfolding page_command_def cmdPage_def
    by (intro cguar_flags) (auto intro!: cguar_cluster guar_page_loop split: prod.splits)
  show "cguar R (ids_command clock args)"
    unfolding ids_command_def run_ids_def
    by (intro cguar_flags cguar_same) (auto split: sum.splits option.splits id_error.splits prod.splits)
  show "cguar R (audit_command u)"
    unfolding audit_command_def cmdAudit_def by (intro cguar_flags cguar_cluster) (auto intro: guar_audit_body)
  show "cguar R (orphans_command u args)" if "orphans_flags args \<noteq> Inr True"
  proof (cases "orphans_flags args")
    case (Inl k)
    then show ?thesis unfolding orphans_command_def outcome_of_def with_flags_def by (auto intro!: cguar_try cguar_ret simp del: ret_simp)
  next
    case (Inr b)
    then have "orphans_command u args = outcome_of (with_flags (Inr ()) (\<lambda>_. cmdOrphans u False))"
      using that by (simp add: orphans_command_def with_flags_def)
    then show ?thesis unfolding cmdOrphans_def by (auto intro!: cguar_flags cguar_cluster guar_orphans_list)
  qed
qed

end

text \<open>The command lines that only read.\<close>

definition reading :: "string \<Rightarrow> string list \<Rightarrow> bool" where
  "reading cmd args \<longleftrightarrow> cmd \<in> {''topology'', ''stats'', ''tenant'', ''count'', ''page'', ''ids'', ''audit''}
     \<or> cmd = ''orphans'' \<and> orphans_flags args \<noteq> Inr True"

lemma reading_guar:
  assumes "rely R" and "reading cmd args" and "command_of u rn cmd args = Some m"
  shows "cguar R m"
proof -
  have "cmd = ''topology'' \<or> cmd = ''stats'' \<or> cmd = ''tenant'' \<or> cmd = ''count'' \<or> cmd = ''page'' \<or> cmd = ''ids''
      \<or> cmd = ''audit'' \<or> cmd = ''orphans'' \<and> orphans_flags args \<noteq> Inr True"
    using assms(2) by (simp only: reading_def insert_iff empty_iff simp_thms disj_assoc)
  then show ?thesis
    by (elim disjE) (use assms(3) rely.cguar_reading [OF assms(1)] in \<open>auto simp: command_of_def\<close>)
qed

section \<open>Properties\<close>

text \<open>C16: A command that reads writes nothing.  Whatever its arguments and however it ends, with a result,
  an error, a panic or killed, it has moved the databases only as the other clients did
  meanwhile: for every relation they keep to, so does the run as a whole.  This holds of all
  commands but seed, transfer, demo and orphans with \<open>-resolve\<close>.\<close>

theorem reading_writes_nothing:
  assumes "rely R" and "moves_in R (script (pr_world s))" and "reading cmd args" and "main u rn (cmd # args) s = (r, s')"
  shows "R (nodes (pr_world s)) (nodes (pr_world s'))"
proof (cases "command_of u rn cmd args")
  case None
  then show ?thesis using assms(4) rely.R_refl [OF assms(1)] by (simp add: main_def)
next
  case (Some m)
  have "cguar R (main u rn (cmd # args))"
    using reading_guar [OF assms(1,3) Some] Some
    by (auto simp: main_def intro!: rely.cguar_bind [OF assms(1)] rely.cguar_ret [OF assms(1)] simp del: ret_simp)
  then show ?thesis using assms(2,4) unfolding cguar_def by (metis snd_conv)
qed

section \<open>Examples\<close>

lemma reading_writes_nothing_witness:
  "\<exists>s'. main demo_config demo_run [''audit''] demo_process = (Done 1, s') \<and> nodes (pr_world s') = nodes (pr_world demo_process)"
proof -
  obtain s' where run: "main demo_config demo_run [''audit''] demo_process = (Done 1, s')" using demo_main by blast
  have "rely ((=) :: db \<Rightarrow> db \<Rightarrow> bool)" by unfold_locales
  moreover have "moves_in (=) (script (pr_world demo_process))" by (simp add: demo_process_def demo_world_def)
  moreover have "reading ''audit'' []" by (simp add: reading_def)
  ultimately show ?thesis using reading_writes_nothing [of "(=)", OF _ _ _ run] run by simp
qed

end
