(* ===== verification/Keeping.thy ===== *)
theory Keeping
  imports Reading "HOL-Library.Sublist"
begin

text \<open>
  What every command of \<open>src/cmd/shardctl/main.go\<close> keeps, those that write included: the tables of
  \<open>src/labs/04-app-sharding-go/schema.sql\<close> stay within their types and primary keys, and no order,
  no account, no event and no mark of an applied event is ever lost.
\<close>

section \<open>Tables that are well typed, and tables that grow\<close>

definition tables_ok :: "tables \<Rightarrow> bool" where
  "tables_ok T \<longleftrightarrow> distinct (map o_ID (orders T)) \<and> go_map_ok (ledger T) \<and> list_all (\<lambda>(t, b). in_bigint b) (ledger T)
     \<and> distinct (map ob_id (outbox T)) \<and> distinct (applied T)"

text \<open>An event without the mark of its delivery, the only column that is ever updated.\<close>

definition event_of :: "outbox_row \<Rightarrow> outbox_row" where
  "event_of r = r\<lparr>ob_delivered := False\<rparr>"

definition grows :: "tables \<Rightarrow> tables \<Rightarrow> bool" where
  "grows T T' \<longleftrightarrow> prefix (orders T) (orders T') \<and> fst ` set (ledger T) \<subseteq> fst ` set (ledger T')
     \<and> prefix (map event_of (outbox T)) (map event_of (outbox T')) \<and> prefix (applied T) (applied T')"

lemma grows_refl: "grows T T"
  by (simp add: grows_def)

lemma grows_trans: "grows T T1 \<Longrightarrow> grows T1 T2 \<Longrightarrow> grows T T2"
  by (auto simp: grows_def intro: prefix_order.trans)

text \<open>A prepared transaction waits with its work, which has to be safe whenever it is committed.\<close>

definition safe_effect :: "(tables \<Rightarrow> tables) \<Rightarrow> bool" where
  "safe_effect eff \<longleftrightarrow> (\<forall>T. tables_ok T \<longrightarrow> tables_ok (eff T) \<and> grows T (eff T))"

definition node_ok :: "node \<Rightarrow> bool" where
  "node_ok n \<longleftrightarrow> tables_ok (tabs n) \<and> distinct (map px_gid (prepared n)) \<and> (\<forall>px\<in>set (prepared n). safe_effect (px_effect px))"

definition preserves :: "db \<Rightarrow> db \<Rightarrow> bool" where
  "preserves d d' \<longleftrightarrow> ((\<forall>x. node_ok (d x)) \<longrightarrow> (\<forall>x. node_ok (d' x) \<and> grows (tabs (d x)) (tabs (d' x))))"

interpretation keep: rely preserves
proof unfold_locales
  show "preserves d d" for d by (simp add: preserves_def grows_refl)
  show "preserves d d1 \<Longrightarrow> preserves d1 d2 \<Longrightarrow> preserves d d2" for d d1 d2 unfolding preserves_def by (meson grows_trans)
qed

section \<open>Statements\<close>

lemma event_of_key [simp]: "ob_id (event_of r) = ob_id r"
  by (simp add: event_of_def)

lemma event_of_marked: "event_of (r\<lparr>ob_delivered := b\<rparr>) = event_of r"
  by (simp add: event_of_def)

text \<open>Setting the mark of some rows.\<close>

lemma marks_safe:
  "safe_effect (\<lambda>T. T\<lparr>outbox := map (\<lambda>r. if ob_id r = k then r\<lparr>ob_delivered := b\<rparr> else r) (outbox T)\<rparr>)"
proof -
  have "map ob_id (map (\<lambda>r. if ob_id r = k then r\<lparr>ob_delivered := b\<rparr> else r) rows) = map ob_id rows"
    "map event_of (map (\<lambda>r. if ob_id r = k then r\<lparr>ob_delivered := b\<rparr> else r) rows) = map event_of rows" for rows
    by (simp_all add: event_of_marked)
  then show ?thesis unfolding safe_effect_def tables_ok_def grows_def by (simp del: map_map)
qed

lemma ledger_update_ok:
  assumes "tables_ok T" and "in_bigint b"
  shows "tables_ok (T\<lparr>ledger := AList.update t b (ledger T)\<rparr>)" and "grows T (T\<lparr>ledger := AList.update t b (ledger T)\<rparr>)"
proof -
  have "list_all (\<lambda>(t, b). in_bigint b) l \<Longrightarrow> list_all (\<lambda>(t, b). in_bigint b) (AList.update t b l)" for l :: "(u64, int) gomap"
    using assms(2) by (induction l) auto
  then show "tables_ok (T\<lparr>ledger := AList.update t b (ledger T)\<rparr>)" using assms(1) by (simp add: tables_ok_def)
  show "grows T (T\<lparr>ledger := AList.update t b (ledger T)\<rparr>)" by (auto simp: grows_def dom_update)
qed

definition stmt_keeps :: "(tables \<Rightarrow> sql_error + 'a \<times> tables) \<Rightarrow> bool" where
  "stmt_keeps stmt \<longleftrightarrow> (\<forall>T x T'. tables_ok T \<longrightarrow> stmt T = Inr (x, T') \<longrightarrow> tables_ok T' \<and> grows T T')"

lemma statements_keep:
  "stmt_keeps (sql_debit from cents)" "stmt_keeps (sql_credit pl)" "stmt_keeps (sql_insert_outbox row)"
  "stmt_keeps (sql_insert_applied k)" "stmt_keeps (sql_debit_2pc from cents)" "stmt_keeps (sql_credit_2pc to cents)"
proof -
  show "stmt_keeps (sql_debit from cents)" "stmt_keeps (sql_debit_2pc from cents)"
    unfolding stmt_keeps_def sql_debit_def sql_debit_2pc_def
    by (auto simp: grows_refl ledger_update_ok split: option.splits if_splits)
  show "stmt_keeps (sql_credit pl)" "stmt_keeps (sql_credit_2pc to cents)"
    unfolding stmt_keeps_def sql_credit_def sql_credit_2pc_def Let_def by (auto simp: ledger_update_ok split: if_splits)
  show "stmt_keeps (sql_insert_outbox row)" "stmt_keeps (sql_insert_applied k)"
    unfolding stmt_keeps_def sql_insert_outbox_def sql_insert_applied_def
    by (auto simp: tables_ok_def grows_def split: if_splits)
qed

section \<open>Transactions\<close>

definition tx_keeps :: "'a tx \<Rightarrow> bool" where
  "tx_keeps m \<longleftrightarrow> tx_frame m \<and> (\<forall>T es. tables_ok T \<longrightarrow> tables_ok (fst (snd (m (T, es)))) \<and> grows T (fst (snd (m (T, es)))))"

lemma tx_keeps_effect: "tx_keeps m \<Longrightarrow> safe_effect (\<lambda>T. fst (snd (m (T, es))))"
  by (simp add: tx_keeps_def safe_effect_def)

lemma tx_keeps_ret: "tx_keeps (tx_ret x)"
  by (simp add: tx_keeps_def tx_frame_ret) (simp add: tx_ret_def grows_refl)

lemma tx_keeps_stmt: "stmt_keeps stmt \<Longrightarrow> tx_keeps (tx_stmt stmt)"
  unfolding tx_keeps_def stmt_keeps_def
  by (auto simp: tx_frame_stmt) (auto simp: tx_stmt_def grows_refl split: list.split sum.split)

lemma tx_keeps_try:
  assumes "tx_keeps m" and "\<And>e. tx_keeps (h e)" and "\<And>x. tx_keeps (f x)"
  shows "tx_keeps (tx_try m h f)"
proof (unfold tx_keeps_def, intro conjI allI impI)
  show "tx_frame (tx_try m h f)" using assms by (auto simp: tx_keeps_def intro: tx_frame_try)
  fix T es assume T: "tables_ok T"
  obtain r T1 es1 where m: "m (T, es) = (r, T1, es1)" by (metis prod_cases3)
  then have T1: "tables_ok T1" "grows T T1" using assms(1) T unfolding tx_keeps_def by (metis fst_conv snd_conv)+
  have next_ok: "tables_ok (fst (snd (g (T1, es1)))) \<and> grows T (fst (snd (g (T1, es1))))" if "tx_keeps g" for g :: "'c tx"
    using that T1 grows_trans unfolding tx_keeps_def by blast
  show "tables_ok (fst (snd (tx_try m h f (T, es))))" "grows T (fst (snd (tx_try m h f (T, es))))"
    using m T1 next_ok [OF assms(2)] next_ok [OF assms(3)]
    by (auto simp: tx_try_def tx_bind_def split: outcome.split sum.split)
qed

lemmas tx_rules = tx_keeps_ret tx_keeps_try tx_keeps_stmt statements_keep

section \<open>Programs\<close>

lemma keeps_node:
  assumes "node_ok (d x) \<Longrightarrow> node_ok n \<and> grows (tabs (d x)) (tabs n)"
  shows "preserves d (d(x := n))"
  using assms by (simp add: preserves_def grows_refl)

lemma guar_keeps_trip:
  assumes "\<And>t n x n'. node_ok n \<Longrightarrow> stmt t n = Inr (x, n') \<Longrightarrow> node_ok n' \<and> grows (tabs n) (tabs n')"
  shows "guar preserves (round_trip p stmt)"
  by (rule keep.guar_round_trip, rule keeps_node) (rule assms)

lemma guar_keeps_begin: "tx_keeps body \<Longrightarrow> guar preserves (begin_func p body)"
proof (rule keep.guar_begin_func)
  assume body: "tx_keeps body"
  then show "tx_frame body" by (simp add: tx_keeps_def)
  fix d :: db and es x T es' assume "body (tabs (d (p_dsn p)), es) = (Done (Inr x), T, es')"
  then show "preserves d (d(p_dsn p := (d (p_dsn p))\<lparr>tabs := T\<rparr>))"
    using body by (intro keeps_node) (auto simp: node_ok_def tx_keeps_def dest!: spec [of _ "tabs (d (p_dsn p))"] spec [of _ es])
qed

lemma effect_trip:
  assumes "safe_effect eff"
  shows "guar preserves (round_trip p (\<lambda>t n. Inr (u, n\<lparr>tabs := eff (tabs n)\<rparr>)))"
  by (rule guar_keeps_trip) (use assms in \<open>auto simp: node_ok_def safe_effect_def\<close>)

lemma marks_trips: "guar preserves (round_trip p (sql_mark_delivered k))" "guar preserves (round_trip p (sql_unmark k))"
  unfolding sql_mark_delivered_def [abs_def] sql_unmark_def [abs_def] by (rule effect_trip, rule marks_safe)+

lemma prepared_trips:
  "guar preserves (round_trip p (sql_commit_prepared g))" "guar preserves (round_trip p (sql_rollback_prepared g))"
  "safe_effect eff \<Longrightarrow> guar preserves (round_trip p (sql_prepare g eff))"
  by (rule guar_keeps_trip,
      auto simp: sql_commit_prepared_def sql_rollback_prepared_def sql_prepare_def node_ok_def safe_effect_def grows_refl
        distinct_map_filter find_Some_iff split: option.splits if_splits)+

lemma copy_trip: "guar preserves (round_trip p (sql_copy rows))"
  by (rule guar_keeps_trip) (auto simp: sql_copy_def node_ok_def tables_ok_def grows_def split: if_splits)

lemma insert_trip: "guar preserves (round_trip p (sql_insert_order row))"
  by (rule guar_keeps_trip)
    (auto simp: sql_insert_order_def has_order_def node_ok_def tables_ok_def grows_def list_ex_iff split: if_splits)

lemma seed_ledger_trip: "guar preserves (round_trip p sql_seed_ledger)"
proof -
  have "tables_ok T \<Longrightarrow> tables_ok (T\<lparr>ledger := fold (\<lambda>t l. AList.update t 1000000 l) ts (ledger T)\<rparr>)
      \<and> grows T (T\<lparr>ledger := fold (\<lambda>t l. AList.update t 1000000 l) ts (ledger T)\<rparr>)" for ts T
  proof (induction ts arbitrary: T)
    case (Cons t ts)
    have "in_bigint 1000000" by (simp add: in_bigint_def)
    from ledger_update_ok [OF Cons.prems this, of t] Cons.IH [of "T\<lparr>ledger := AList.update t 1000000 (ledger T)\<rparr>"] grows_trans
    show ?case by fastforce
  qed (simp add: grows_refl)
  then have "safe_effect (\<lambda>T. T\<lparr>ledger := fold (\<lambda>t l. AList.update t 1000000 l) (remdups (map o_TenantID (orders T))) (ledger T)\<rparr>)"
    by (simp add: safe_effect_def)
  from effect_trip [OF this] show ?thesis by (simp add: sql_seed_ledger_def [abs_def])
qed

lemma guar_run_leg:
  assumes "tx_keeps fn"
  shows "guar preserves (run_leg g p s fn)"
proof (unfold guar_def, intro allI impI)
  fix w :: world assume w: "moves_in preserves (script w)"
  show "preserves (nodes w) (nodes (snd (run_leg g p s fn w))) \<and> moves_in preserves (script (snd (run_leg g p s fn w)))"
  proof (cases "script w")
    case (Cons b es)
    let ?d = "ev_move b (nodes w)"
    obtain r T es1 where fn: "fn (tabs (?d (p_dsn p)), es) = (r, T, es1)" by (metis prod_cases3)
    have d: "preserves (nodes w) ?d" "moves_in preserves es" using w Cons by simp_all
    have "\<exists>k. es1 = drop k es" using assms fn unfolding tx_keeps_def tx_frame_def by (metis snd_conv)
    then have es1: "moves_in preserves es1" using d(2) unfolding moves_in_def by (auto dest: in_set_dropD)
    have rest: "preserves (nodes w) (nodes (snd (m (w\<lparr>nodes := ?d, script := es1\<rparr>))))
        \<and> moves_in preserves (script (snd (m (w\<lparr>nodes := ?d, script := es1\<rparr>))))" if "guar preserves m" for m :: "(gerr + unit) io"
      using that d(1) es1 keep.R_trans unfolding guar_def
      by (metis world.select_convs(1,2) world.surjective world.update_convs(1,2))
    have req: "guar preserves (request p)" unfolding request_def by (rule keep.guar_query_row)
    have fail: "guar preserves (bind_io (request p) (\<lambda>_. ret (Inl e)))" for e :: gerr
      by (intro keep.guar_bind keep.guar_ret req)
    have prep: "guar preserves (try_io (round_trip p (sql_prepare g (\<lambda>T. fst (snd (fn (T, es))))))
        (\<lambda>e. bind_io (request p) (\<lambda>_. ret (Inl (EAt ''prepare'' s e)))) (\<lambda>_. ret (Inr ())))"
      by (intro keep.guar_try prepared_trips tx_keeps_effect assms fail keep.guar_ret)
    show ?thesis
      using Cons fn d es1 rest [OF fail] rest [OF prep]
      by (auto simp: run_leg_def Let_def simp del: ret_simp split: outcome.split sum.split)
  qed (simp add: run_leg_def keep.R_refl)
qed

section \<open>The commands that write\<close>

lemmas keep_rules = keep.guar_rules keep.guar_panic marks_trips prepared_trips copy_trip seed_ledger_trip guar_keeps_begin guar_run_leg

lemma guar_two_pc:
  assumes "\<forall>(s, fn)\<in>set parts. tx_keeps fn"
  shows "guar preserves (TwoPC_Do c gid parts)"
proof -
  have req: "guar preserves (request p)" for p unfolding request_def by (rule keep.guar_query_row)
  have undo: "guar preserves (rollbackAll c legs)" for legs
    by (induction legs) (auto simp: rollback_one_def intro!: keep_rules simp del: ret_simp split: sum.split)
  have one: "guar preserves (phase1 c gid parts legs)" for legs
    using assms
    by (induction parts arbitrary: legs) (auto intro!: keep_rules undo req simp del: ret_simp split: sum.split)
  have two: "guar preserves (phase2 c legs)" for legs
    by (induction legs) (auto simp: commit_one_def intro!: keep_rules simp del: ret_simp split: sum.split)
  show ?thesis unfolding TwoPC_Do_def by (intro keep.guar_try keep.guar_bind keep.guar_ret one two)
qed

lemma guar_prepare_only:
  assumes "\<forall>(s, fn)\<in>set parts. tx_keeps fn"
  shows "guar preserves (prepareOnly c gid parts)"
proof -
  have req: "guar preserves (request p)" for p unfolding request_def by (rule keep.guar_query_row)
  have "guar preserves (prepare_leg c gid x u)" if "x \<in> set parts" for x u
    using assms that unfolding prepare_leg_def
    by (auto intro!: keep_rules req simp del: ret_simp split: prod.split sum.split)
  then show ?thesis unfolding prepareOnly_def by (intro keep.guar_for_in) blast
qed

lemma guar_relay: "guar preserves (RelayOnce c src batch)"
proof -
  have "tx_keeps (apply_event e)" for e
    unfolding apply_event_def by (auto intro!: tx_rules)
  then show ?thesis
    unfolding RelayOnce_def relay_event_def
    by (auto intro!: keep_rules simp del: ret_simp split: sum.split option.split prod.split)
qed

lemma guar_replay: "guar preserves (replayLast c src k)"
  unfolding replayLast_def
  by (auto intro!: keep_rules guar_relay simp del: ret_simp split: sum.split option.split prod.split)

lemma guar_transfer: "guar preserves (Transfer c k from to cents)"
proof -
  have "tx_keeps (transfer_tx src dst k from to cents)" for src dst
    unfolding transfer_tx_def Let_def by (auto intro!: tx_rules split: option.split)
  then show ?thesis
    unfolding Transfer_def by (auto intro!: keep_rules simp del: ret_simp split: sum.split prod.split)
qed

lemma guar_before: "guar preserves (before c fl)"
  unfolding before_def balance_line_def SummarizeTenant_def
  by (auto intro!: keep_rules simp del: ret_simp split: sum.split prod.split)

lemma guar_transfer_body: "guar preserves (transfer_body mode fl flip nanos c)"
proof -
  have parts: "(s, fn) \<in> set (transfer_parts flip src dst x y cents) \<Longrightarrow> tx_keeps fn" for s fn src dst x y cents
    by (auto simp: transfer_parts_def Let_def intro!: tx_rules split: if_splits)
  have exits: "guar preserves (os_Exit :: 'b io)" by (simp add: guar_def os_Exit_def keep.R_refl)
  have "guar preserves (transfer_2pc c flip nanos src dst fl)" for src dst
    unfolding transfer_2pc_def Let_def
    by (auto intro!: keep.guar_try keep.guar_ret guar_two_pc guar_prepare_only exits simp del: ret_simp dest: parts)
  moreover have "guar preserves (transfer_outbox c nanos src fl)" for src
    unfolding transfer_outbox_def PendingOutbox_def
    by (auto intro!: keep.guar_try keep.guar_bind keep.guar_ret keep.guar_for keep.guar_pending_on guar_transfer guar_before
        guar_relay guar_replay simp del: ret_simp split: prod.split option.split)
  ultimately show ?thesis
    unfolding transfer_body_def Let_def
    by (auto intro!: keep.guar_try keep.guar_bind keep.guar_ret keep.guar_lift guar_before simp del: ret_simp split: prod.split)
qed

lemma orphans_body_keeps: "guar preserves (orphans_body resolve c)"
  unfolding orphans_body_def Orphans_def resolve_one_def
  by (auto intro!: keep_rules keep.guar_orphans_on simp del: ret_simp split: sum.split)

lemma guar_seed_body: "guar preserves (seed_body en tenants per c)"
proof -
  have memory: "guar preserves (on_memory m s)" for m :: "(seeding, unit) prog" and s
    by (auto simp: guar_def on_memory_def keep.R_refl split: prod.split outcome.split)
  show ?thesis
    unfolding seed_body_def Seed_def copy_bucket_def seed_ledger_on_def
    by (auto intro!: keep_rules memory simp del: ret_simp split: sum.split option.split prod.split)
qed

lemma cguar_writing:
  "cguar preserves (seed_command u en args)" "cguar preserves (transfer_command u flip nanos args)" "cguar preserves (orphans_command u args)"
proof -
  show "cguar preserves (seed_command u en args)"
    unfolding seed_command_def cmdSeed_def
    by (intro keep.cguar_flags) (auto intro!: keep.cguar_cluster guar_seed_body split: prod.split)
  show "cguar preserves (orphans_command u args)"
    unfolding orphans_command_def cmdOrphans_def
    by (intro keep.cguar_flags) (auto intro!: keep.cguar_cluster orphans_body_keeps)
  have lift: "cguar preserves (lift_go m)" for m :: "'b go"
    by (rule keep.cguar_same) (simp add: lift_go_def split: sum.split)
  have outcome: "cguar preserves (outcome_of m)" if "cguar preserves m" for m :: "('e + 'b) command"
    unfolding outcome_of_def by (intro keep.cguar_try keep.cguar_ret that)
  have flags: "cguar preserves (with_flags fl m)" if "\<And>x. cguar preserves (m x)" for fl :: "int + 'f" and m :: "'f \<Rightarrow> (gerr + 'b) command"
    unfolding with_flags_def by (cases fl) (auto intro!: keep.cguar_try keep.cguar_ret that simp del: ret_simp)
  show "cguar preserves (transfer_command u flip nanos args)"
    unfolding transfer_command_def cmdTransfer_def
    by (auto intro!: outcome keep.cguar_bind lift flags keep.cguar_cluster guar_transfer_body split: prod.split)
qed

lemma cguar_steps: "\<forall>m\<in>set ms. cguar preserves m \<Longrightarrow> cguar preserves (for_io (\<lambda>step _. step) ms u)"
  by (induction ms arbitrary: u) (auto intro!: keep.cguar_try keep.cguar_ret simp del: ret_simp)

lemma cguar_any:
  assumes "command_of u rn cmd args = Some m"
  shows "cguar preserves m"
proof -
  have "cguar preserves (cmdDemo u rn)"
    unfolding cmdDemo_def
    by (rule cguar_steps) (simp add: keep.cguar_reading cguar_writing)
  then show ?thesis
    using assms by (auto simp: command_of_def keep.cguar_reading cguar_writing split: if_split_asm)
qed

section \<open>Properties\<close>

text \<open>C15: No command loses anything or leaves a table broken.  Whatever the command line, whatever is lost on
  the way and wherever the process is killed, among clients that do the same: on every node every
  order, every account, every outbox event and every mark of an applied event stays, new ones
  come after the old, every key stays unique and every balance a \<open>bigint\<close>; and the same still
  holds of what the prepared transactions will do.\<close>

theorem main_loses_nothing:
  assumes "moves_in preserves (script (pr_world s))" and "\<And>x. node_ok (nodes (pr_world s) x)" and "main u rn args s = (r, s')"
  shows "node_ok (nodes (pr_world s') x) \<and> grows (tabs (nodes (pr_world s) x)) (tabs (nodes (pr_world s') x))"
proof -
  have "cguar preserves (main u rn args)"
    by (auto simp: main_def intro!: keep.cguar_bind keep.cguar_ret cguar_any simp del: ret_simp split: list.split option.split)
  then have "preserves (nodes (pr_world s)) (nodes (pr_world s'))" using assms(1,3) unfolding cguar_def by (metis snd_conv)
  then show ?thesis using assms(2) by (simp add: preserves_def)
qed

section \<open>Examples\<close>

text \<open>One shard, which holds a row of each table and an orphan.\<close>

definition one_config :: config where
  "one_config = \<lparr>env = (\<lambda>k. if k = ''SHARDS'' then ''1'' else []), parse_dsn = (\<lambda>s. None), connect_dsn = (\<lambda>s. None)\<rparr>"

definition one_dir :: directory where
  "one_dir = \<lparr>LogicalCount = 1, Placement = [0], Migrating = None, Pins = None\<rparr>"

definition one_node :: node where
  "one_node = \<lparr>tabs = \<lparr>orders = [mk_order 3 5 0 77 100 ''new''], ledger = [(5, 100)], outbox = [credit_row 7 1 5 9 30], applied = [4]\<rparr>,
     prepared = [\<lparr>px_gid = ''g-0'', px_prepared = 1, px_effect = (\<lambda>T. T)\<rparr>]\<rparr>"

definition one_process :: process where
  "one_process = \<lparr>pr_host = \<lparr>files = (\<lambda>p. Some (Doc (MarshalDirectory one_dir))), os_script = [OsOk]\<rparr>,
     pr_world = \<lparr>nodes = (\<lambda>x. one_node), script = [calm 1, calm 2, calm 3], open_pools = [], next_pool = 0\<rparr>\<rparr>"

lemma one_open:
  "\<exists>dir h S. open_cmd one_config one_process =
     (Done (Inr (\<lparr>pools = [(0, \<lparr>p_handle = 0, p_dsn = S\<rparr>)], topo = TopDirectory dir\<rparr>, dir)),
      \<lparr>pr_host = h, pr_world = \<lparr>nodes = (\<lambda>x. one_node), script = [calm 2, calm 3], open_pools = [0], next_pool = 1\<rparr>\<rparr>)"
proof -
  have n: "nShards one_config = 1"
    by (simp add: nShards_def envInt_def one_config_def ParseInt_def ParseUint_def Let_def digit_val_def uint_cutoff_def max_uint64_def)
  have "dir_fits one_dir" by (simp add: dir_fits_def one_dir_def fits_def)
  then obtain d where d: "UnmarshalDirectory (MarshalDirectory one_dir) = Inr d" "dir_equiv one_dir d"
    using Unmarshal_Marshal by blast
  let ?h = "(pr_host one_process)\<lparr>os_script := []\<rparr>"
  have "LoadDirectory (topoPath one_config) (pr_host one_process) = (Done (Inr (fill_nil d)), ?h)"
    by (rule LoadDirectory_calm [OF _ _ d(1)]) (simp_all add: one_process_def)
  then have load: "LoadOrInitDirectory (topoPath one_config) 1024 1 (pr_host one_process) = (Done (Inr (fill_nil d)), ?h)"
    by (simp add: LoadOrInitDirectory_def try_io_def bind_io_def)
  have "route_targets (fill_nil d) = [0]"
    using d(2) by (auto simp: route_targets_def fill_nil_def dir_equiv_def one_dir_def split: option.splits)
  then have fits: "checkPlacementFits 1 (topoPath one_config) (fill_nil d) = None" by (simp add: checkPlacementFits_None)
  obtain S where dsns: "DSNsFromEnv (env one_config) 1 = [(0, S)]" by (simp add: DSNsFromEnv_def)
  have none: "parse_dsn one_config S = None" "connect_dsn one_config S = None" by (simp_all add: one_config_def)
  show ?thesis
    using load fits
    by (simp add: open_cmd_def on_host_def on_world_def n dsns none try_io_def bind_io_def Open_def open_step_def new_pool_def
        Ping_def Shards_def Pool_def ping_def query_row_def round_trip_def one_process_def Let_def)
qed

lemma one_main:
  "\<exists>s'. main one_config demo_run [''orphans'', ''-resolve''] one_process = (Done 0, s') \<and> (\<exists>S. prepared (nodes (pr_world s') S) = [])"
proof -
  obtain dir h S where op: "open_cmd one_config one_process =
     (Done (Inr (\<lparr>pools = [(0, \<lparr>p_handle = 0, p_dsn = S\<rparr>)], topo = TopDirectory dir\<rparr>, dir)),
      \<lparr>pr_host = h, pr_world = \<lparr>nodes = (\<lambda>x. one_node), script = [calm 2, calm 3], open_pools = [0], next_pool = 1\<rparr>\<rparr>)"
    using one_open by blast
  have "orphans_flags [''-resolve''] = Inr True"
    by (simp add: orphans_flags_def orphans_defaults_def orphans_values_def parse_defs ParseBool_def)
  then show ?thesis
    by (simp add: main_def command_of_def orphans_command_def outcome_of_def with_flags_def cmdOrphans_def with_cluster_def op try_io_def
        bind_io_def on_world_def orphans_body_def Orphans_def Shards_def orphans_on_def Pool_def query_rows_at_def sql_orphans_def
        one_node_def Let_def resolve_one_def round_trip_def sql_rollback_prepared_def Close_def)
qed

lemma main_loses_nothing_witness:
  "\<exists>s'. main one_config demo_run [''orphans'', ''-resolve''] one_process = (Done 0, s')
    \<and> (\<forall>x. node_ok (nodes (pr_world s') x) \<and> mk_order 3 5 0 77 100 ''new'' \<in> set (orders (tabs (nodes (pr_world s') x))))"
proof -
  obtain s' where run: "main one_config demo_run [''orphans'', ''-resolve''] one_process = (Done 0, s')" using one_main by blast
  have "preserves d d" for d by (rule keep.R_refl)
  then have "moves_in preserves (script (pr_world one_process))" by (simp add: one_process_def)
  moreover have "node_ok (nodes (pr_world one_process) x)" for x
    by (simp add: one_process_def one_node_def node_ok_def tables_ok_def go_map_ok_def in_bigint_def safe_effect_def grows_refl)
  ultimately have all: "node_ok (nodes (pr_world s') x) \<and> grows (tabs one_node) (tabs (nodes (pr_world s') x))" for x
    using main_loses_nothing [OF _ _ run, of x] by (simp add: one_process_def)
  have "mk_order 3 5 0 77 100 ''new'' \<in> set (orders (tabs one_node))" by (simp add: one_node_def)
  then show ?thesis using run all set_mono_prefix unfolding grows_def by blast
qed

end
