(* ===== verification/Stale.thy ===== *)
theory Stale
  imports Shardctl
begin

text \<open>
  A router with a placement map that is out of date, and the audit of \<open>src/cmd/shardctl/main.go\<close> that
  has to find what it wrote.
\<close>

section \<open>Ids of one tenant\<close>

text \<open>Clients that only add orders, and give the id \<open>k\<close> to no tenant but \<open>t\<close>.\<close>

definition only_of :: "int \<Rightarrow> u64 \<Rightarrow> db \<Rightarrow> bool" where
  "only_of k t d \<longleftrightarrow> (\<forall>x. \<forall>r\<in>set (orders (tabs (d x))). o_ID r = k \<longrightarrow> o_TenantID r = t)"

definition owned :: "int \<Rightarrow> u64 \<Rightarrow> db \<Rightarrow> db \<Rightarrow> bool" where
  "owned k t d d' \<longleftrightarrow> orders_grow d d' \<and> (only_of k t d \<longrightarrow> only_of k t d')"

interpretation own: rely "owned k t"
  by unfold_locales (auto simp: owned_def grow.R_refl intro: grow.R_trans)

lemma owned_moves: "moves_in (owned k t) es \<Longrightarrow> moves_in orders_grow es"
  by (simp add: moves_in_def owned_def)

lemma owned_step:
  assumes "sql_insert_order (\<lambda>now. mk_order k t logical now cents state) now (d x) = Inr (u, n)"
  shows "owned k t d (d(x := n))"
proof -
  let ?row = "mk_order k t logical now cents state"
  have "o_ID ?row = k" "o_TenantID ?row = t" by (simp_all add: mk_order_def)
  moreover have "orders (tabs n) = orders (tabs (d x)) \<or> orders (tabs n) = orders (tabs (d x)) @ [?row]"
    using assms by (auto simp: sql_insert_order_def split: if_splits)
  ultimately show ?thesis by (auto simp: owned_def orders_grow_def only_of_def)
qed

lemma guar_owned_Insert: "guar (owned k t) (Insert c k t cents state)"
proof -
  have "guar (owned k t) (insert_leg (\<lambda>now. mk_order k t logical now cents state) ps u)" for logical ps u
    unfolding insert_leg_def
    by (cases ps) (auto intro!: own.guar_try own.guar_ret own.guar_round_trip elim: owned_step simp del: ret_simp)
  then show ?thesis
    unfolding Insert_def WritePools_def
    by (auto intro!: own.guar_bind own.guar_lift own.guar_for own.guar_ret simp del: ret_simp split: sum.split prod.split)
qed

section \<open>The cutover\<close>

lemma SetTopology_simps [simp]:
  "topo (SetTopology c tp) = tp" "Shards (SetTopology c tp) = Shards c" "tables_of (SetTopology c tp) = tables_of c"
  "wf_cluster (SetTopology c tp) = wf_cluster c"
  by (simp_all add: SetTopology_def Shards_def wf_cluster_def tables_of_def Pool_def fun_eq_iff)

lemma misplaced_row:
  assumes "has_order k (tables_of c d s)" and "only_of k t d" and "RouteRead (topo c) t \<noteq> Inr s"
  shows "s \<in> set (Shards c)" and "0 < misplaced_rows c d s"
proof -
  obtain p where p: "Pool c s = Inr p"
    using assms(1) by (cases "Pool c s") (auto simp: tables_of_def has_order_def empty_tables_def)
  then show "s \<in> set (Shards c)" using Pool_Inr by force
  obtain r where r: "r \<in> set (orders (tables_of c d s))" "o_ID r = k" using assms(1) by (auto simp: has_order_def)
  then have "o_TenantID r = t" using assms(2) p by (auto simp: only_of_def tables_of_def)
  then show "0 < misplaced_rows c d s"
    using r(1) assms(3) by (auto simp: misplaced_rows_def filter_empty_conv)
qed

section \<open>Properties\<close>

text \<open>C38: The audit finds what a stale router wrote.  An order that \<open>Insert\<close> acknowledged under one map is,
  however the map has changed by the time of a complete audit, on the shard where its tenant is
  then read, or the audit is not clean and reports misplaced rows on every shard the order was
  written to.  Other clients may add orders all the while, but no tenant's under the same id.\<close>

theorem audit_finds_stale_writes:
  assumes "wf_cluster c" and "only_of k t (nodes w)" and "moves_in (owned k t) (script w)"
    and "Insert c k t cents state w = (Done (Inr ()), w1)" and "RouteWrite (topo c) t = Inr ws"
    and "owned k t (nodes w1) (nodes w2)" and "moves_in (=) (script w2)" and "unbroken (script w2)"
    and "audit_body (SetTopology c tp) w2 = (Done (Inr (ls, tot)), w3)" and "RouteRead tp t = Inr home"
  shows "has_order k (tables_of c (nodes w2) home) \<or> (0 < tot \<and> (\<forall>s\<in>set ws. \<exists>n>0. (s, n) \<in> set ls))"
proof -
  have at: "has_order k (tables_of c (nodes w2) s)" if s: "s \<in> set ws" for s
  proof -
    have "has_order k (tables_of c (nodes w1) s)" using Insert_Ok [OF owned_moves [OF assms(3)] assms(4)] assms(5) s by auto
    then show ?thesis
      using assms(6) by (cases "Pool c s") (auto simp: tables_of_def owned_def dest: has_order_grow)
  qed
  have "owned k t (nodes w) (nodes w1)"
    using guar_owned_Insert [of k t c cents state] assms(3,4) unfolding guar_def by (metis snd_conv)
  then have only: "only_of k t (nodes w2)" using assms(2,6) by (simp add: owned_def)
  let ?c = "SetTopology c tp"
  from audit_verdict [OF assms(7) _ assms(8,9)] assms(1)
  have ls: "ls = map (\<lambda>s. (s, misplaced_rows ?c (nodes w2) s)) (Shards c)"
    and tot: "tot = (\<Sum>s\<leftarrow>Shards c. misplaced_rows ?c (nodes w2) s)" by simp_all
  show ?thesis
  proof (cases "home \<in> set ws")
    case False
    have row: "s \<in> set (Shards c) \<and> 0 < misplaced_rows ?c (nodes w2) s" if "s \<in> set ws" for s
      using misplaced_row [of k ?c "nodes w2" s t] at [OF that] only that False assms(10) by auto
    obtain s where s: "s \<in> set ws" using topology_router.write_nonempty [OF assms(5)] by (cases ws) auto
    have "misplaced_rows ?c (nodes w2) s \<le> tot"
      unfolding tot by (rule member_le_sum_list) (use row [OF s] in \<open>auto simp: misplaced_rows_def\<close>)
    then have "0 < tot" using row [OF s] by linarith
    moreover have "\<exists>n>0. (s, n) \<in> set ls" if "s \<in> set ws" for s
      using row [OF that] unfolding ls by (intro exI [of _ "misplaced_rows ?c (nodes w2) s"]) (simp del: set_Shards)
    ultimately show ?thesis by blast
  qed (use at in blast)
qed

section \<open>Examples\<close>

text \<open>The router still has tenant 5 on shard 0; a cutover has since moved it to shard 1.\<close>

definition placed_on :: "int \<Rightarrow> directory" where
  "placed_on s = \<lparr>LogicalCount = 1, Placement = [s], Migrating = None, Pins = None\<rparr>"

definition old_cluster :: cluster where
  "old_cluster = SetTopology demo_cluster (TopDirectory (placed_on 0))"

lemma placed_on_routes:
  "Directory_RouteRead (placed_on s) t = Inr s" "Directory_RouteWrite (placed_on s) t = Inr [s]"
  "logicalOf (TopDirectory (placed_on s)) t = Inr 0"
  by (simp_all add: Directory_RouteRead_def Directory_RouteWrite_def logicalOf_def Logical_def go_umod_def go_index_def placed_on_def)

lemma old_pools:
  "Pool (SetTopology old_cluster tp) s = Pool demo_cluster s" "Pool old_cluster s = Pool demo_cluster s" "wf_cluster old_cluster"
  "topo old_cluster = TopDirectory (placed_on 0)" "Shards old_cluster = [0, 1]" "tables_of old_cluster = tables_of demo_cluster"
  by (simp_all add: old_cluster_def) (simp_all add: SetTopology_def Pool_def)

lemma stale_insert:
  "\<exists>w1. Insert old_cluster 9 5 100 ''new'' (demo_world [] [calm 5]) = (Done (Inr ()), w1)
    \<and> nodes w1 = nodes (demo_world [mk_order 9 5 0 5 100 ''new''] [])"
  by (auto simp: Insert_def WritePools_def old_pools placed_on_routes demo_world_def insert_leg_def try_io_def bind_io_def
      round_trip_def sql_insert_order_def Let_def has_order_def empty_tables_def mk_order_def)

lemma stale_audit:
  assumes "nodes w = nodes (demo_world [mk_order 9 5 0 5 100 ''new''] [])" and "script w = [calm 6, calm 7, calm 8]"
  shows "\<exists>w3. audit_body (SetTopology old_cluster (TopDirectory (placed_on 1))) w = (Done (Inr ([(0, 1), (1, 0)], 1)), w3)"
  using assms
  by (simp add: audit_body_def Misplaced_def audit_shard_def try_io_def query_rows_def query_rows_at_def query_row_def round_trip_def
      bind_io_def demo_world_def Let_def sql_tenants_def empty_tables_def mk_order_def go_count_def old_pools placed_on_routes)

lemma audit_finds_stale_writes_witness:
  "\<exists>w1 w2 w3. Insert old_cluster 9 5 100 ''new'' (demo_world [] [calm 5]) = (Done (Inr ()), w1) \<and> nodes w2 = nodes w1
    \<and> audit_body (SetTopology old_cluster (TopDirectory (placed_on 1))) w2 = (Done (Inr ([(0, 1), (1, 0)], 1)), w3)
    \<and> (has_order 9 (tables_of old_cluster (nodes w2) 1) \<or> (0 :: int) < 1 \<and> (\<exists>n>0. (0, n) \<in> set [(0 :: int, 1 :: int), (1, 0)]))"
proof -
  obtain w1 where ins: "Insert old_cluster 9 5 100 ''new'' (demo_world [] [calm 5]) = (Done (Inr ()), w1)"
    and w1: "nodes w1 = nodes (demo_world [mk_order 9 5 0 5 100 ''new''] [])"
    using stale_insert by blast
  let ?w2 = "w1\<lparr>script := [calm 6, calm 7, calm 8]\<rparr>"
  obtain w3 where audit: "audit_body (SetTopology old_cluster (TopDirectory (placed_on 1))) ?w2 = (Done (Inr ([(0, 1), (1, 0)], 1)), w3)"
    using stale_audit [of ?w2] w1 by auto
  have start: "only_of 9 5 (nodes (demo_world [] [calm 5]))" "moves_in (owned 9 5) (script (demo_world [] [calm 5]))"
    by (simp_all add: only_of_def demo_world_def empty_tables_def own.R_refl)
  have routes: "RouteWrite (topo old_cluster) 5 = Inr [0]" "RouteRead (TopDirectory (placed_on 1)) 5 = Inr 1"
    by (simp_all add: old_pools placed_on_routes)
  have later: "owned 9 5 (nodes w1) (nodes ?w2)" "moves_in (=) (script ?w2)" "unbroken (script ?w2)"
    by (simp_all add: unbroken_def own.R_refl)
  from audit_finds_stale_writes [OF old_pools(3) start ins routes(1) later audit routes(2)]
  have found: "has_order 9 (tables_of old_cluster (nodes ?w2) 1) \<or> (0 :: int) < 1 \<and> (\<exists>n>0. (0, n) \<in> set [(0 :: int, 1 :: int), (1, 0)])"
    by (simp only: list.set ball_simps simp_thms)
  have same: "nodes ?w2 = nodes w1" by simp
  show ?thesis by (intro exI conjI) (rule ins, rule same, rule audit, rule found)
qed

end
