(* ===== verification/Savers.thy ===== *)
theory Savers
  imports Store
begin

text \<open>
  Several processes in \<open>LoadOrInitDirectory\<close> at once, on their first use of one path: each has found
  no file and is in \<open>Save\<close> of \<open>src/internal/shard/topology.go\<close>.  They write the same document to the
  same temporary file.  The file system is finer here than in \<open>Store\<close>: names refer to inodes,
  and opening a file for writing, writing it and renaming it are steps that interleave.
\<close>

section \<open>The steps of Save\<close>

record disk =
  entry :: "string \<Rightarrow> nat option"
  inode :: "nat \<Rightarrow> content"
  unused :: nat

datatype saver = Opening | Writing nat | Renaming | Returned "gerr + unit" | Died

record saving =
  disk :: disk
  savers :: "saver multiset"

text \<open>
  \<open>WriteFile\<close> creates the temporary file or truncates it, then writes in one call to the inode it
  opened, whatever the name refers to by then; all write the same bytes from the start.
  \<open>Rename\<close> moves what the name refers to.  A process may be killed or get an error at any step.
\<close>

abbreviation tmp_of :: "string \<Rightarrow> string" where
  "tmp_of path \<equiv> path @ ''.tmp''"

definition create_tmp :: "string \<Rightarrow> disk \<Rightarrow> disk" where
  "create_tmp path d = d\<lparr>entry := (entry d)(tmp_of path := Some (unused d)), inode := (inode d)(unused d := Torn), unused := unused d + 1\<rparr>"

definition set_inode :: "nat \<Rightarrow> content \<Rightarrow> disk \<Rightarrow> disk" where
  "set_inode i x d = d\<lparr>inode := (inode d)(i := x)\<rparr>"

definition rename_tmp :: "string \<Rightarrow> nat \<Rightarrow> disk \<Rightarrow> disk" where
  "rename_tmp path i d = d\<lparr>entry := (entry d)(path := Some i, tmp_of path := None)\<rparr>"

inductive save_step :: "string \<Rightarrow> json \<Rightarrow> saving \<Rightarrow> saving \<Rightarrow> bool" for path :: string and b :: json where
  created: "entry d (tmp_of path) = None \<Longrightarrow>
    save_step path b \<lparr>disk = d, savers = add_mset Opening ps\<rparr> \<lparr>disk = create_tmp path d, savers = add_mset (Writing (unused d)) ps\<rparr>"
| truncated: "entry d (tmp_of path) = Some i \<Longrightarrow>
    save_step path b \<lparr>disk = d, savers = add_mset Opening ps\<rparr> \<lparr>disk = set_inode i Torn d, savers = add_mset (Writing i) ps\<rparr>"
| written:
    "save_step path b \<lparr>disk = d, savers = add_mset (Writing i) ps\<rparr> \<lparr>disk = set_inode i (Doc b) d, savers = add_mset Renaming ps\<rparr>"
| renamed: "entry d (tmp_of path) = Some i \<Longrightarrow>
    save_step path b \<lparr>disk = d, savers = add_mset Renaming ps\<rparr> \<lparr>disk = rename_tmp path i d, savers = add_mset (Returned (Inr ())) ps\<rparr>"
| missing: "entry d (tmp_of path) = None \<Longrightarrow>
    save_step path b \<lparr>disk = d, savers = add_mset Renaming ps\<rparr> \<lparr>disk = d, savers = add_mset (Returned (Inl (EFile NotExist))) ps\<rparr>"
| failing: "p \<in> {Opening, Renaming} \<union> range Writing \<Longrightarrow>
    save_step path b \<lparr>disk = d, savers = add_mset p ps\<rparr> \<lparr>disk = d, savers = add_mset (Returned (Inl (EFile IOFailure))) ps\<rparr>"
| killed: "p \<in> {Opening, Renaming} \<union> range Writing \<Longrightarrow>
    save_step path b \<lparr>disk = d, savers = add_mset p ps\<rparr> \<lparr>disk = d, savers = add_mset Died ps\<rparr>"

section \<open>What the interleavings keep\<close>

text \<open>A saver that stopped half way; an inode that is complete unless one did or is about to complete it.\<close>

definition gave_up :: "saver multiset \<Rightarrow> bool" where
  "gave_up ps \<longleftrightarrow> Died \<in># ps \<or> Returned (Inl (EFile IOFailure)) \<in># ps"

definition in_hand :: "json \<Rightarrow> saving \<Rightarrow> nat \<Rightarrow> bool" where
  "in_hand b r i \<longleftrightarrow> inode (disk r) i = Doc b \<or> Writing i \<in># savers r \<or> gave_up (savers r)"

definition saving_ok :: "string \<Rightarrow> json \<Rightarrow> saving \<Rightarrow> bool" where
  "saving_ok path b r \<longleftrightarrow>
     (\<forall>p i. entry (disk r) p = Some i \<longrightarrow> i < unused (disk r)) \<and> (\<forall>i. Writing i \<in># savers r \<longrightarrow> i < unused (disk r))
     \<and> (\<forall>i. entry (disk r) path = Some i \<longrightarrow> in_hand b r i \<and> entry (disk r) (tmp_of path) \<noteq> Some i \<and> Returned (Inr ()) \<in># savers r)
     \<and> (\<forall>i. entry (disk r) (tmp_of path) = Some i \<longrightarrow> in_hand b r i \<or> set_mset (savers r) \<subseteq> {Opening})
     \<and> (entry (disk r) path = None \<longrightarrow> entry (disk r) (tmp_of path) = None \<longrightarrow> set_mset (savers r) \<subseteq> {Opening} \<or> gave_up (savers r))
     \<and> (entry (disk r) path = None \<longrightarrow> Returned (Inr ()) \<notin># savers r \<and> (Returned (Inl (EFile NotExist)) \<in># savers r \<longrightarrow> gave_up (savers r)))
     \<and> savers r \<noteq> {#} \<and> (\<forall>x. Returned x \<in># savers r \<longrightarrow> x \<in> {Inr (), Inl (EFile NotExist), Inl (EFile IOFailure)})"

lemma tmp_not_path: "tmp_of path \<noteq> path" "path \<noteq> tmp_of path"
  by simp_all

lemma saving_ok_step:
  assumes "save_step path b r r'" and "saving_ok path b r"
  shows "saving_ok path b r'"
  using assms
proof cases
  case (created d ps)
  then show ?thesis using assms(2)
    by (auto simp: saving_ok_def in_hand_def gave_up_def create_tmp_def less_Suc_eq)
next
  case (truncated d i ps)
  then show ?thesis using assms(2)
    by (auto simp: saving_ok_def in_hand_def gave_up_def set_inode_def)
next
  case (written d i ps)
  then show ?thesis using assms(2)
    by (auto simp: saving_ok_def in_hand_def gave_up_def set_inode_def)
next
  case (renamed d i ps)
  then show ?thesis using assms(2)
    by (auto simp: saving_ok_def in_hand_def gave_up_def rename_tmp_def)
next
  case (missing d ps)
  then show ?thesis using assms(2)
    by (auto simp: saving_ok_def in_hand_def gave_up_def)
next
  case (failing p ps d)
  then show ?thesis using assms(2)
    by (auto simp: saving_ok_def in_hand_def gave_up_def)
next
  case (killed p ps d)
  then show ?thesis using assms(2)
    by (auto simp: saving_ok_def in_hand_def gave_up_def)
qed

lemma saving_ok_steps:
  assumes "(save_step path b)\<^sup>*\<^sup>* r r'" and "saving_ok path b r"
  shows "saving_ok path b r'"
  using assms by (induction rule: rtranclp_induct) (auto intro: saving_ok_step)

text \<open>Before the first use there is no file, and perhaps a temporary one that was left behind.\<close>

definition first_use :: "string \<Rightarrow> nat \<Rightarrow> saving \<Rightarrow> bool" where
  "first_use path n r \<longleftrightarrow> entry (disk r) path = None \<and> (\<forall>p i. entry (disk r) p = Some i \<longrightarrow> i < unused (disk r))
     \<and> savers r = replicate_mset n Opening"

lemma first_use_ok: "first_use path n r \<Longrightarrow> 0 < n \<Longrightarrow> saving_ok path b r"
  by (auto simp: first_use_def saving_ok_def)

lemmas steps = converse_rtranclp_into_rtranclp [where r = "save_step path b" for path b]

section \<open>Properties\<close>

text \<open>C35: First use by several processes at once: however the calls of \<open>Save\<close> interleave, and whatever is
  killed or fails, the file at the path is absent, the complete document, or one that some process
  is still writing or gave up writing.  When all have returned and none was killed or had an I/O
  error, the complete document is there; at least one \<open>Save\<close> has then returned nil, and any
  other returned nil or that the temporary file was gone.\<close>

theorem first_use_converges:
  assumes "first_use path n r" and "0 < n" and "(save_step path b)\<^sup>*\<^sup>* r r'"
  shows "(\<forall>i. entry (disk r') path = Some i \<longrightarrow> inode (disk r') i = Doc b \<or> Writing i \<in># savers r' \<or> gave_up (savers r'))
    \<and> (set_mset (savers r') \<subseteq> range Returned \<and> \<not> gave_up (savers r') \<longrightarrow>
        (\<exists>i. entry (disk r') path = Some i \<and> inode (disk r') i = Doc b)
        \<and> Returned (Inr ()) \<in># savers r' \<and> set_mset (savers r') \<subseteq> {Returned (Inr ()), Returned (Inl (EFile NotExist))})"
proof (intro conjI impI)
  have ok: "saving_ok path b r'" by (rule saving_ok_steps [OF assms(3) first_use_ok [OF assms(1,2)]])
  then show "\<forall>i. entry (disk r') path = Some i \<longrightarrow> inode (disk r') i = Doc b \<or> Writing i \<in># savers r' \<or> gave_up (savers r')"
    by (simp add: saving_ok_def in_hand_def)
  assume all: "set_mset (savers r') \<subseteq> range Returned \<and> \<not> gave_up (savers r')"
  then show results: "set_mset (savers r') \<subseteq> {Returned (Inr ()), Returned (Inl (EFile NotExist))}"
    using ok by (fastforce simp: saving_ok_def gave_up_def)
  then show nil: "Returned (Inr ()) \<in># savers r'" using ok all by (cases "entry (disk r') path") (auto simp: saving_ok_def)
  show "\<exists>i. entry (disk r') path = Some i \<and> inode (disk r') i = Doc b"
    using ok all nil by (cases "entry (disk r') path") (auto simp: saving_ok_def in_hand_def)
qed

text \<open>C36: A limit of the temporary file's fixed name: \<open>Save\<close> can return nil and leave a torn file.  One process
  has written the temporary file, a second truncates it, the first renames it, and the second is
  killed before it writes; no step of \<open>Save\<close> is left that would mend the file.\<close>

theorem acked_save_torn:
  "\<exists>r'. (save_step path b)\<^sup>*\<^sup>* \<lparr>disk = \<lparr>entry = (\<lambda>p. None), inode = (\<lambda>i. Torn), unused = 0\<rparr>, savers = {#Opening, Opening#}\<rparr> r'
    \<and> savers r' = {#Returned (Inr ()), Died#} \<and> (\<exists>i. entry (disk r') path = Some i \<and> inode (disk r') i = Torn)
    \<and> (\<forall>r''. \<not> save_step path b r' r'')"
proof -
  let ?d0 = "\<lparr>entry = (\<lambda>p. None), inode = (\<lambda>i. Torn), unused = 0\<rparr>"
  let ?d1 = "create_tmp path ?d0" let ?d2 = "set_inode 0 (Doc b) ?d1" let ?d3 = "set_inode 0 Torn ?d2" let ?d4 = "rename_tmp path 0 ?d3"
  have 1: "save_step path b \<lparr>disk = ?d0, savers = {#Opening, Opening#}\<rparr> \<lparr>disk = ?d1, savers = {#Writing 0, Opening#}\<rparr>"
    using created [of ?d0 path b "{#Opening#}"] by simp
  have 2: "save_step path b \<lparr>disk = ?d1, savers = {#Writing 0, Opening#}\<rparr> \<lparr>disk = ?d2, savers = {#Opening, Renaming#}\<rparr>"
    using written [of path b ?d1 0 "{#Opening#}"] by (simp add: add_mset_commute)
  have 3: "save_step path b \<lparr>disk = ?d2, savers = {#Opening, Renaming#}\<rparr> \<lparr>disk = ?d3, savers = {#Renaming, Writing 0#}\<rparr>"
    using truncated [of ?d2 path 0 b "{#Renaming#}"] by (simp add: create_tmp_def set_inode_def add_mset_commute)
  have 4: "save_step path b \<lparr>disk = ?d3, savers = {#Renaming, Writing 0#}\<rparr> \<lparr>disk = ?d4, savers = {#Writing 0, Returned (Inr ())#}\<rparr>"
    using renamed [of ?d3 path 0 b "{#Writing 0#}"] by (simp add: create_tmp_def set_inode_def add_mset_commute)
  have 5: "save_step path b \<lparr>disk = ?d4, savers = {#Writing 0, Returned (Inr ())#}\<rparr> \<lparr>disk = ?d4, savers = {#Returned (Inr ()), Died#}\<rparr>"
    using killed [of "Writing 0" path b ?d4 "{#Returned (Inr ())#}"] by (simp add: add_mset_commute)
  have run: "(save_step path b)\<^sup>*\<^sup>* \<lparr>disk = ?d0, savers = {#Opening, Opening#}\<rparr> \<lparr>disk = ?d4, savers = {#Returned (Inr ()), Died#}\<rparr>"
    by (rule steps [OF 1], rule steps [OF 2], rule steps [OF 3], rule steps [OF 4], rule steps [OF 5]) simp
  have "\<not> save_step path b \<lparr>disk = ?d4, savers = {#Returned (Inr ()), Died#}\<rparr> r''" for r''
    by (auto elim!: save_step.cases simp: add_eq_conv_ex)
  with run show ?thesis by (intro exI conjI allI) (auto simp: create_tmp_def set_inode_def rename_tmp_def)
qed

section \<open>Examples\<close>

text \<open>Two processes share the temporary file; the second finds it gone when it renames.\<close>

definition two_start :: saving where
  "two_start = \<lparr>disk = \<lparr>entry = (\<lambda>p. None), inode = (\<lambda>i. Torn), unused = 0\<rparr>, savers = {#Opening, Opening#}\<rparr>"

lemma two_run:
  "\<exists>d. (save_step ''t'' b)\<^sup>*\<^sup>* two_start \<lparr>disk = d, savers = {#Returned (Inl (EFile NotExist)), Returned (Inr ())#}\<rparr>"
proof -
  let ?d0 = "disk two_start"
  let ?d1 = "create_tmp ''t'' ?d0" let ?d2 = "set_inode 0 Torn ?d1" let ?d3 = "set_inode 0 (Doc b) ?d2"
  let ?d4 = "set_inode 0 (Doc b) ?d3" let ?d5 = "rename_tmp ''t'' 0 ?d4"
  note defs = two_start_def create_tmp_def set_inode_def rename_tmp_def
  have 1: "save_step ''t'' b two_start \<lparr>disk = ?d1, savers = {#Opening, Writing 0#}\<rparr>"
    using created [of ?d0 "''t''" b "{#Opening#}"] by (simp add: two_start_def add_mset_commute)
  have 2: "save_step ''t'' b \<lparr>disk = ?d1, savers = {#Opening, Writing 0#}\<rparr> \<lparr>disk = ?d2, savers = {#Writing 0, Writing 0#}\<rparr>"
    using truncated [of ?d1 "''t''" 0 b "{#Writing 0#}"] by (simp add: defs)
  have 3: "save_step ''t'' b \<lparr>disk = ?d2, savers = {#Writing 0, Writing 0#}\<rparr> \<lparr>disk = ?d3, savers = {#Writing 0, Renaming#}\<rparr>"
    using written [of "''t''" b ?d2 0 "{#Writing 0#}"] by (simp add: add_mset_commute)
  have 4: "save_step ''t'' b \<lparr>disk = ?d3, savers = {#Writing 0, Renaming#}\<rparr> \<lparr>disk = ?d4, savers = {#Renaming, Renaming#}\<rparr>"
    by (rule written)
  have 5: "save_step ''t'' b \<lparr>disk = ?d4, savers = {#Renaming, Renaming#}\<rparr> \<lparr>disk = ?d5, savers = {#Renaming, Returned (Inr ())#}\<rparr>"
    using renamed [of ?d4 "''t''" 0 b "{#Renaming#}"] by (simp add: defs add_mset_commute)
  have 6: "save_step ''t'' b \<lparr>disk = ?d5, savers = {#Renaming, Returned (Inr ())#}\<rparr>
      \<lparr>disk = ?d5, savers = {#Returned (Inl (EFile NotExist)), Returned (Inr ())#}\<rparr>"
    by (rule missing) (simp add: defs)
  have "(save_step ''t'' b)\<^sup>*\<^sup>* two_start \<lparr>disk = ?d5, savers = {#Returned (Inl (EFile NotExist)), Returned (Inr ())#}\<rparr>"
    by (rule steps [OF 1], rule steps [OF 2], rule steps [OF 3], rule steps [OF 4], rule steps [OF 5], rule steps [OF 6]) simp
  then show ?thesis by blast
qed

lemma first_use_converges_witness:
  "\<exists>d i. (save_step ''t'' (MarshalDirectory saved_dir))\<^sup>*\<^sup>* two_start
      \<lparr>disk = d, savers = {#Returned (Inl (EFile NotExist)), Returned (Inr ())#}\<rparr>
    \<and> entry d ''t'' = Some i \<and> inode d i = Doc (MarshalDirectory saved_dir)"
proof -
  obtain d where run: "(save_step ''t'' (MarshalDirectory saved_dir))\<^sup>*\<^sup>* two_start
      \<lparr>disk = d, savers = {#Returned (Inl (EFile NotExist)), Returned (Inr ())#}\<rparr>"
    using two_run by blast
  have "first_use ''t'' 2 two_start" by (simp add: first_use_def two_start_def numeral_2_eq_2)
  from first_use_converges [OF this _ run]
  have "\<exists>i. entry d ''t'' = Some i \<and> inode d i = Doc (MarshalDirectory saved_dir)" by (simp add: gave_up_def)
  with run show ?thesis by blast
qed

end
