(* ===== verification/Spec2Isabelle.thy ===== *)
theory Spec2Isabelle
  imports Commands Transfer_Clients Retries Seed_Ids Keeping Stale Savers
begin

text \<open>
  A verification development for the shard router of this repository: the Go package
  \<open>src/internal/shard\<close> and the command line tool \<open>src/cmd/shardctl/main.go\<close>.

  \<^bold>\<open>The program.\<close>  Tenants are hashed (\<open>hash.go\<close>) and routed to Postgres nodes by a topology
  (\<open>topology.go\<close>: mod N, a consistent-hash ring, or a directory with logical shards, migration
  windows and pins).  The directory is kept in a JSON file (\<open>store.go\<close>).  A cluster
  (\<open>cluster.go\<close>) holds one connection pool per shard and the topology.  Orders are written to
  every shard that the topology names and read from one, or from all by a scatter-gather
  (\<open>orders.go\<close>, \<open>scatter.go\<close>, \<open>keyset.go\<close>), under ids made by the application (\<open>id.go\<close>).
  Money moves between shards by two-phase commit (\<open>txn.go\<close>) or by a transactional outbox
  (\<open>outbox.go\<close>).  \<open>main.go\<close> drives all of it.

  \<^bold>\<open>The theories\<close>, in the order they build on each other:

  \<^item> \<open>Prelude\<close>: Go integers as words, run-time panics as a sum type, maps, slices, shared lemmas.
  \<^item> \<open>Hash\<close>: \<open>Key\<close>; permutation and injectivity of FNV-1a on aligned blocks of ids.
  \<^item> \<open>Ids\<close>: \<open>NewIDGen\<close>, \<open>Next\<close>, \<open>DecodeID\<close>.  Ids increase and decode to what was encoded, \<open>Next\<close>
    returns where the clock moves, and a clock that runs behind overflows the sequence.
  \<^item> \<open>Topology\<close>, \<open>Ring\<close>, \<open>Directory\<close>, \<open>Router\<close>: the routers, each an interpretation of the
    contract \<open>router\<close>; the interface as a datatype; \<open>Churn\<close> and \<open>Distribution\<close>.  The ring is the
    clockwise successor and moves keys to new nodes only; a directory's move is exact and its
    writes cover the read target of before and after the cutover.
  \<^item> \<open>Strconv\<close>, \<open>Keyset\<close>: what the code uses of \<open>fmt\<close>, \<open>strconv\<close>, \<open>strings\<close> and \<open>base64\<close>; cursors and
    their round trip, \<open>MergeDesc\<close>, the page queries, and the walk over a feed.
  \<^item> \<open>Flags\<close>: the command lines of the seven commands with flags, by what the code uses of \<open>flag\<close>: the
    last setting of a flag is read back, any other is its default.
  \<^item> \<open>World\<close>: the tables of \<open>src/labs/04-app-sharding-go/schema.sql\<close>, the nodes, round trips and
    transactions; the locale \<open>rely\<close> with its rules for guarantees and triples.
  \<^item> \<open>Cluster\<close>: \<open>DSNsFromEnv\<close>, \<open>Open\<close>, \<open>Close\<close>, \<open>Ping\<close>, \<open>ReadPool\<close>, \<open>WritePools\<close>.
  \<^item> \<open>Scatter\<close>: the fan-out as a step relation of goroutines, and as a function of the order in
    which they complete; every complete run of the former is the latter.
  \<^item> \<open>Orders\<close>: \<open>Insert\<close>, \<open>SummarizeTenant\<close>, \<open>StateCounts\<close>, \<open>Stats\<close>, \<open>Misplaced\<close>, \<open>PageRecent\<close>, with
    what each answer says of the tables.
  \<^item> \<open>Txn\<close>: \<open>TwoPC.Do\<close>, \<open>rollbackAll\<close>, \<open>Orphans\<close>; all or nothing for every script.
  \<^item> \<open>Isolation\<close>: the same among other clients, who keep off what the parts lock: the contract
    \<open>isolation\<close> of a part, with the Hoare rules for \<open>TwoPC.Do\<close>.
  \<^item> \<open>Outbox\<close>: \<open>Transfer\<close>, \<open>RelayOnce\<close>, \<open>PendingOutbox\<close>, and a bank in which a transfer happens at one
    moment; the shards refine it.
  \<^item> \<open>Store\<close>: \<open>Save\<close>, \<open>LoadDirectory\<close>, \<open>LoadOrInitDirectory\<close> on a file system that fails and tears.
  \<^item> \<open>Savers\<close>: several processes in \<open>Save\<close> at once, as a step relation over names and inodes.
  \<^item> \<open>Seed\<close>: \<open>Seed\<close> and \<open>cmdSeed\<close>.
  \<^item> \<open>Shardctl\<close>: \<open>open\<close> with its placement check, and the commands that read.
  \<^item> \<open>Transfers\<close>: \<open>cmdTransfer\<close> with \<open>prepareOnly\<close> and \<open>replayLast\<close>, \<open>cmdOrphans\<close>.
  \<^item> \<open>Commands\<close>: \<open>main\<close> with its flags and exit codes, and \<open>cmdDemo\<close>.
  \<^item> \<open>Transfer_Clients\<close>, \<open>Retries\<close>, \<open>Seed_Ids\<close>, \<open>Stale\<close>: operations in company: a 2PC transfer among other
    clients, an \<open>Insert\<close> that is retried, the ids of a first seeding, and the audit after a write
    by a router whose map is out of date.
  \<^item> \<open>Reading\<close>, \<open>Keeping\<close>: what every run of \<open>main\<close> promises: the commands that read write nothing, and
    no command loses a row or breaks a key or a type of the schema.

  \<^bold>\<open>How the code is read.\<close>  A function that only computes is a HOL function of the same name; a
  panic is \<open>Inl\<close> of the sum \<open>'a go\<close>, a Go error \<open>Inl\<close> of \<open>gerr + 'a\<close>.  A function that talks to the
  nodes is a state-passing program \<open>'a io\<close> over the record \<open>world\<close>; it is done, panics or is
  killed.  \<open>for_io\<close> and \<open>try_io\<close> are the loops and the \<open>if err != nil\<close> of the source.  One
  statement is one round trip and reads one event of the world's script: the move of the other
  clients before it, whether request and answer arrive, and the server's clock; where the
  script ends the process is killed.  The SQL of the source is a function on the tables of one
  node (\<open>sql_...\<close>), atomic and with its constraints.  Theorems quantify over the script, so they hold for
  every schedule of losses, kills and interference that their hypothesis on the moves allows:
  \<open>moves_in (=)\<close> is no other writer, \<open>moves_in R\<close> any number of clients that keep to \<open>R\<close>.
  Scripts, clocks and lists of readings take the place of fuel: the functions are
  total, and liveness is stated for scripts of given length.  A command runs on the record
  \<open>process\<close>, the host's files and the world, and results in the numbers it prints.

  \<^bold>\<open>Parameters.\<close>  What is not under \<open>src/\<close>, with no law assumed but where a theorem names it: \<open>pgxpool\<close>'s
  refusals, the environment, \<open>pg_total_relation_size\<close>, the random numbers of \<open>math/rand\<close>, what
  a \<open>timestamptz\<close> column keeps of a time, the order of a \<open>range\<close> over a map (a permutation), the
  order in which goroutines complete.

  \<^bold>\<open>Not modelled.\<close>  The printed text, its formatting and \<open>usage\<close>; the exit code 3 of
  \<open>-crash\<close>, which shows as a killed process; deadlines, which show as errors of the calls they cut off; how \<open>pgx\<close> encodes a tenant number of
  \<open>2 ^ 63\<close> or more in a \<open>bigint\<close>; locks, other than by treating a transaction as one moment, and
  deadlock; Postgres itself beyond the statements used; the SQL labs, scripts and tests.

  \<^bold>\<open>What is left to do.\<close>  The money of all shards after a relay and a 2PC transfer that run at once.
\<close>

end
